theory Spec2Isabelle
  imports Complex_Main "HOL-Library.Log_Nat" "HOL-Library.Stream" "HOL-Library.Word"
begin

section \<open>Numbers\<close>

text \<open>
  A JavaScript number is an IEEE 754 double. A finite double is modelled by the real
  number it stands for, and every arithmetic operation rounds its exact result to the
  nearest double, a tie going to the even significand: \<open>fl\<close>. The scale of the
  rounding is the binary exponent of the number, \<open>binexp\<close>, and not below that of
  the subnormal numbers. The arithmetic on samples, percentages and kernel sizes stays
  far below the largest double and is written with \<open>fl\<close> alone; where the code can
  produce or be given an infinity or \<^verbatim>\<open>NaN\<close> (a division by zero, the coefficients
  of a spectrum, a radius) the numbers are of the type \<open>number\<close> below.
\<close>

definition binexp :: "real \<Rightarrow> int" where
  "binexp x =
     (if 1 \<le> \<bar>x\<bar> then bitlen \<lfloor>\<bar>x\<bar>\<rfloor> - 1 else - bitlen (\<lceil>1 / \<bar>x\<bar>\<rceil> - 1))"

text \<open>The nearest integer, a tie going to the even one.\<close>

definition rne :: "real \<Rightarrow> int" where
  "rne x =
     (let f = \<lfloor>x\<rfloor> in
      if x - of_int f < 1 / 2 then f
      else if 1 / 2 < x - of_int f then f + 1
      else if even f then f else f + 1)"

definition fl :: "real \<Rightarrow> real" where
  "fl x =
     (if x = 0 then 0
      else let q = 2 powi (max (binexp x) (- 1022) - 52) in of_int (rne (x / q)) * q)"

text \<open>The operators \<^verbatim>\<open>+\<close>, \<^verbatim>\<open>-\<close>, \<^verbatim>\<open>*\<close> and \<^verbatim>\<open>/\<close> (by a nonzero divisor) on
  doubles.\<close>

definition fadd :: "real \<Rightarrow> real \<Rightarrow> real" where
  "fadd x y = fl (x + y)"

definition fsub :: "real \<Rightarrow> real \<Rightarrow> real" where
  "fsub x y = fl (x - y)"

definition fmul :: "real \<Rightarrow> real \<Rightarrow> real" where
  "fmul x y = fl (x * y)"

definition fdiv :: "real \<Rightarrow> real \<Rightarrow> real" where
  "fdiv x y = fl (x / y)"

text \<open>
  The functions of \<^verbatim>\<open>Math\<close>. The square root is the rounded root. ECMAScript leaves
  the accuracy of the transcendental functions to the implementation; they are taken
  here as the rounded exact values, and nothing below depends on what they return.
\<close>

definition Math_sqrt :: "real \<Rightarrow> real" where
  "Math_sqrt x = fl (sqrt x)"

definition Math_log :: "real \<Rightarrow> real" where
  "Math_log x = fl (ln x)"

definition Math_cos :: "real \<Rightarrow> real" where
  "Math_cos x = fl (cos x)"

definition Math_exp :: "real \<Rightarrow> real" where
  "Math_exp x = fl (exp x)"

definition Math_PI :: real where
  "Math_PI = fl pi"

text \<open>
  The numbers a \<^verbatim>\<open>Float64Array\<close> can hold, and a parameter of type \<^verbatim>\<open>number\<close> can
  be: the finite doubles, the two infinities and \<^verbatim>\<open>NaN\<close>. A rounding whose result
  reaches \<open>2\<^sup>1\<^sup>0\<^sup>2\<^sup>4\<close> overflows to an infinity.
\<close>

datatype number = Fin real | PosInf | NegInf | NaN

definition jfl :: "real \<Rightarrow> number" where
  "jfl x = (if \<bar>fl x\<bar> < 2 ^ 1024 then Fin (fl x) else if 0 < x then PosInf else NegInf)"

section \<open>Platform model: typed arrays and the store\<close>

text \<open>
  The library works on browser \<^verbatim>\<open>ImageData\<close> objects: a width, a height and a
  \<^verbatim>\<open>Uint8ClampedArray\<close> of samples. Typed arrays are mutable objects, so they live
  in an explicit store and are named by their address; a sample is a byte.
\<close>

datatype error = IndexSizeError | InvalidStateError | TypeError

type_synonym byte = "8 word"

record store =
  u8 :: "byte list list"
  f64 :: "number list list"

record dims =
  width :: nat
  height :: nat

record ImageData = dims +
  data :: nat

text \<open>\<^verbatim>\<open>Math.round\<close>: the nearest integer, a tie going up.\<close>

definition Math_round :: "real \<Rightarrow> real" where
  "Math_round x = of_int \<lfloor>x + 1 / 2\<rfloor>"

text \<open>
  The conversion a \<^verbatim>\<open>Uint8ClampedArray\<close> applies to every number written into it
  (ECMAScript \<^verbatim>\<open>ToUint8Clamp\<close>): clamp into 0..255, then round to the nearest
  integer, a tie going to the even neighbour.
\<close>

definition ToUint8Clamp :: "real \<Rightarrow> nat" where
  "ToUint8Clamp v =
     (if v \<le> 0 then 0
      else if 255 \<le> v then 255
      else let f = \<lfloor>v\<rfloor> in
        if of_int f + 1 / 2 < v then nat (f + 1)
        else if v < of_int f + 1 / 2 then nat f
        else if even f then nat f else nat (f + 1))"

text \<open>Reading and writing one sample of the array at address \<open>a\<close>. A write past the
  end of a typed array is ignored, as \<open>list_update\<close> does.\<close>

definition rd :: "store \<Rightarrow> nat \<Rightarrow> nat \<Rightarrow> nat" where
  "rd s a i = unat (u8 s ! a ! i)"

definition wr :: "nat \<Rightarrow> nat \<Rightarrow> real \<Rightarrow> store \<Rightarrow> store" where
  "wr a i v s = s\<lparr>u8 := (u8 s)[a := (u8 s ! a)[i := of_nat (ToUint8Clamp v)]]\<rparr>"

text \<open>The recurring triple of writes
  \<^verbatim>\<open>out.data[i] = r; out.data[i + 1] = g; out.data[i + 2] = b\<close>.\<close>

definition set_rgb :: "nat \<Rightarrow> nat \<Rightarrow> real \<Rightarrow> real \<Rightarrow> real \<Rightarrow> store \<Rightarrow> store" where
  "set_rgb a i r g b s = wr a (i + 2) b (wr a (i + 1) g (wr a i r s))"

text \<open>\<^verbatim>\<open>new Uint8ClampedArray(xs)\<close>: a fresh array holding a copy of \<open>xs\<close>.\<close>

definition new_Uint8ClampedArray :: "byte list \<Rightarrow> store \<Rightarrow> store \<times> nat" where
  "new_Uint8ClampedArray xs s = (s\<lparr>u8 := u8 s @ [xs]\<rparr>, length (u8 s))"

text \<open>
  \<^verbatim>\<open>new ImageData(data, sw, sh)\<close> as the HTML standard defines it: the constructor
  throws unless the array's length is a nonzero multiple of four, the pixel count is a
  multiple of \<open>sw\<close> (never so for \<open>sw = 0\<close>), and \<open>sh\<close> is the quotient. The object
  keeps the array it was given.
\<close>

definition new_ImageData :: "nat \<Rightarrow> nat \<Rightarrow> nat \<Rightarrow> store \<Rightarrow> error + ImageData" where
  "new_ImageData a sw sh s =
     (let len = length (u8 s ! a) in
      if len = 0 \<or> len mod 4 \<noteq> 0 then Inl InvalidStateError
      else if sw = 0 \<or> (len div 4) mod sw \<noteq> 0 then Inl IndexSizeError
      else if sh \<noteq> (len div 4) div sw then Inl IndexSizeError
      else Inr \<lparr>width = sw, height = sh, data = a\<rparr>)"

section \<open>Image data helpers\<close>

definition cloneImageData :: "ImageData \<Rightarrow> store \<Rightarrow> error + (store \<times> ImageData)" where
  "cloneImageData img s =
     (let (s1, a) = new_Uint8ClampedArray (u8 s ! data img) s in
      case new_ImageData a (width img) (height img) s1 of
        Inl e \<Rightarrow> Inl e
      | Inr out \<Rightarrow> Inr (s1, out))"

text \<open>The number of rounds of \<^verbatim>\<open>for (i = c; i < data.length; i += 4)\<close>.\<close>

definition rounds :: "nat \<Rightarrow> nat \<Rightarrow> nat" where
  "rounds len c = (len + 3 - c) div 4"

text \<open>An image object of the store: its array is allocated and has four samples for
  each of its \<open>width \<times> height\<close> pixels, neither factor zero.\<close>

definition img_ok :: "store \<Rightarrow> ImageData \<Rightarrow> bool" where
  "img_ok s img \<longleftrightarrow>
     data img < length (u8 s) \<and> 0 < width img \<and> 0 < height img \<and>
     length (u8 s ! data img) = width img * height img * 4"

section \<open>Conversion\<close>

definition toGrayscale_pixel :: "nat \<Rightarrow> nat \<Rightarrow> store \<Rightarrow> store" where
  "toGrayscale_pixel a i s =
     (let g = Math_round (fadd (fadd (fmul (fl 0.299) (real (rd s a i)))
                                     (fmul (fl 0.587) (real (rd s a (i + 1)))))
                               (fmul (fl 0.114) (real (rd s a (i + 2)))))
      in set_rgb a i g g g s)"

definition toGrayscale :: "ImageData \<Rightarrow> store \<Rightarrow> error + (store \<times> ImageData)" where
  "toGrayscale img s =
     (case cloneImageData img s of
        Inl e \<Rightarrow> Inl e
      | Inr (s1, out) \<Rightarrow>
          Inr (fold (\<lambda>p. toGrayscale_pixel (data out) (4 * p))
                 [0..<rounds (length (u8 s1 ! data out)) 0] s1, out))"

section \<open>Noise\<close>

text \<open>\<^verbatim>\<open>Math.random()\<close> takes the next draw of the generator's stream.\<close>

definition Math_random :: "real stream \<Rightarrow> real \<times> real stream" where
  "Math_random rs = (shd rs, stl rs)"

definition uniform_sample :: "nat \<Rightarrow> real \<Rightarrow> nat \<Rightarrow> store \<times> real stream \<Rightarrow> store \<times> real stream" where
  "uniform_sample a amount j = (\<lambda>(s, rs).
     let (r, rs') = Math_random rs in
     (wr a j (max 0 (min 255
        (fadd (real (rd s a j)) (fmul (fmul (fsub r (1 / 2)) 2) amount)))) s, rs'))"

definition addUniformNoise ::
  "ImageData \<Rightarrow> real \<Rightarrow> store \<times> real stream \<Rightarrow> error + (store \<times> real stream) \<times> ImageData" where
  "addUniformNoise img percentage = (\<lambda>(s, rs).
     case cloneImageData img s of
       Inl e \<Rightarrow> Inl e
     | Inr (s1, out) \<Rightarrow>
         let amount = fmul (fdiv percentage 100) 255;
             a = data out
         in Inr (fold (\<lambda>p. fold (\<lambda>c. uniform_sample a amount (4 * p + c)) [0..<3])
                   [0..<rounds (length (u8 s1 ! a)) 0] (s1, rs), out))"

text \<open>
  \<^verbatim>\<open>randGaussian\<close> draws until it sees a nonzero number, twice. The loop runs for
  ever on a stream of zeros, so a draw that never comes is the value \<open>None\<close>.
\<close>

partial_function (option) draw_nonzero :: "real stream \<Rightarrow> (real \<times> real stream) option" where
  "draw_nonzero rs =
     (let (u, rs') = Math_random rs in
      if u = 0 then draw_nonzero rs' else Some (u, rs'))"

definition randGaussian :: "real stream \<Rightarrow> (real \<times> real stream) option" where
  "randGaussian rs =
     (case draw_nonzero rs of
        None \<Rightarrow> None
      | Some (u, rs1) \<Rightarrow>
          (case draw_nonzero rs1 of
             None \<Rightarrow> None
           | Some (v, rs2) \<Rightarrow>
               Some (fmul (Math_sqrt (fmul (- 2) (Math_log u)))
                          (Math_cos (fmul (fmul 2 Math_PI) v)), rs2)))"

fun fold_opt :: "('a \<Rightarrow> 's \<Rightarrow> 's option) \<Rightarrow> 'a list \<Rightarrow> 's \<Rightarrow> 's option" where
  "fold_opt f [] s = Some s"
| "fold_opt f (x # xs) s = (case f x s of None \<Rightarrow> None | Some t \<Rightarrow> fold_opt f xs t)"

definition gaussian_sample ::
  "nat \<Rightarrow> real \<Rightarrow> nat \<Rightarrow> store \<times> real stream \<Rightarrow> (store \<times> real stream) option" where
  "gaussian_sample a sigma j = (\<lambda>(s, rs).
     case randGaussian rs of
       None \<Rightarrow> None
     | Some (g, rs') \<Rightarrow>
         Some (wr a j (max 0 (min 255
                 (Math_round (fadd (real (rd s a j)) (fmul g sigma))))) s, rs'))"

definition addGaussianNoise ::
  "ImageData \<Rightarrow> real \<Rightarrow> store \<times> real stream \<Rightarrow>
     (error + (store \<times> real stream) \<times> ImageData) option" where
  "addGaussianNoise img percentage = (\<lambda>(s, rs).
     case cloneImageData img s of
       Inl e \<Rightarrow> Some (Inl e)
     | Inr (s1, out) \<Rightarrow>
         let sigma = fmul (fdiv percentage 100) 80;
             a = data out
         in (case fold_opt (\<lambda>p. fold_opt (\<lambda>c. gaussian_sample a sigma (4 * p + c)) [0..<3])
                    [0..<rounds (length (u8 s1 ! a)) 0] (s1, rs) of
               None \<Rightarrow> None
             | Some st \<Rightarrow> Some (Inr (st, out))))"

definition saltPepper_pixel :: "nat \<Rightarrow> real \<Rightarrow> nat \<Rightarrow> store \<times> real stream \<Rightarrow> store \<times> real stream" where
  "saltPepper_pixel a prob i = (\<lambda>(s, rs).
     let (r, rs') = Math_random rs in
     if r < fdiv prob 2 then (set_rgb a i 0 0 0 s, rs')
     else if r < prob then (set_rgb a i 255 255 255 s, rs')
     else (s, rs'))"

definition addSaltPepperNoise ::
  "ImageData \<Rightarrow> real \<Rightarrow> store \<times> real stream \<Rightarrow> error + (store \<times> real stream) \<times> ImageData" where
  "addSaltPepperNoise img percentage = (\<lambda>(s, rs).
     case cloneImageData img s of
       Inl e \<Rightarrow> Inl e
     | Inr (s1, out) \<Rightarrow>
         let prob = fdiv percentage 100;
             a = data out
         in Inr (fold (\<lambda>p. saltPepper_pixel a prob (4 * p))
                   [0..<rounds (length (u8 s1 ! a)) 0] (s1, rs), out))"

section \<open>Spatial filters\<close>

text \<open>\<^verbatim>\<open>Math.min(n - 1, Math.max(0, v))\<close>: a coordinate clamped onto the image.\<close>

definition clampc :: "nat \<Rightarrow> int \<Rightarrow> nat" where
  "clampc n v = nat (min (int n - 1) (max 0 v))"

text \<open>The three running sums of \<^verbatim>\<open>convolve\<close> at the pixel \<open>(x, y)\<close>, gathered from
  the edge-clamped neighbourhood in the order of the kernel loops.\<close>

definition convolve_sums :: "store \<Rightarrow> ImageData \<Rightarrow> real list list \<Rightarrow> nat \<Rightarrow> nat \<Rightarrow> real list" where
  "convolve_sums s img kern x y =
     (let kh = length kern; kw = length (kern ! 0);
          hh = kh div 2; hw = kw div 2
      in fold (\<lambda>ky. fold (\<lambda>kx sm.
             let px = clampc (width img) (int x + int kx - int hw);
                 py = clampc (height img) (int y + int ky - int hh);
                 idx = (py * width img + px) * 4
             in fold (\<lambda>c sm. sm[c := fadd (sm ! c)
                                  (fmul (real (rd s (data img) (idx + c))) (kern ! ky ! kx))])
                  [0..<3] sm)
           [0..<kw]) [0..<kh] [0, 0, 0])"

definition convolve_pixel ::
  "ImageData \<Rightarrow> nat \<Rightarrow> real list list \<Rightarrow> bool \<Rightarrow> real \<Rightarrow> nat \<Rightarrow> nat \<Rightarrow> store \<Rightarrow> store" where
  "convolve_pixel img a kern normalise ksum y x s =
     (let sm = convolve_sums s img kern x y;
          idx = (y * width img + x) * 4
      in fold (\<lambda>c. wr a (idx + c)
                 (max 0 (min 255 (Math_round (if normalise then fdiv (sm ! c) ksum else sm ! c)))))
           [0..<3] s)"

text \<open>An empty kernel has no row 0, and \<^verbatim>\<open>kernel[0].length\<close> throws.\<close>

definition convolve :: "ImageData \<Rightarrow> real list list \<Rightarrow> bool \<Rightarrow> store \<Rightarrow> error + (store \<times> ImageData)" where
  "convolve img kern normalise s =
     (case cloneImageData img s of
        Inl e \<Rightarrow> Inl e
      | Inr (s1, out) \<Rightarrow>
          if kern = [] then Inl TypeError
          else
            let ksum0 = (if normalise then fold (\<lambda>row. fold (\<lambda>v acc. fadd acc v) row) kern 0 else 0);
                ksum = (if ksum0 = 0 then 1 else ksum0)
            in Inr (fold (\<lambda>y. fold (\<lambda>x. convolve_pixel img (data out) kern normalise ksum y x)
                             [0..<width img])
                      [0..<height img] s1, out))"

text \<open>\<^verbatim>\<open>Array.from({ length: size }, ...)\<close> takes a negative length as 0.\<close>

definition averageFilter :: "ImageData \<Rightarrow> int \<Rightarrow> store \<Rightarrow> error + (store \<times> ImageData)" where
  "averageFilter img sz = convolve img (replicate (nat sz) (replicate (nat sz) 1)) True"

text \<open>
  At size 0 the only weight of the Gaussian kernel is \<^verbatim>\<open>Math.exp(-0 / 0)\<close>, which is
  \<^verbatim>\<open>NaN\<close>: so are the sum of the weights and every normalised sum, and the array
  stores \<^verbatim>\<open>NaN\<close> as 0.
\<close>

definition convolve_NaN :: "ImageData \<Rightarrow> store \<Rightarrow> error + (store \<times> ImageData)" where
  "convolve_NaN img s =
     (case cloneImageData img s of
        Inl e \<Rightarrow> Inl e
      | Inr (s1, out) \<Rightarrow>
          Inr (fold (\<lambda>y. fold (\<lambda>x. set_rgb (data out) ((y * width img + x) * 4) 0 0 0)
                           [0..<width img])
                 [0..<height img] s1, out))"

definition gaussianFilter :: "ImageData \<Rightarrow> int \<Rightarrow> store \<Rightarrow> error + (store \<times> ImageData)" where
  "gaussianFilter img sz =
     (let sigma = fdiv (real_of_int sz) 6;
          half = sz div 2;
          kern = map (\<lambda>y. map (\<lambda>x. Math_exp (fdiv (- real_of_int (x * x + y * y))
                                                 (fmul (fmul 2 sigma) sigma)))
                     [- half..half]) [- half..half]
      in if sz = 0 then convolve_NaN img else convolve img kern True)"

text \<open>The samples \<^verbatim>\<open>medianFilter\<close> pushes on \<^verbatim>\<open>channels[c]\<close> at the pixel
  \<open>(x, y)\<close>, in the order of its two window loops.\<close>

definition median_window :: "store \<Rightarrow> ImageData \<Rightarrow> int \<Rightarrow> nat \<Rightarrow> nat \<Rightarrow> nat \<Rightarrow> nat list" where
  "median_window s img half x y c =
     concat (map (\<lambda>ky. map (\<lambda>kx.
         let px = clampc (width img) (int x + kx);
             py = clampc (height img) (int y + ky);
             idx = (py * width img + px) * 4
         in rd s (data img) (idx + c)) [- half..half]) [- half..half])"

text \<open>The middle of the sorted samples is written; on no sample at all the read is
  \<^verbatim>\<open>undefined\<close>, which the array stores as 0.\<close>

definition median_pixel :: "ImageData \<Rightarrow> nat \<Rightarrow> int \<Rightarrow> nat \<Rightarrow> nat \<Rightarrow> store \<Rightarrow> store" where
  "median_pixel img a half y x s =
     (let idx = (y * width img + x) * 4
      in fold (\<lambda>c. let sorted = sort (median_window s img half x y c)
                    in wr a (idx + c)
                         (if sorted = [] then 0 else real (sorted ! (length sorted div 2))))
           [0..<3] s)"

definition medianFilter :: "ImageData \<Rightarrow> int \<Rightarrow> store \<Rightarrow> error + (store \<times> ImageData)" where
  "medianFilter img sz s =
     (case cloneImageData img s of
        Inl e \<Rightarrow> Inl e
      | Inr (s1, out) \<Rightarrow>
          let half = sz div 2
          in Inr (fold (\<lambda>y. fold (\<lambda>x. median_pixel img (data out) half y x) [0..<width img])
                    [0..<height img] s1, out))"

text \<open>The loop Sobel and Prewitt share: the magnitude of the two responses at the red
  sample of each pixel, capped at 255, into the three colour samples.\<close>

definition magnitude_pixel :: "ImageData \<Rightarrow> ImageData \<Rightarrow> nat \<Rightarrow> nat \<Rightarrow> store \<Rightarrow> store" where
  "magnitude_pixel gx gy a i s =
     (let mag = min 255 (Math_sqrt (fadd (fmul (real (rd s (data gx) i)) (real (rd s (data gx) i)))
                                         (fmul (real (rd s (data gy) i)) (real (rd s (data gy) i)))))
      in set_rgb a i mag mag mag s)"

definition gradientFilter ::
  "real list list \<Rightarrow> real list list \<Rightarrow> ImageData \<Rightarrow> store \<Rightarrow> error + (store \<times> ImageData)" where
  "gradientFilter kx ky img s =
     (case toGrayscale img s of
        Inl e \<Rightarrow> Inl e
      | Inr (s1, gray) \<Rightarrow>
     (case convolve gray kx False s1 of
        Inl e \<Rightarrow> Inl e
      | Inr (s2, gx) \<Rightarrow>
     (case convolve gray ky False s2 of
        Inl e \<Rightarrow> Inl e
      | Inr (s3, gy) \<Rightarrow>
     (case cloneImageData img s3 of
        Inl e \<Rightarrow> Inl e
      | Inr (s4, out) \<Rightarrow>
          Inr (fold (\<lambda>p. magnitude_pixel gx gy (data out) (4 * p))
                 [0..<rounds (length (u8 s4 ! data out)) 0] s4, out)))))"

definition sobel_kx :: "real list list" where
  "sobel_kx = [[-1, 0, 1], [-2, 0, 2], [-1, 0, 1]]"

definition sobel_ky :: "real list list" where
  "sobel_ky = [[-1, -2, -1], [0, 0, 0], [1, 2, 1]]"

definition sobelFilter :: "ImageData \<Rightarrow> store \<Rightarrow> error + (store \<times> ImageData)" where
  "sobelFilter = gradientFilter sobel_kx sobel_ky"

definition prewitt_kx :: "real list list" where
  "prewitt_kx = [[-1, 0, 1], [-1, 0, 1], [-1, 0, 1]]"

definition prewitt_ky :: "real list list" where
  "prewitt_ky = [[-1, -1, -1], [0, 0, 0], [1, 1, 1]]"

definition prewittFilter :: "ImageData \<Rightarrow> store \<Rightarrow> error + (store \<times> ImageData)" where
  "prewittFilter = gradientFilter prewitt_kx prewitt_ky"

definition roberts_pixel :: "ImageData \<Rightarrow> ImageData \<Rightarrow> nat \<Rightarrow> nat \<Rightarrow> nat \<Rightarrow> store \<Rightarrow> store" where
  "roberts_pixel img gray a y x s =
     (let i00 = (y * width img + x) * 4;
          i01 = (y * width img + x + 1) * 4;
          i10 = ((y + 1) * width img + x) * 4;
          i11 = ((y + 1) * width img + x + 1) * 4;
          gx = fsub (real (rd s (data gray) i00)) (real (rd s (data gray) i11));
          gy = fsub (real (rd s (data gray) i01)) (real (rd s (data gray) i10));
          mag = min 255 (Math_sqrt (fadd (fmul gx gx) (fmul gy gy)))
      in set_rgb a i00 mag mag mag s)"

definition robertsFilter :: "ImageData \<Rightarrow> store \<Rightarrow> error + (store \<times> ImageData)" where
  "robertsFilter img s =
     (case toGrayscale img s of
        Inl e \<Rightarrow> Inl e
      | Inr (s1, gray) \<Rightarrow>
     (case cloneImageData img s1 of
        Inl e \<Rightarrow> Inl e
      | Inr (s2, out) \<Rightarrow>
          Inr (fold (\<lambda>y. fold (\<lambda>x. roberts_pixel img gray (data out) y x) [0..<width img - 1])
                 [0..<height img - 1] s2, out)))"

section \<open>Histogram and tone\<close>

text \<open>One round of the search for the least and the greatest sample of a channel.\<close>

definition minmax :: "nat \<Rightarrow> nat \<times> nat \<Rightarrow> nat \<times> nat" where
  "minmax v = (\<lambda>(mn, mx). (if v < mn then v else mn, if v > mx then v else mx))"

definition normalize_channel :: "nat \<Rightarrow> nat \<Rightarrow> store \<Rightarrow> store" where
  "normalize_channel a c s =
     (let n = rounds (length (u8 s ! a)) c;
          (mn, mx) = fold (\<lambda>p. minmax (rd s a (4 * p + c))) [0..<n] (255, 0);
          rng = (if real mx - real mn = 0 then 1 else real mx - real mn)
      in fold (\<lambda>p t. wr a (4 * p + c)
                 (Math_round (fmul (fdiv (real (rd t a (4 * p + c)) - real mn) rng) 255)) t)
           [0..<n] s)"

definition normalizeImage :: "ImageData \<Rightarrow> store \<Rightarrow> error + (store \<times> ImageData)" where
  "normalizeImage img s =
     (case cloneImageData img s of
        Inl e \<Rightarrow> Inl e
      | Inr (s1, out) \<Rightarrow> Inr (fold (\<lambda>c. normalize_channel (data out) c) [0..<3] s1, out))"

text \<open>
  The quotient of \<^verbatim>\<open>equalizeImage\<close> can have a zero divisor, so its numbers carry
  the exceptional values of IEEE arithmetic: a division by zero gives \<^verbatim>\<open>NaN\<close> on a
  zero dividend and an infinity otherwise, and these values go through the product and
  through \<^verbatim>\<open>Math.round\<close>. A \<^verbatim>\<open>Uint8ClampedArray\<close> stores \<^verbatim>\<open>NaN\<close> as 0.
\<close>

definition js_div :: "real \<Rightarrow> real \<Rightarrow> number" where
  "js_div x y =
     (if y \<noteq> 0 then Fin (fdiv x y)
      else if x = 0 then NaN else if 0 < x then PosInf else NegInf)"

definition js_times :: "number \<Rightarrow> real \<Rightarrow> number" where
  "js_times n k =
     (case n of
        Fin x \<Rightarrow> Fin (fmul x k)
      | PosInf \<Rightarrow> (if 0 < k then PosInf else if k < 0 then NegInf else NaN)
      | NegInf \<Rightarrow> (if 0 < k then NegInf else if k < 0 then PosInf else NaN)
      | NaN \<Rightarrow> NaN)"

definition js_round :: "number \<Rightarrow> number" where
  "js_round n = (case n of Fin x \<Rightarrow> Fin (Math_round x) | _ \<Rightarrow> n)"

definition number_clamp :: "number \<Rightarrow> nat" where
  "number_clamp n =
     (case n of Fin x \<Rightarrow> ToUint8Clamp x | PosInf \<Rightarrow> 255 | NegInf \<Rightarrow> 0 | NaN \<Rightarrow> 0)"

definition wr_number :: "nat \<Rightarrow> nat \<Rightarrow> number \<Rightarrow> store \<Rightarrow> store" where
  "wr_number a i n s = s\<lparr>u8 := (u8 s)[a := (u8 s ! a)[i := of_nat (number_clamp n)]]\<rparr>"

definition equalize_channel :: "nat \<Rightarrow> nat \<Rightarrow> nat \<Rightarrow> store \<Rightarrow> store" where
  "equalize_channel a totalPixels c s =
     (let n = rounds (length (u8 s ! a)) c;
          hist = fold (\<lambda>p h. h[rd s a (4 * p + c) := h ! rd s a (4 * p + c) + 1])
                   [0..<n] (replicate 256 (0::nat));
          cdf = fold (\<lambda>i cdf. cdf[i := cdf ! (i - 1) + hist ! i])
                  [1..<256] ((replicate 256 0)[0 := hist ! 0]);
          cdfMin = (case find (\<lambda>v. 0 < v) cdf of Some v \<Rightarrow> v | None \<Rightarrow> 0)
      in fold (\<lambda>p t. wr_number a (4 * p + c)
                 (js_round (js_times
                    (js_div (real (cdf ! rd t a (4 * p + c)) - real cdfMin)
                            (real totalPixels - real cdfMin)) 255)) t)
           [0..<n] s)"

definition equalizeImage :: "ImageData \<Rightarrow> store \<Rightarrow> error + (store \<times> ImageData)" where
  "equalizeImage img s =
     (case cloneImageData img s of
        Inl e \<Rightarrow> Inl e
      | Inr (s1, out) \<Rightarrow>
          let totalPixels = width img * height img
          in Inr (fold (\<lambda>c. equalize_channel (data out) totalPixels c) [0..<3] s1, out))"

section \<open>Frequency domain\<close>

text \<open>Arithmetic on the numbers of a \<^verbatim>\<open>Float64Array\<close>, as IEEE 754 has it. The sign of a
  zero is not kept; nothing here divides by a zero that an operation produced.\<close>

fun jadd :: "number \<Rightarrow> number \<Rightarrow> number" where
  "jadd NaN b = NaN"
| "jadd a NaN = NaN"
| "jadd (Fin x) (Fin y) = jfl (x + y)"
| "jadd (Fin x) b = b"
| "jadd a (Fin y) = a"
| "jadd PosInf PosInf = PosInf"
| "jadd NegInf NegInf = NegInf"
| "jadd PosInf NegInf = NaN"
| "jadd NegInf PosInf = NaN"

fun jneg :: "number \<Rightarrow> number" where
  "jneg (Fin x) = Fin (- x)"
| "jneg PosInf = NegInf"
| "jneg NegInf = PosInf"
| "jneg NaN = NaN"

definition jsub :: "number \<Rightarrow> number \<Rightarrow> number" where
  "jsub a b = jadd a (jneg b)"

text \<open>The sign of a number that is not \<^verbatim>\<open>NaN\<close>: 1, 0 or -1.\<close>

fun jsgn :: "number \<Rightarrow> int" where
  "jsgn (Fin x) = (if 0 < x then 1 else if x < 0 then - 1 else 0)"
| "jsgn PosInf = 1"
| "jsgn NegInf = - 1"
| "jsgn NaN = 0"

fun jmul :: "number \<Rightarrow> number \<Rightarrow> number" where
  "jmul NaN b = NaN"
| "jmul a NaN = NaN"
| "jmul (Fin x) (Fin y) = jfl (x * y)"
| "jmul a b =
     (if jsgn a * jsgn b = 0 then NaN else if 0 < jsgn a * jsgn b then PosInf else NegInf)"

text \<open>The comparisons \<^verbatim>\<open>dist <= radius\<close> and \<^verbatim>\<open>dist >= radius\<close> of a finite distance with a
  radius: both are false when the radius is \<^verbatim>\<open>NaN\<close>.\<close>

fun jle :: "real \<Rightarrow> number \<Rightarrow> bool" where
  "jle d (Fin r) = (d \<le> r)"
| "jle d PosInf = True"
| "jle d NegInf = False"
| "jle d NaN = False"

fun jge :: "real \<Rightarrow> number \<Rightarrow> bool" where
  "jge d (Fin r) = (r \<le> d)"
| "jge d PosInf = False"
| "jge d NegInf = True"
| "jge d NaN = False"

text \<open>
  A spectrum: its padded width and height, the rows of its real and of its imaginary
  part, each a \<^verbatim>\<open>Float64Array\<close> of the store, and the width and height of the image
  it was made of.
\<close>

record FFTResult = dims +
  re :: "nat list"
  im :: "nat list"
  originalWidth :: nat
  originalHeight :: nat

text \<open>Reading an element of a \<^verbatim>\<open>Float64Array\<close> as a number: past the end the read is
  \<^verbatim>\<open>undefined\<close>, which arithmetic takes as \<^verbatim>\<open>NaN\<close>. A write past the end is ignored.\<close>

definition rdf :: "store \<Rightarrow> nat \<Rightarrow> nat \<Rightarrow> number" where
  "rdf s a i = (if i < length (f64 s ! a) then f64 s ! a ! i else NaN)"

definition wrf :: "nat \<Rightarrow> nat \<Rightarrow> number \<Rightarrow> store \<Rightarrow> store" where
  "wrf a i v s = s\<lparr>f64 := (f64 s)[a := (f64 s ! a)[i := v]]\<rparr>"

text \<open>\<^verbatim>\<open>rows.map(r => new Float64Array(r))\<close>: a fresh copy of every row.\<close>

definition copy_rows :: "nat list \<Rightarrow> store \<Rightarrow> store \<times> nat list" where
  "copy_rows rows s =
     fold (\<lambda>a (s, acc). (s\<lparr>f64 := f64 s @ [f64 s ! a]\<rparr>, acc @ [length (f64 s)])) rows (s, [])"

datatype filter_type = Low | High

text \<open>The distance of the coefficient \<open>(x, y)\<close> from the centre \<open>(w / 2, h / 2)\<close>, as
  \<^verbatim>\<open>Math.sqrt((x - cx) ** 2 + (y - cy) ** 2)\<close> computes it. A square \<^verbatim>\<open>d ** 2\<close> is the
  rounded product of \<open>d\<close> with itself; the differences are multiples of a half, so for
  a spectrum of less than \<open>2\<^sup>2\<^sup>5\<close> rows and columns the product is a double and no
  rounding takes place before the sum.\<close>

definition centre_distance :: "nat \<Rightarrow> nat \<Rightarrow> nat \<Rightarrow> nat \<Rightarrow> real" where
  "centre_distance w h x y =
     (let cx = fdiv (real w) 2; cy = fdiv (real h) 2;
          dx = fsub (real x) cx; dy = fsub (real y) cy
      in Math_sqrt (fadd (fmul dx dx) (fmul dy dy)))"

definition pass_mask :: "filter_type \<Rightarrow> real \<Rightarrow> number \<Rightarrow> number" where
  "pass_mask type d radius =
     (case type of
        Low \<Rightarrow> (if jle d radius then Fin 1 else Fin 0)
      | High \<Rightarrow> (if jge d radius then Fin 1 else Fin 0))"

text \<open>One round of the inner loop: \<^verbatim>\<open>re[y][x] *= pass; im[y][x] *= pass\<close>. A row that
  does not exist is \<^verbatim>\<open>undefined\<close>, and indexing it throws.\<close>

definition mask_cell ::
  "nat \<Rightarrow> nat \<Rightarrow> number \<Rightarrow> filter_type \<Rightarrow> nat list \<Rightarrow> nat list \<Rightarrow> nat \<Rightarrow> nat \<Rightarrow>
     error + store \<Rightarrow> error + store" where
  "mask_cell w h radius type re' im' y x st =
     (case st of
        Inl e \<Rightarrow> Inl e
      | Inr s \<Rightarrow>
          let pass = pass_mask type (centre_distance w h x y) radius in
          if length re' \<le> y then Inl TypeError
          else
            let s1 = wrf (re' ! y) x (jmul (rdf s (re' ! y) x) pass) s in
            if length im' \<le> y then Inl TypeError
            else Inr (wrf (im' ! y) x (jmul (rdf s1 (im' ! y) x) pass) s1))"

definition applyFrequencyFilter ::
  "FFTResult \<Rightarrow> number \<Rightarrow> filter_type \<Rightarrow> store \<Rightarrow> error + (store \<times> FFTResult)" where
  "applyFrequencyFilter fft radius type s =
     (let w = width fft; h = height fft;
          (s1, re') = copy_rows (re fft) s;
          (s2, im') = copy_rows (im fft) s1
      in case fold (\<lambda>y. fold (\<lambda>x. mask_cell w h radius type re' im' y x) [0..<w]) [0..<h]
                (Inr s2) of
           Inl e \<Rightarrow> Inl e
         | Inr s3 \<Rightarrow>
             Inr (s3, \<lparr>width = w, height = h, re = re', im = im',
                        originalWidth = originalWidth fft,
                        originalHeight = originalHeight fft\<rparr>))"

section \<open>Notions used to state and prove the properties\<close>

text \<open>The colour triple of pixel \<open>i\<close> of an image.\<close>

definition rgb :: "store \<Rightarrow> ImageData \<Rightarrow> nat \<Rightarrow> nat \<times> nat \<times> nat" where
  "rgb s img i = (rd s (data img) (4 * i), rd s (data img) (4 * i + 1), rd s (data img) (4 * i + 2))"

text \<open>
  What a noise call leaves behind: the returned image's array is one the old store
  did not have, every array of the old store (the input's among them) is as it was,
  and the returned image has the input's alpha at every pixel.
\<close>

definition noise_post :: "store \<Rightarrow> ImageData \<Rightarrow> store \<Rightarrow> ImageData \<Rightarrow> bool" where
  "noise_post s img s' out \<longleftrightarrow>
     length (u8 s) \<le> data out \<and> data out < length (u8 s') \<and>
     take (length (u8 s)) (u8 s') = u8 s \<and> f64 s' = f64 s \<and>
     (\<forall>i < width img * height img. rd s' (data out) (4 * i + 3) = rd s (data img) (4 * i + 3))"

text \<open>What a loop that writes only colour samples of array \<open>a\<close> leaves alone.\<close>

definition frame :: "nat \<Rightarrow> store \<Rightarrow> store \<Rightarrow> bool" where
  "frame a s t \<longleftrightarrow>
     length (u8 t) = length (u8 s) \<and> f64 t = f64 s \<and>
     (\<forall>b. b \<noteq> a \<longrightarrow> u8 t ! b = u8 s ! b) \<and>
     length (u8 t ! a) = length (u8 s ! a) \<and>
     (\<forall>j. j mod 4 = 3 \<longrightarrow> u8 t ! a ! j = u8 s ! a ! j)"

text \<open>The sample salt-and-pepper noise leaves where \<open>v\<close> was, on the draw \<open>r\<close>.\<close>

definition sp_val :: "real \<Rightarrow> real \<Rightarrow> nat \<Rightarrow> nat" where
  "sp_val prob r v = (if r < fdiv prob 2 then 0 else if r < prob then 255 else v)"

text \<open>A stream of draws that is nonzero again and again.\<close>

definition io_nonzero :: "real stream \<Rightarrow> bool" where
  "io_nonzero rs \<longleftrightarrow> (\<forall>n. \<exists>m\<ge>n. rs !! m \<noteq> 0)"

text \<open>The later store \<open>s'\<close> extends \<open>s\<close>: every array of \<open>s\<close> is in \<open>s'\<close>, at its
  address and with its contents.\<close>

definition extends :: "store \<Rightarrow> store \<Rightarrow> bool" where
  "extends s s' \<longleftrightarrow>
     take (length (u8 s)) (u8 s') = u8 s \<and> take (length (f64 s)) (f64 s') = f64 s"

text \<open>The image \<open>out\<close> of \<open>s'\<close> is a buffer the store \<open>s\<close> did not have, of \<open>w \<times> h\<close>
  pixels with four samples each, and \<open>s'\<close> has every array of \<open>s\<close> as it was.\<close>

definition fresh_image :: "store \<Rightarrow> nat \<Rightarrow> nat \<Rightarrow> store \<Rightarrow> ImageData \<Rightarrow> bool" where
  "fresh_image s w h s' out \<longleftrightarrow>
     width out = w \<and> height out = h \<and>
     length (u8 s) \<le> data out \<and> data out < length (u8 s') \<and>
     length (u8 s' ! data out) = w * h * 4 \<and> extends s s'"

text \<open>The luminance \<^verbatim>\<open>toGrayscale\<close> gives pixel \<open>p\<close> of an image.\<close>

definition luma :: "store \<Rightarrow> ImageData \<Rightarrow> nat \<Rightarrow> nat" where
  "luma s img p =
     ToUint8Clamp (Math_round
       (fadd (fadd (fmul (fl 0.299) (real (rd s (data img) (4 * p))))
                   (fmul (fl 0.587) (real (rd s (data img) (4 * p + 1)))))
             (fmul (fl 0.114) (real (rd s (data img) (4 * p + 2))))))"

text \<open>The sample the median filter stores for a gathered window: the element at the
  middle index of the sorted window.\<close>

definition middle :: "nat list \<Rightarrow> nat" where
  "middle win = (if win = [] then 0 else sort win ! (length win div 2))"

text \<open>The sample \<^verbatim>\<open>convolve\<close> stores at the pixel \<open>(x, y)\<close> and channel \<open>c\<close>.\<close>

definition convolve_value ::
  "store \<Rightarrow> ImageData \<Rightarrow> real list list \<Rightarrow> bool \<Rightarrow> nat \<Rightarrow> nat \<Rightarrow> nat \<Rightarrow> nat" where
  "convolve_value s img kern normalise x y c =
     (let ksum0 = (if normalise then fold (\<lambda>row. fold (\<lambda>v acc. fadd acc v) row) kern 0 else 0);
          ksum = (if ksum0 = 0 then 1 else ksum0);
          sm = convolve_sums s img kern x y
      in ToUint8Clamp (max 0 (min 255 (Math_round (if normalise then fdiv (sm ! c) ksum else sm ! c)))))"

text \<open>The magnitude Sobel and Prewitt compute at the pixel \<open>(x, y)\<close> from the two
  convolutions of the grayscale image.\<close>

definition gradient_magnitude ::
  "store \<Rightarrow> ImageData \<Rightarrow> real list list \<Rightarrow> real list list \<Rightarrow> nat \<Rightarrow> nat \<Rightarrow> real" where
  "gradient_magnitude s gray kx ky x y =
     min 255 (Math_sqrt (fadd (fmul (real (convolve_value s gray kx False x y 0))
                                    (real (convolve_value s gray kx False x y 0)))
                              (fmul (real (convolve_value s gray ky False x y 0))
                                    (real (convolve_value s gray ky False x y 0)))))"

text \<open>The magnitude Roberts computes at the pixel \<open>(x, y)\<close> from the two diagonal
  differences of the luminance.\<close>

definition roberts_magnitude :: "store \<Rightarrow> ImageData \<Rightarrow> nat \<Rightarrow> nat \<Rightarrow> real" where
  "roberts_magnitude s img x y =
     (let w = width img;
          gx = fsub (real (luma s img (y * w + x))) (real (luma s img ((y + 1) * w + x + 1)));
          gy = fsub (real (luma s img (y * w + x + 1))) (real (luma s img ((y + 1) * w + x)))
      in min 255 (Math_sqrt (fadd (fmul gx gx) (fmul gy gy))))"

text \<open>The samples of channel \<open>c\<close> of an image, pixel by pixel.\<close>

definition channel :: "store \<Rightarrow> ImageData \<Rightarrow> nat \<Rightarrow> nat list" where
  "channel s img c = map (\<lambda>p. rd s (data img) (4 * p + c)) [0..<width img * height img]"

text \<open>How many samples of a channel are at most \<open>v\<close>: the cumulative histogram.\<close>

definition count_le :: "nat list \<Rightarrow> nat \<Rightarrow> nat" where
  "count_le xs v = length (filter (\<lambda>x. x \<le> v) xs)"

text \<open>The least nonzero value of the cumulative histogram: the count of the least
  sample.\<close>

definition cdf_min :: "nat list \<Rightarrow> nat" where
  "cdf_min xs = (if xs = [] then 0 else count_le xs (Min (set xs)))"

text \<open>The sample equalization stores for the level \<open>v\<close> of a channel \<open>xs\<close>.\<close>

definition eq_level :: "nat list \<Rightarrow> nat \<Rightarrow> nat" where
  "eq_level xs v =
     number_clamp (js_round (js_times
       (js_div (real (count_le xs v) - real (cdf_min xs))
               (real (length xs) - real (cdf_min xs))) 255))"

text \<open>The sample normalization stores for the level \<open>v\<close> of a channel \<open>xs\<close>.\<close>

definition norm_level :: "nat list \<Rightarrow> nat \<Rightarrow> nat" where
  "norm_level xs v =
     (let (mn, mx) = fold minmax xs (255, 0);
          rng = (if real mx - real mn = 0 then 1 else real mx - real mn)
      in ToUint8Clamp (Math_round (fmul (fdiv (real v - real mn) rng) 255)))"

text \<open>A number that a \<^verbatim>\<open>Float64Array\<close> can hold: an infinity, \<^verbatim>\<open>NaN\<close>, or a real that is
  a double.\<close>

fun double :: "number \<Rightarrow> bool" where
  "double (Fin x) \<longleftrightarrow> fl x = x \<and> \<bar>x\<bar> < 2 ^ 1024"
| "double v \<longleftrightarrow> True"

text \<open>A spectrum of the store: it has a row of each part for each of its \<open>height\<close>
  lines, every row is an array of the store with \<open>width\<close> numbers.\<close>

definition spec_ok :: "store \<Rightarrow> FFTResult \<Rightarrow> bool" where
  "spec_ok s fft \<longleftrightarrow>
     length (re fft) = height fft \<and> length (im fft) = height fft \<and>
     (\<forall>a \<in> set (re fft) \<union> set (im fft).
        a < length (f64 s) \<and> length (f64 s ! a) = width fft \<and> (\<forall>v \<in> set (f64 s ! a). double v))"

text \<open>A row whose first \<open>k\<close> numbers have been multiplied by their masks.\<close>

definition masked_row :: "(nat \<Rightarrow> number) \<Rightarrow> nat \<Rightarrow> number list \<Rightarrow> number list" where
  "masked_row P k row = map (\<lambda>x. if x < k then jmul (row ! x) (P x) else row ! x) [0..<length row]"

text \<open>What a mask owes its caller: the result \<open>out\<close> in the store \<open>t\<close> has the shape of the
  spectrum \<open>fft\<close>, its rows are arrays that the store \<open>s\<close> of the call did not have, one
  for each row, and every array of \<open>s\<close> is in \<open>t\<close> as it was.\<close>

definition mask_post :: "store \<Rightarrow> FFTResult \<Rightarrow> store \<Rightarrow> FFTResult \<Rightarrow> bool" where
  "mask_post s fft t out \<longleftrightarrow>
     width out = width fft \<and> height out = height fft \<and>
     originalWidth out = originalWidth fft \<and> originalHeight out = originalHeight fft \<and>
     length (re out) = length (re fft) \<and> length (im out) = length (im fft) \<and>
     distinct (re out @ im out) \<and>
     (\<forall>a \<in> set (re out @ im out).
        length (f64 s) \<le> a \<and> a < length (f64 t) \<and> length (f64 t ! a) = width fft) \<and>
     u8 t = u8 s \<and> take (length (f64 s)) (f64 t) = f64 s"

section \<open>Stores, writes and loops\<close>

lemma fold_inv:
  "(\<And>x t. x \<in> set xs \<Longrightarrow> I t \<Longrightarrow> I (f x t)) \<Longrightarrow> I t \<Longrightarrow> I (fold f xs t)"
  by (induction xs arbitrary: t) simp_all

lemma fold_opt_inv:
  "(\<And>x t. x \<in> set xs \<Longrightarrow> I t \<Longrightarrow> \<exists>u. f x t = Some u \<and> I u) \<Longrightarrow> I t \<Longrightarrow>
   \<exists>u. fold_opt f xs t = Some u \<and> I u"
proof (induction xs arbitrary: t)
  case Nil
  then show ?case by simp
next
  case (Cons x xs)
  have "\<exists>u. f x t = Some u \<and> I u" by (rule Cons.prems(1)) (simp_all add: Cons.prems(2))
  then obtain u where u: "f x t = Some u" "I u" by blast
  have "\<exists>v. fold_opt f xs u = Some v \<and> I v"
    by (rule Cons.IH) (simp_all add: Cons.prems(1) u)
  then show ?case by (simp add: u)
qed

lemma fold_product:
  "fold (\<lambda>y. fold (\<lambda>x. f y x) xs) ys s = fold (\<lambda>(y, x). f y x) (List.product ys xs) s"
proof (induction ys arbitrary: s)
  case Nil
  then show ?case by simp
next
  case (Cons y ys)
  have "fold (\<lambda>(y, x). f y x) (map (Pair y) xs) s = fold (\<lambda>x. f y x) xs s" for s
    by (simp add: fold_map comp_def)
  then show ?case using Cons.IH by simp
qed

lemma ToUint8Clamp_0 [simp]: "ToUint8Clamp 0 = 0"
  by (simp add: ToUint8Clamp_def)

lemma ToUint8Clamp_255 [simp]: "ToUint8Clamp 255 = 255"
  by (simp add: ToUint8Clamp_def)

lemma ToUint8Clamp_le: "ToUint8Clamp v \<le> 255"
  unfolding ToUint8Clamp_def Let_def
  by (auto simp: nat_le_iff)

lemma ToUint8Clamp_of_nat: "n \<le> 255 \<Longrightarrow> ToUint8Clamp (real n) = n"
  unfolding ToUint8Clamp_def Let_def by auto

lemma unat_byte: "n \<le> 255 \<Longrightarrow> unat (of_nat n :: byte) = n"
  by (simp add: unat_of_nat)

lemma unat_ToUint8Clamp [simp]: "unat (of_nat (ToUint8Clamp v) :: byte) = ToUint8Clamp v"
  by (rule unat_byte) (rule ToUint8Clamp_le)

lemma rd_le: "rd s a i \<le> 255"
proof -
  have "(unsigned (u8 s ! a ! i) :: nat) < 2 ^ LENGTH(8)" by (rule unsigned_less)
  then show ?thesis by (simp add: rd_def)
qed

lemma ToUint8Clamp_rd [simp]: "ToUint8Clamp (real (rd s a i)) = rd s a i"
  by (rule ToUint8Clamp_of_nat) (rule rd_le)

lemma u8_wr: "a < length (u8 s) \<Longrightarrow>
  u8 (wr a i v s) ! b = (if b = a then (u8 s ! a)[i := of_nat (ToUint8Clamp v)] else u8 s ! b)"
  by (simp add: wr_def)

lemma length_u8_wr [simp]: "length (u8 (wr a i v s)) = length (u8 s)"
  by (simp add: wr_def)

lemma f64_wr [simp]: "f64 (wr a i v s) = f64 s"
  by (simp add: wr_def)

lemma rd_wr:
  "a < length (u8 s) \<Longrightarrow>
   rd (wr a i v s) b j =
     (if b = a \<and> j = i \<and> i < length (u8 s ! a) then ToUint8Clamp v else rd s b j)"
  by (auto simp: rd_def u8_wr nth_list_update list_update_beyond)

lemma cloneImageData_ok:
  assumes "img_ok s img"
  shows "cloneImageData img s =
    Inr (s\<lparr>u8 := u8 s @ [u8 s ! data img]\<rparr>,
         \<lparr>width = width img, height = height img, data = length (u8 s)\<rparr>)"
  using assms
  by (auto simp: cloneImageData_def new_Uint8ClampedArray_def new_ImageData_def img_ok_def Let_def)

lemma rounds_ok [simp]: "rounds (w * h * 4) 0 = w * h"
  by (simp add: rounds_def)

lemma frame_refl [simp]: "frame a s s"
  by (simp add: frame_def)

lemma frame_trans: "frame a s t \<Longrightarrow> frame a t u \<Longrightarrow> frame a s u"
  by (simp add: frame_def)

lemma frame_wr: "a < length (u8 s) \<Longrightarrow> i mod 4 \<noteq> 3 \<Longrightarrow> frame a s (wr a i v s)"
  by (auto simp: frame_def u8_wr intro!: nth_list_update_neq)

lemma frame_wr':
  assumes "frame a s t" "a < length (u8 s)" "i mod 4 \<noteq> 3"
  shows "frame a s (wr a i v t)"
proof -
  have "a < length (u8 t)" using assms by (simp add: frame_def)
  then have "frame a t (wr a i v t)" using assms(3) by (rule frame_wr)
  with assms(1) show ?thesis by (rule frame_trans)
qed

lemma frame_rd: "frame a s t \<Longrightarrow> b \<noteq> a \<Longrightarrow> rd t b j = rd s b j"
  by (simp add: frame_def rd_def)

lemma frame_rd_alpha: "frame a s t \<Longrightarrow> rd t b (4 * i + 3) = rd s b (4 * i + 3)"
proof -
  have "(4 * i + 3) mod 4 = 3" by presburger
  then show "frame a s t \<Longrightarrow> rd t b (4 * i + 3) = rd s b (4 * i + 3)"
    by (cases "b = a") (simp_all add: frame_def rd_def)
qed

lemma mod4_facts: "(4 * p) mod 4 \<noteq> (3::nat)" "Suc (4 * p) mod 4 \<noteq> (3::nat)"
  "Suc (Suc (4 * p)) mod 4 \<noteq> (3::nat)" "c < 3 \<Longrightarrow> (4 * p + c) mod 4 \<noteq> (3::nat)"
  by presburger+

lemma frame_set_rgb:
  assumes "frame a s t" "a < length (u8 s)" "i mod 4 = 0"
  shows "frame a s (set_rgb a i r g b t)"
proof -
  have "(i + 1) mod 4 \<noteq> 3" "(i + 2) mod 4 \<noteq> 3" "i mod 4 \<noteq> 3"
    using assms(3) by presburger+
  then show ?thesis
    unfolding set_rgb_def using assms(1,2) by (intro frame_wr')
qed

lemma rd_set_rgb:
  assumes "a < length (u8 t)"
  shows "rd (set_rgb a (4 * p) r g b t) a j =
    (if j < length (u8 t ! a) \<and> j div 4 = p \<and> j mod 4 \<noteq> 3
     then ToUint8Clamp (if j mod 4 = 0 then r else if j mod 4 = 1 then g else b)
     else rd t a j)"
proof -
  let ?i = "4 * p"
  have len: "length (u8 (wr a k v t) ! a) = length (u8 t ! a)" for k v
    using assms by (simp add: u8_wr)
  have raw: "rd (set_rgb a ?i r g b t) a j =
     (if j = ?i + 2 \<and> j < length (u8 t ! a) then ToUint8Clamp b
      else if j = ?i + 1 \<and> j < length (u8 t ! a) then ToUint8Clamp g
      else if j = ?i \<and> j < length (u8 t ! a) then ToUint8Clamp r
      else rd t a j)"
    unfolding set_rgb_def using assms
    by (simp add: rd_wr u8_wr)
  consider "j = ?i" | "j = ?i + 1" | "j = ?i + 2" | "j \<noteq> ?i" "j \<noteq> ?i + 1" "j \<noteq> ?i + 2"
    by blast
  then show ?thesis
  proof cases
    case 1
    then have "j div 4 = p" "j mod 4 = 0" by simp_all
    then show ?thesis unfolding raw using 1 by simp
  next
    case 2
    then have "j div 4 = p" "j mod 4 = 1" by presburger+
    then show ?thesis unfolding raw using 2 by simp
  next
    case 3
    then have "j div 4 = p" "j mod 4 = 2" by presburger+
    then show ?thesis unfolding raw using 3 by simp
  next
    case 4
    have n: "\<not> (j div 4 = p \<and> j mod 4 \<noteq> 3)"
    proof
      assume h: "j div 4 = p \<and> j mod 4 \<noteq> 3"
      have a: "j = 4 * (j div 4) + j mod 4" by simp
      have c: "j mod 4 < 4" by simp
      from a c h 4 show False by linarith
    qed
    show ?thesis unfolding raw using n 4 by auto
  qed
qed

lemma fold_wr3:
  "fold (\<lambda>c. wr a (i + c) (f c)) [0..<3] s = set_rgb a i (f 0) (f 1) (f 2) s"
proof -
  have "[0..<3] = [0, 1, 2]" by (simp add: upt_rec)
  then show ?thesis by (simp add: set_rgb_def)
qed

lemma paint_fold:
  fixes body :: "'i \<Rightarrow> store \<Rightarrow> store"
  assumes a: "a < length (u8 s)"
    and body: "\<And>i t. i \<in> set items \<Longrightarrow> frame a s t \<Longrightarrow>
        (\<forall>j. j div 4 = pix i \<longrightarrow> rd t a j = rd s a j) \<Longrightarrow>
        frame a t (body i t) \<and>
        (\<forall>j. rd (body i t) a j =
           (if j < length (u8 s ! a) \<and> j div 4 = pix i \<and> j mod 4 \<noteq> 3 then V j else rd t a j))"
  shows "distinct (map pix items) \<Longrightarrow>
    frame a s (fold body items s) \<and>
    (\<forall>j. rd (fold body items s) a j =
       (if j < length (u8 s ! a) \<and> j div 4 \<in> pix ` set items \<and> j mod 4 \<noteq> 3
        then V j else rd s a j))"
  using body
proof (induction items rule: rev_induct)
  case Nil
  then show ?case by simp
next
  case (snoc x xs)
  let ?t = "fold body xs s"
  have d: "distinct (map pix xs)" and nx: "pix x \<notin> pix ` set xs"
    using snoc.prems(1) by simp_all
  have ih: "frame a s ?t \<and>
    (\<forall>j. rd ?t a j =
       (if j < length (u8 s ! a) \<and> j div 4 \<in> pix ` set xs \<and> j mod 4 \<noteq> 3
        then V j else rd s a j))"
    by (rule snoc.IH[OF d]) (rule snoc.prems(2), simp_all)
  then have fr: "frame a s ?t" and
    rds: "\<And>j. rd ?t a j =
       (if j < length (u8 s ! a) \<and> j div 4 \<in> pix ` set xs \<and> j mod 4 \<noteq> 3
        then V j else rd s a j)" by blast+
  have un: "\<forall>j. j div 4 = pix x \<longrightarrow> rd ?t a j = rd s a j"
    using nx by (simp add: rds)
  have st: "frame a ?t (body x ?t) \<and>
        (\<forall>j. rd (body x ?t) a j =
           (if j < length (u8 s ! a) \<and> j div 4 = pix x \<and> j mod 4 \<noteq> 3 then V j else rd ?t a j))"
    by (rule snoc.prems(2)[OF _ fr un]) simp
  have fr': "frame a s (body x ?t)" using fr st by (blast intro: frame_trans)
  have "rd (body x ?t) a j =
       (if j < length (u8 s ! a) \<and> j div 4 \<in> pix ` set (xs @ [x]) \<and> j mod 4 \<noteq> 3
        then V j else rd s a j)" for j
  proof (cases "j div 4 = pix x")
    case True
    then show ?thesis using st un by simp
  next
    case False
    then have "rd (body x ?t) a j = rd ?t a j" using st by simp
    then show ?thesis using False by (simp add: rds)
  qed
  then show ?case using fr' by simp
qed

lemma set_rgb_effect:
  assumes "frame a s t" "a < length (u8 s)"
  shows "frame a t (set_rgb a (4 * p) r g b t) \<and>
        (\<forall>j. rd (set_rgb a (4 * p) r g b t) a j =
           (if j < length (u8 s ! a) \<and> j div 4 = p \<and> j mod 4 \<noteq> 3
            then ToUint8Clamp (if j mod 4 = 0 then r else if j mod 4 = 1 then g else b)
            else rd t a j))"
proof -
  have at: "a < length (u8 t)" and len: "length (u8 t ! a) = length (u8 s ! a)"
    using assms by (simp_all add: frame_def)
  have "frame a t (set_rgb a (4 * p) r g b t)"
    by (rule frame_set_rgb) (simp_all add: at)
  then show ?thesis by (simp add: rd_set_rgb[OF at] len)
qed

section \<open>Rounding to the nearest double\<close>

lemma binexp_bounds:
  assumes "x \<noteq> 0"
  shows "2 powi binexp x \<le> \<bar>x\<bar>" and "\<bar>x\<bar> < 2 powi (binexp x + 1)"
proof -
  let ?a = "\<bar>x\<bar>"
  have a: "0 < ?a" using assms by simp
  have "2 powi binexp x \<le> ?a \<and> ?a < 2 powi (binexp x + 1)"
  proof (cases "1 \<le> ?a")
    case True
    let ?n = "\<lfloor>?a\<rfloor>"
    have n: "0 < ?n" using True by linarith
    have k: "1 \<le> bitlen ?n" using n by (simp add: bitlen_alt_def)
    from bitlen_bounds[OF n] have lo: "2 ^ nat (bitlen ?n - 1) \<le> ?n" and hi: "?n < 2 ^ nat (bitlen ?n)"
      by blast+
    have e: "binexp x = bitlen ?n - 1" using True by (simp add: binexp_def)
    have "(2::real) powi (bitlen ?n - 1) = 2 ^ nat (bitlen ?n - 1)"
      using k by (simp add: power_int_nonneg_exp)
    also have "\<dots> = of_int (2 ^ nat (bitlen ?n - 1))" by simp
    also have "\<dots> \<le> of_int ?n" using lo by (simp only: of_int_le_iff)
    also have "\<dots> \<le> ?a" by linarith
    finally have 1: "2 powi binexp x \<le> ?a" by (simp only: e)
    have "?n + 1 \<le> 2 ^ nat (bitlen ?n)" using hi by linarith
    then have "real_of_int (?n + 1) \<le> of_int (2 ^ nat (bitlen ?n))" by (simp only: of_int_le_iff)
    moreover have "?a < real_of_int (?n + 1)" by linarith
    ultimately have "?a < of_int (2 ^ nat (bitlen ?n))" by linarith
    also have "\<dots> = (2::real) powi (bitlen ?n)"
      using k by (simp add: power_int_nonneg_exp)
    finally have 2: "?a < 2 powi (binexp x + 1)" by (simp add: e)
    from 1 2 show ?thesis ..
  next
    case False
    let ?y = "1 / ?a"
    let ?m = "\<lceil>?y\<rceil> - 1"
    have y: "1 < ?y" using False a by simp
    have m: "0 < ?m" using y by linarith
    have k: "1 \<le> bitlen ?m" using m by (simp add: bitlen_alt_def)
    from bitlen_bounds[OF m] have lo: "2 ^ nat (bitlen ?m - 1) \<le> ?m" and hi: "?m < 2 ^ nat (bitlen ?m)"
      by blast+
    have e: "binexp x = - bitlen ?m" using False by (simp add: binexp_def)
    have "?m + 1 \<le> 2 ^ nat (bitlen ?m)" using hi by linarith
    then have "real_of_int (?m + 1) \<le> of_int (2 ^ nat (bitlen ?m))" by (simp only: of_int_le_iff)
    moreover have "?y \<le> real_of_int (?m + 1)" by linarith
    ultimately have "?y \<le> of_int (2 ^ nat (bitlen ?m))" by linarith
    also have "\<dots> = (2::real) powi (bitlen ?m)"
      using k by (simp add: power_int_nonneg_exp)
    finally have "?y \<le> 2 powi (bitlen ?m)" .
    moreover have p: "0 < (2::real) powi (bitlen ?m)" by simp
    ultimately have "1 / 2 powi (bitlen ?m) \<le> ?a" using a
      by (simp add: field_simps)
    then have 1: "2 powi binexp x \<le> ?a" by (simp add: e power_int_minus_divide)
    have "real_of_int (2 ^ nat (bitlen ?m - 1)) \<le> of_int ?m" using lo by (simp only: of_int_le_iff)
    moreover have "real_of_int ?m < ?y" by linarith
    ultimately have "real_of_int (2 ^ nat (bitlen ?m - 1)) < ?y" by linarith
    moreover have "real_of_int (2 ^ nat (bitlen ?m - 1)) = 2 powi (bitlen ?m - 1)"
      using k by (simp add: power_int_nonneg_exp)
    ultimately have "2 powi (bitlen ?m - 1) < ?y" by simp
    moreover have "0 < (2::real) powi (bitlen ?m - 1)" by simp
    ultimately have "?a < 1 / 2 powi (bitlen ?m - 1)" using a by (simp add: field_simps)
    also have "\<dots> = 2 powi (- (bitlen ?m - 1))" by (simp only: power_int_minus_divide)
    finally have 2: "?a < 2 powi (binexp x + 1)" by (simp add: e)
    from 1 2 show ?thesis ..
  qed
  then show "2 powi binexp x \<le> \<bar>x\<bar>" and "\<bar>x\<bar> < 2 powi (binexp x + 1)" by blast+
qed

lemma two_powi_less_imp: "(2::real) powi m < 2 powi n \<Longrightarrow> m < n"
proof (rule ccontr)
  assume a: "(2::real) powi m < 2 powi n" and "\<not> m < n"
  then have "n \<le> m" by simp
  then have "(2::real) powi n \<le> 2 powi m" by (rule power_int_increasing) simp
  with a show False by linarith
qed

lemma binexp_unique:
  assumes "2 powi e \<le> \<bar>x\<bar>" "\<bar>x\<bar> < 2 powi (e + 1)"
  shows "binexp x = e"
proof -
  have x: "x \<noteq> 0"
  proof
    assume "x = 0"
    with assms(1) have "(2::real) powi e \<le> 0" by simp
    moreover have "0 < (2::real) powi e" by (rule zero_less_power_int) simp
    ultimately show False by linarith
  qed
  note b = binexp_bounds[OF x]
  have "(2::real) powi e < 2 powi (binexp x + 1)" using assms(1) b(2) by linarith
  then have 1: "e < binexp x + 1" by (rule two_powi_less_imp)
  have "(2::real) powi binexp x < 2 powi (e + 1)" using assms(2) b(1) by linarith
  then have 2: "binexp x < e + 1" by (rule two_powi_less_imp)
  from 1 2 show ?thesis by linarith
qed

lemma rne_range: "\<lfloor>x\<rfloor> \<le> rne x" "rne x \<le> \<lfloor>x\<rfloor> + 1"
  by (simp_all add: rne_def Let_def)

lemma rne_of_int [simp]: "rne (of_int n) = n"
  by (simp add: rne_def)

lemma rne_error: "\<bar>of_int (rne x) - x\<bar> \<le> 1 / 2"
proof -
  define f where "f = \<lfloor>x\<rfloor>"
  have b: "of_int f \<le> x" "x < of_int f + 1" unfolding f_def by linarith+
  have "rne x = (if x - of_int f < 1 / 2 then f
      else if 1 / 2 < x - of_int f then f + 1
      else if even f then f else f + 1)" by (simp add: rne_def Let_def f_def)
  then show ?thesis using b by (simp add: abs_if split: if_splits)
qed

lemma rne_mono: assumes "x \<le> y" shows "rne x \<le> rne y"
proof (cases "\<lfloor>x\<rfloor> = \<lfloor>y\<rfloor>")
  case True
  have "x - of_int \<lfloor>y\<rfloor> \<le> y - of_int \<lfloor>y\<rfloor>" using assms by simp
  then show ?thesis unfolding rne_def Let_def True by auto
next
  case False
  have "\<lfloor>x\<rfloor> \<le> \<lfloor>y\<rfloor>" using assms by (rule floor_mono)
  with False have "\<lfloor>x\<rfloor> + 1 \<le> \<lfloor>y\<rfloor>" by simp
  with rne_range(2)[of x] rne_range(1)[of y] show ?thesis by linarith
qed

lemma rne_minus: "rne (- x) = - rne x"
proof (cases "x = of_int \<lfloor>x\<rfloor>")
  case True
  then obtain n where "x = of_int n" ..
  then show ?thesis by (simp flip: of_int_minus)
next
  case False
  define f where "f = \<lfloor>x\<rfloor>"
  have lt: "of_int f < x" "x < of_int f + 1" using False unfolding f_def by linarith+
  have g: "\<lfloor>- x\<rfloor> = - f - 1" using lt by (intro floor_unique) simp_all
  have 1: "rne x = (if x - of_int f < 1 / 2 then f
      else if 1 / 2 < x - of_int f then f + 1
      else if even f then f else f + 1)" by (simp add: rne_def Let_def f_def)
  have 2: "rne (- x) = (if - x - of_int (- f - 1) < 1 / 2 then - f - 1
      else if 1 / 2 < - x - of_int (- f - 1) then - f - 1 + 1
      else if even (- f - 1) then - f - 1 else - f - 1 + 1)"
    unfolding rne_def Let_def g ..
  show ?thesis unfolding 1 2 by (simp split: if_splits)
qed

lemma fl_0 [simp]: "fl 0 = 0"
  by (simp add: fl_def)

lemma binexp_minus [simp]: "binexp (- x) = binexp x"
  by (simp add: binexp_def)

lemma fl_minus: "fl (- x) = - fl x"
  by (simp add: fl_def Let_def rne_minus)

text \<open>The scale of a nonzero number: the exponent, at least that of the subnormals.\<close>

lemma fl_eval:
  assumes "2 powi e \<le> \<bar>x\<bar>" "\<bar>x\<bar> < 2 powi (e + 1)" "- 1022 \<le> e"
  shows "fl x = of_int (rne (x / 2 powi (e - 52))) * 2 powi (e - 52)"
proof -
  have x: "x \<noteq> 0"
  proof
    assume "x = 0"
    with assms(1) have "(2::real) powi e \<le> 0" by simp
    moreover have "0 < (2::real) powi e" by (rule zero_less_power_int) simp
    ultimately show False by linarith
  qed
  have "binexp x = e" using assms(1,2) by (rule binexp_unique)
  then show ?thesis using x assms(3) by (simp add: fl_def Let_def max_def)
qed

lemma two_powi_pos [simp]: "0 < (2::real) powi e"
  by (rule zero_less_power_int) simp

lemma fl_nonzero:
  "x \<noteq> 0 \<Longrightarrow> fl x = of_int (rne (x / 2 powi (max (binexp x) (- 1022) - 52)))
                        * 2 powi (max (binexp x) (- 1022) - 52)"
  by (simp add: fl_def Let_def)

lemma two_powi_split: "(2::real) powi (e + 1) / 2 powi (e - 52) = 2 ^ 53"
proof -
  have "(2::real) powi (e - 52 + 53) = 2 powi (e - 52) * 2 powi 53"
    by (rule power_int_add) simp
  moreover have "e - 52 + 53 = e + 1" by simp
  ultimately have "(2::real) powi (e + 1) = 2 powi (e - 52) * 2 ^ 53" by simp
  then show ?thesis by simp
qed

lemma two_powi_split': "(2::real) powi e / 2 powi (e - 52) = 2 ^ 52"
proof -
  have "(2::real) powi (e - 52 + 52) = 2 powi (e - 52) * 2 powi 52"
    by (rule power_int_add) simp
  then have "(2::real) powi e = 2 powi (e - 52) * 2 ^ 52" by simp
  then show ?thesis by simp
qed

lemma fl_pos_bounds:
  assumes x: "0 < x"
  defines "e \<equiv> max (binexp x) (- 1022)"
  shows "0 \<le> fl x" and "fl x \<le> 2 powi (e + 1)" and "- 1022 \<le> binexp x \<Longrightarrow> 2 powi e \<le> fl x"
proof -
  let ?q = "(2::real) powi (e - 52)"
  have x0: "x \<noteq> 0" using x by simp
  have f: "fl x = of_int (rne (x / ?q)) * ?q" unfolding e_def using x0 by (rule fl_nonzero)
  have q: "0 < ?q" by simp
  have "rne 0 \<le> rne (x / ?q)" using x q by (intro rne_mono) simp
  then have "0 \<le> rne (x / ?q)" using rne_of_int[of 0] by simp
  then show "0 \<le> fl x" unfolding f using q by simp
  have "x < 2 powi (binexp x + 1)" using binexp_bounds(2)[OF x0] x by simp
  also have "\<dots> \<le> 2 powi (e + 1)" unfolding e_def by (intro power_int_increasing) simp_all
  finally have "x / ?q \<le> 2 powi (e + 1) / ?q" using q by (simp add: divide_right_mono)
  then have "x / ?q \<le> of_int (2 ^ 53)" by (simp add: two_powi_split)
  then have "rne (x / ?q) \<le> rne (of_int (2 ^ 53))" by (rule rne_mono)
  then have "rne (x / ?q) \<le> 2 ^ 53" by (simp only: rne_of_int)
  then have "real_of_int (rne (x / ?q)) \<le> 2 ^ 53" by (metis of_int_le_iff of_int_numeral of_int_power)
  then have "fl x \<le> 2 ^ 53 * ?q" unfolding f using q by (simp add: mult_right_mono)
  also have "\<dots> = 2 powi (e + 1)" using two_powi_split[of e] by (simp add: field_simps)
  finally show "fl x \<le> 2 powi (e + 1)" .
  show "2 powi e \<le> fl x" if "- 1022 \<le> binexp x"
  proof -
    have e: "e = binexp x" unfolding e_def using that by simp
    have "2 powi e \<le> x" using binexp_bounds(1)[OF x0] x by (simp add: e)
    then have "2 powi e / ?q \<le> x / ?q" using q by (simp add: divide_right_mono)
    then have "of_int (2 ^ 52) \<le> x / ?q" by (simp add: two_powi_split')
    then have "rne (of_int (2 ^ 52)) \<le> rne (x / ?q)" by (rule rne_mono)
    then have "2 ^ 52 \<le> rne (x / ?q)" by (simp only: rne_of_int)
    then have "2 ^ 52 \<le> real_of_int (rne (x / ?q))" by (metis of_int_le_iff of_int_numeral of_int_power)
    then have "2 ^ 52 * ?q \<le> fl x" unfolding f using q by (simp add: mult_right_mono)
    moreover have "2 ^ 52 * ?q = 2 powi e" using two_powi_split'[of e] by (simp add: field_simps)
    ultimately show ?thesis by simp
  qed
qed

lemma binexp_mono_pos:
  assumes "0 < x" "x \<le> y"
  shows "binexp x \<le> binexp y"
proof -
  have x0: "x \<noteq> 0" and y0: "y \<noteq> 0" using assms by simp_all
  have "2 powi binexp x \<le> x" using binexp_bounds(1)[OF x0] assms by simp
  also have "x \<le> y" by fact
  also have "y < 2 powi (binexp y + 1)" using binexp_bounds(2)[OF y0] assms by simp
  finally have "binexp x < binexp y + 1" by (rule two_powi_less_imp)
  then show ?thesis by simp
qed

lemma fl_mono_pos:
  assumes x: "0 < x" and xy: "x \<le> y"
  shows "fl x \<le> fl y"
proof -
  let ?ex = "max (binexp x) (- 1022)" and ?ey = "max (binexp y) (- 1022)"
  have y: "0 < y" using x xy by simp
  have le: "?ex \<le> ?ey" using binexp_mono_pos[OF x xy] by simp
  show ?thesis
  proof (cases "?ex = ?ey")
    case True
    let ?q = "(2::real) powi (?ey - 52)"
    have "x / ?q \<le> y / ?q" using xy by (simp add: divide_right_mono)
    then have "rne (x / ?q) \<le> rne (y / ?q)" by (rule rne_mono)
    then have "real_of_int (rne (x / ?q)) * ?q \<le> real_of_int (rne (y / ?q)) * ?q"
      by (simp add: mult_right_mono)
    moreover have "fl x = real_of_int (rne (x / ?q)) * ?q"
      using fl_nonzero[of x] x by (simp only: True)
    moreover have "fl y = real_of_int (rne (y / ?q)) * ?q"
      using fl_nonzero[of y] y by simp
    ultimately show ?thesis by simp
  next
    case False
    with le have lt: "?ex + 1 \<le> ?ey" by simp
    then have n: "- 1022 \<le> binexp y" by (simp add: max_def split: if_splits)
    have "fl x \<le> 2 powi (?ex + 1)" using fl_pos_bounds(2)[OF x] .
    also have "\<dots> \<le> 2 powi ?ey" using lt by (intro power_int_increasing) simp_all
    also have "\<dots> \<le> fl y" using fl_pos_bounds(3)[OF y n] .
    finally show ?thesis .
  qed
qed

lemma fl_mono: assumes "x \<le> y" shows "fl x \<le> fl y"
proof -
  consider "0 < x" | "x \<le> 0" "0 \<le> y" | "y < 0" by linarith
  then show ?thesis
  proof cases
    case 1
    then show ?thesis using assms by (rule fl_mono_pos)
  next
    case 2
    have "fl x \<le> 0"
    proof (cases "x = 0")
      case False
      with 2 have "0 < - x" by simp
      from fl_pos_bounds(1)[OF this] show ?thesis by (simp add: fl_minus)
    qed simp
    moreover have "0 \<le> fl y"
    proof (cases "y = 0")
      case False
      with 2 have "0 < y" by simp
      from fl_pos_bounds(1)[OF this] show ?thesis .
    qed simp
    ultimately show ?thesis by simp
  next
    case 3
    then have "0 < - y" "- y \<le> - x" using assms by simp_all
    then have "fl (- y) \<le> fl (- x)" by (rule fl_mono_pos)
    then show ?thesis by (simp add: fl_minus)
  qed
qed

lemma fl_nonneg: "0 \<le> x \<Longrightarrow> 0 \<le> fl x"
  using fl_mono[of 0 x] by simp

text \<open>The error of one rounding, relative for a normal number.\<close>

lemma fl_error:
  assumes n: "2 powi (- 1022) \<le> \<bar>x\<bar>"
  shows "\<bar>fl x - x\<bar> \<le> \<bar>x\<bar> / 2 ^ 53"
proof -
  have "0 < (2::real) powi (- 1022)" by simp
  with n have x0: "x \<noteq> 0" by auto
  have "2 powi (- 1022) < (2::real) powi (binexp x + 1)"
    using n binexp_bounds(2)[OF x0] by linarith
  then have "- 1022 < binexp x + 1" by (rule two_powi_less_imp)
  then have e: "max (binexp x) (- 1022) = binexp x" by simp
  let ?q = "(2::real) powi (binexp x - 52)"
  have q: "0 < ?q" by simp
  have f: "fl x = of_int (rne (x / ?q)) * ?q" using fl_nonzero[OF x0] by (simp only: e)
  have "fl x - x = (of_int (rne (x / ?q)) - x / ?q) * ?q" unfolding f using q
    by (simp add: field_simps)
  then have "\<bar>fl x - x\<bar> = \<bar>of_int (rne (x / ?q)) - x / ?q\<bar> * ?q"
    using q by (simp add: abs_mult)
  also have "\<dots> \<le> 1 / 2 * ?q" using rne_error[of "x / ?q"] q by (intro mult_right_mono) simp_all
  also have "\<dots> = 2 powi binexp x / 2 ^ 53"
    using two_powi_split'[of "binexp x"] by (simp add: field_simps)
  also have "\<dots> \<le> \<bar>x\<bar> / 2 ^ 53" using binexp_bounds(1)[OF x0] by (simp add: divide_right_mono)
  finally show ?thesis .
qed

text \<open>Integers of magnitude below \<open>2\<^sup>5\<^sup>3\<close> are doubles.\<close>

lemma fl_of_int:
  assumes "\<bar>n\<bar> < 2 ^ 53"
  shows "fl (of_int n) = of_int n"
proof (cases "n = 0")
  case False
  let ?x = "real_of_int n"
  have x0: "?x \<noteq> 0" using False by simp
  have "1 \<le> \<bar>n\<bar>" using False by simp
  then have "real_of_int 1 \<le> real_of_int \<bar>n\<bar>" by (simp only: of_int_le_iff)
  then have "1 \<le> \<bar>?x\<bar>" by simp
  then have "(2::real) powi 0 < 2 powi (binexp ?x + 1)" using binexp_bounds(2)[OF x0] by simp
  then have lo: "0 \<le> binexp ?x" using two_powi_less_imp by fastforce
  have "real_of_int \<bar>n\<bar> < real_of_int (2 ^ 53)" using assms by (simp only: of_int_less_iff)
  then have "\<bar>?x\<bar> < 2 ^ 53" by simp
  then have "2 powi binexp ?x < (2::real) powi 53" using binexp_bounds(1)[OF x0] by simp
  then have hi: "binexp ?x < 53" by (rule two_powi_less_imp)
  define k where "k = nat (52 - binexp ?x)"
  have e: "max (binexp ?x) (- 1022) - 52 = - int k" using lo hi by (simp add: k_def)
  have q: "(2::real) powi (- int k) = 1 / 2 ^ k" by (simp add: power_int_minus_divide)
  have "?x / (1 / 2 ^ k) = of_int (n * 2 ^ k)" by simp
  then have "rne (?x / (1 / 2 ^ k)) = n * 2 ^ k" by (simp only: rne_of_int)
  then show ?thesis using fl_nonzero[OF x0] by (simp add: e q)
qed simp

lemma fl_of_nat: "n < 2 ^ 53 \<Longrightarrow> fl (real n) = real n"
  using fl_of_int[of "int n"] by (simp add: of_nat_less_numeral_power_cancel_iff)

lemma fl_numeral [simp]: "(numeral n :: int) < 2 ^ 53 \<Longrightarrow> fl (numeral n) = numeral n"
  using fl_of_int[of "numeral n"] by simp

lemma fl_neg_numeral [simp]: "(numeral n :: int) < 2 ^ 53 \<Longrightarrow> fl (- numeral n) = - numeral n"
  using fl_of_int[of "- numeral n"] by simp

lemma fl_1 [simp]: "fl 1 = 1"
  using fl_of_int[of 1] by simp



text \<open>The error of one rounding of a number of magnitude at most \<open>b\<close>, subnormal or
  not.\<close>

lemma scaled_rne_error:
  assumes q: "0 < (q::real)"
  shows "\<bar>of_int (rne (x / q)) * q - x\<bar> \<le> q / 2"
proof -
  have "of_int (rne (x / q)) * q - x = (of_int (rne (x / q)) - x / q) * q" using q
    by (simp add: field_simps)
  then have "\<bar>of_int (rne (x / q)) * q - x\<bar> = \<bar>of_int (rne (x / q)) - x / q\<bar> * q"
    using q by (simp add: abs_mult)
  also have "\<dots> \<le> 1 / 2 * q" using rne_error[of "x / q"] q by (intro mult_right_mono) simp_all
  finally show ?thesis by simp
qed

lemma fl_error_abs:
  assumes b: "\<bar>x\<bar> \<le> b" and n: "2 powi (- 1022) \<le> b"
  shows "\<bar>fl x - x\<bar> \<le> b / 2 ^ 53"
proof (cases "2 powi (- 1022) \<le> \<bar>x\<bar>")
  case True
  have "\<bar>fl x - x\<bar> \<le> \<bar>x\<bar> / 2 ^ 53" using True by (rule fl_error)
  also have "\<dots> \<le> b / 2 ^ 53" using b by (simp add: divide_right_mono)
  finally show ?thesis .
next
  case False
  show ?thesis
  proof (cases "x = 0")
    case True
    have "0 \<le> b" using b by simp
    then show ?thesis using True by simp
  next
    case x0: False
    have "2 powi binexp x < (2::real) powi (- 1022)"
      using binexp_bounds(1)[OF x0] False by linarith
    then have "binexp x < - 1022" by (rule two_powi_less_imp)
    then have e: "max (binexp x) (- 1022) = - 1022" by simp
    define q :: real where "q = 2 powi (- 1022 - 52)"
    have q: "0 < q" unfolding q_def by simp
    have f: "fl x = of_int (rne (x / q)) * q" using fl_nonzero[OF x0] unfolding q_def by (simp only: e)
    have "\<bar>fl x - x\<bar> \<le> q / 2" unfolding f using q by (rule scaled_rne_error)
    also have "\<dots> = 2 powi (- 1022) / 2 ^ 53"
      using two_powi_split'[of "- 1022"] unfolding q_def by (simp only: field_simps) simp
    also have "\<dots> \<le> b / 2 ^ 53" using n by (simp add: divide_right_mono)
    finally show ?thesis .
  qed
qed

lemma two_powi_small: "(2::real) powi (- 1022) \<le> 1"
proof -
  have "(2::real) powi (- 1022) \<le> 2 powi 0" by (rule power_int_increasing) simp_all
  then show ?thesis by simp
qed

lemma fl_error_le:
  assumes "\<bar>x\<bar> \<le> b" "1 \<le> b"
  shows "\<bar>fl x - x\<bar> \<le> b / 2 ^ 53"
  using assms(1) by (rule fl_error_abs) (use two_powi_small assms(2) in linarith)

section \<open>The noise synthesizer\<close>

lemma uniform_sample_frame:
  "frame a s t \<Longrightarrow> a < length (u8 s) \<Longrightarrow> j mod 4 \<noteq> 3 \<Longrightarrow>
   frame a s (fst (uniform_sample a amount j (t, r)))"
  by (simp add: uniform_sample_def Math_random_def frame_wr')

lemma clone_frame_post:
  assumes ok: "img_ok s img"
    and fr: "frame (length (u8 s)) (s\<lparr>u8 := u8 s @ [u8 s ! data img]\<rparr>) t"
  shows "noise_post s img t \<lparr>width = width img, height = height img, data = length (u8 s)\<rparr>"
proof -
  let ?a = "length (u8 s)"
  have len: "length (u8 t) = Suc ?a" using fr by (simp add: frame_def)
  have f: "f64 t = f64 s" using fr by (simp add: frame_def)
  have other: "u8 t ! b = u8 s ! b" if "b < ?a" for b
  proof -
    have "u8 t ! b = (u8 s @ [u8 s ! data img]) ! b" using fr that by (simp add: frame_def)
    then show ?thesis using that by (simp add: nth_append)
  qed
  have tk: "take ?a (u8 t) = u8 s"
    by (rule nth_equalityI) (simp_all add: len other)
  have al: "rd t ?a (4 * i + 3) = rd s (data img) (4 * i + 3)" for i
  proof -
    have "rd t ?a (4 * i + 3) = rd (s\<lparr>u8 := u8 s @ [u8 s ! data img]\<rparr>) ?a (4 * i + 3)"
      using fr by (rule frame_rd_alpha)
    then show ?thesis by (simp add: rd_def)
  qed
  show ?thesis
    unfolding noise_post_def using len f tk al by simp
qed

lemma io_nonzero_sdrop: "io_nonzero rs \<Longrightarrow> io_nonzero (sdrop k rs)"
proof (unfold io_nonzero_def, intro allI)
  fix n assume h: "\<forall>n. \<exists>m\<ge>n. rs !! m \<noteq> 0"
  then obtain m where m: "m \<ge> n + k" "rs !! m \<noteq> 0" by blast
  have "sdrop k rs !! (m - k) = rs !! m" using m(1) by (simp add: sdrop_snth)
  then show "\<exists>m\<ge>n. sdrop k rs !! m \<noteq> 0" using m by (intro exI[of _ "m - k"]) simp
qed

lemma draw_nonzero_at: "rs !! m \<noteq> 0 \<Longrightarrow> \<exists>u k. draw_nonzero rs = Some (u, sdrop k rs)"
proof (induction m arbitrary: rs)
  case 0
  then have "draw_nonzero rs = Some (shd rs, sdrop 1 rs)"
    by (subst draw_nonzero.simps) (simp add: Math_random_def)
  then show ?case by blast
next
  case (Suc m)
  show ?case
  proof (cases "shd rs = 0")
    case True
    have "stl rs !! m \<noteq> 0" using Suc.prems by simp
    from Suc.IH[OF this] obtain u k where "draw_nonzero (stl rs) = Some (u, sdrop k (stl rs))"
      by blast
    then have "draw_nonzero rs = Some (u, sdrop (Suc k) rs)"
      using True by (subst draw_nonzero.simps) (simp add: Math_random_def)
    then show ?thesis by blast
  next
    case False
    then have "draw_nonzero rs = Some (shd rs, sdrop 1 rs)"
      by (subst draw_nonzero.simps) (simp add: Math_random_def)
    then show ?thesis by blast
  qed
qed

lemma draw_nonzero_total:
  assumes "io_nonzero rs"
  shows "\<exists>u rs'. draw_nonzero rs = Some (u, rs') \<and> io_nonzero rs'"
proof -
  from assms obtain m where "rs !! m \<noteq> 0" unfolding io_nonzero_def by blast
  from draw_nonzero_at[OF this] obtain u k where "draw_nonzero rs = Some (u, sdrop k rs)"
    by blast
  then show ?thesis using io_nonzero_sdrop[OF assms] by blast
qed

lemma randGaussian_total:
  assumes "io_nonzero rs"
  shows "\<exists>g rs'. randGaussian rs = Some (g, rs') \<and> io_nonzero rs'"
proof -
  from draw_nonzero_total[OF assms] obtain u r1 where
    1: "draw_nonzero rs = Some (u, r1)" "io_nonzero r1" by blast
  from draw_nonzero_total[OF 1(2)] obtain v r2 where
    2: "draw_nonzero r1 = Some (v, r2)" "io_nonzero r2" by blast
  show ?thesis using 1 2 by (simp add: randGaussian_def)
qed

lemma gaussian_sample_total:
  assumes "frame a s t" "io_nonzero r" "a < length (u8 s)" "j mod 4 \<noteq> 3"
  shows "\<exists>u. gaussian_sample a sigma j (t, r) = Some u \<and> frame a s (fst u) \<and> io_nonzero (snd u)"
proof -
  from randGaussian_total[OF assms(2)] obtain g r' where
    g: "randGaussian r = Some (g, r')" "io_nonzero r'" by blast
  show ?thesis using g assms(1,3,4) by (simp add: gaussian_sample_def frame_wr')
qed

lemma uniform_loop_frame:
  assumes "a < length (u8 s)"
  shows "frame a s (fst (fold (\<lambda>p. fold (\<lambda>c. uniform_sample a amount (4 * p + c)) [0..<3])
            xs (s, rs)))"
proof -
  let ?I = "\<lambda>st :: store \<times> real stream. frame a s (fst st)"
  have inner: "?I (fold (\<lambda>c. uniform_sample a amount (4 * p + c)) [0..<3] st)" if "?I st" for p st
  proof (rule fold_inv[where I = ?I])
    show "?I st" by (fact that)
  next
    fix c st' assume c: "c \<in> set [0..<3]" and i: "?I st'"
    have "(4 * p + c) mod 4 \<noteq> 3" using c by (simp add: mod4_facts)
    then show "?I (uniform_sample a amount (4 * p + c) st')"
      using uniform_sample_frame[OF _ assms, of "fst st'" "4 * p + c" amount "snd st'"] i by simp
  qed
  show ?thesis
    by (rule fold_inv[where I = ?I]) (simp_all add: inner)
qed

lemma gaussian_loop_total:
  assumes "a < length (u8 s)" "io_nonzero rs"
  shows "\<exists>u. fold_opt (\<lambda>p. fold_opt (\<lambda>c. gaussian_sample a sigma (4 * p + c)) [0..<3])
            xs (s, rs) = Some u \<and> frame a s (fst u)"
proof -
  let ?I = "\<lambda>st :: store \<times> real stream. frame a s (fst st) \<and> io_nonzero (snd st)"
  have inner: "\<exists>u. fold_opt (\<lambda>c. gaussian_sample a sigma (4 * p + c)) [0..<3] st = Some u \<and> ?I u"
    if "?I st" for p st
  proof (rule fold_opt_inv[where I = ?I])
    show "?I st" by (fact that)
  next
    fix c st' assume c: "c \<in> set [0..<3]" and i: "?I st'"
    have "(4 * p + c) mod 4 \<noteq> 3" using c by (simp add: mod4_facts)
    then show "\<exists>u. gaussian_sample a sigma (4 * p + c) st' = Some u \<and> ?I u"
      using gaussian_sample_total[of a s "fst st'" "snd st'" "4 * p + c" sigma] i assms(1) by simp
  qed
  have "\<exists>u. fold_opt (\<lambda>p. fold_opt (\<lambda>c. gaussian_sample a sigma (4 * p + c)) [0..<3])
            xs (s, rs) = Some u \<and> ?I u"
  proof (rule fold_opt_inv[where I = ?I])
    show "?I (s, rs)" using assms(2) by simp
  next
    fix p st' assume "?I st'"
    then show "\<exists>u. fold_opt (\<lambda>c. gaussian_sample a sigma (4 * p + c)) [0..<3] st' = Some u \<and> ?I u"
      by (rule inner)
  qed
  then show ?thesis by blast
qed

text \<open>The salt-and-pepper loop, its draws taken apart from its writes.\<close>

lemma saltPepper_fold_split:
  "fold (\<lambda>p. saltPepper_pixel a prob (4 * p)) [0..<n] (s, rs) =
    (fold (\<lambda>p t. if rs !! p < fdiv prob 2 then set_rgb a (4 * p) 0 0 0 t
                  else if rs !! p < prob then set_rgb a (4 * p) 255 255 255 t else t) [0..<n] s,
     sdrop n rs)"
proof (induction n)
  case 0
  then show ?case by simp
next
  case (Suc n)
  let ?body = "\<lambda>p t. if rs !! p < fdiv prob 2 then set_rgb a (4 * p) 0 0 0 t
                  else if rs !! p < prob then set_rgb a (4 * p) 255 255 255 t else t"
  have tl: "stl (sdrop n rs) = sdrop (Suc n) rs" by (metis sdrop_simps(2) sdrop_stl)
  have "fold (\<lambda>p. saltPepper_pixel a prob (4 * p)) [0..<Suc n] (s, rs) =
     saltPepper_pixel a prob (4 * n) (fold (\<lambda>p. saltPepper_pixel a prob (4 * p)) [0..<n] (s, rs))"
    by simp
  also have "\<dots> = saltPepper_pixel a prob (4 * n) (fold ?body [0..<n] s, sdrop n rs)"
    by (simp only: Suc)
  also have "\<dots> = (?body n (fold ?body [0..<n] s), sdrop (Suc n) rs)"
    unfolding saltPepper_pixel_def Math_random_def using tl by simp
  also have "\<dots> = (fold ?body [0..<Suc n] s, sdrop (Suc n) rs)"
    by simp
  finally show ?case .
qed

lemma saltPepper_loop:
  assumes a: "a < length (u8 s)"
  shows "\<exists>t. fold (\<lambda>p. saltPepper_pixel a prob (4 * p)) [0..<n] (s, rs) = (t, sdrop n rs) \<and>
    frame a s t \<and>
    (\<forall>j. rd t a j =
       (if j < length (u8 s ! a) \<and> j div 4 < n \<and> j mod 4 \<noteq> 3
        then sp_val prob (rs !! (j div 4)) (rd s a j) else rd s a j))"
proof -
  let ?body = "\<lambda>p t. if rs !! p < fdiv prob 2 then set_rgb a (4 * p) 0 0 0 t
                  else if rs !! p < prob then set_rgb a (4 * p) 255 255 255 t else t"
  let ?V = "\<lambda>j. sp_val prob (rs !! (j div 4)) (rd s a j)"
  have "frame a s (fold ?body [0..<n] s) \<and>
    (\<forall>j. rd (fold ?body [0..<n] s) a j =
       (if j < length (u8 s ! a) \<and> j div 4 \<in> (\<lambda>p. p) ` set [0..<n] \<and> j mod 4 \<noteq> 3
        then ?V j else rd s a j))"
  proof (rule paint_fold[OF a, where pix = "\<lambda>p. p" and V = ?V])
    show "distinct (map (\<lambda>p. p) [0..<n])" by simp
  next
    fix p t
    assume fr: "frame a s t" and un: "\<forall>j. j div 4 = p \<longrightarrow> rd t a j = rd s a j"
    note e = set_rgb_effect[OF fr a, of p]
    show "frame a t (?body p t) \<and>
        (\<forall>j. rd (?body p t) a j =
           (if j < length (u8 s ! a) \<and> j div 4 = p \<and> j mod 4 \<noteq> 3 then ?V j else rd t a j))"
    proof (cases "rs !! p < fdiv prob 2")
      case True
      then show ?thesis using e[of 0 0 0] by (simp add: sp_val_def)
    next
      case False
      note nb = False
      show ?thesis
      proof (cases "rs !! p < prob")
        case True
        then show ?thesis using nb e[of 255 255 255] by (simp add: sp_val_def)
      next
        case False
        then show ?thesis using nb un by (simp add: sp_val_def)
      qed
    qed
  qed
  then show ?thesis by (simp add: saltPepper_fold_split)
qed

text \<open>Whatever the draws, a Gaussian loop that ends has painted only colour samples.\<close>

lemma fold_opt_partial:
  assumes "I s" "\<And>x s t. x \<in> set xs \<Longrightarrow> I s \<Longrightarrow> f x s = Some t \<Longrightarrow> I t"
    and "fold_opt f xs s = Some u"
  shows "I u"
  using assms
proof (induction xs arbitrary: s)
  case Nil
  then show ?case by simp
next
  case (Cons x xs)
  from Cons.prems(3) obtain t where t: "f x s = Some t" and r: "fold_opt f xs t = Some u"
    by (auto split: option.splits)
  have "I t" by (rule Cons.prems(2)[of x s t]) (simp_all add: Cons.prems(1) t)
  moreover have "\<And>y s t. y \<in> set xs \<Longrightarrow> I s \<Longrightarrow> f y s = Some t \<Longrightarrow> I t"
    by (rule Cons.prems(2)) simp_all
  ultimately show ?case using r by (rule Cons.IH)
qed

lemma gaussian_sample_frame:
  assumes "gaussian_sample a sigma j (t, r) = Some u" "frame a s t" "a < length (u8 s)" "j mod 4 \<noteq> 3"
  shows "frame a s (fst u)"
  using assms by (auto simp: gaussian_sample_def frame_wr' split: option.splits)

lemma gaussian_loop_frame:
  assumes a: "a < length (u8 s)"
    and r: "fold_opt (\<lambda>p. fold_opt (\<lambda>c. gaussian_sample a sigma (4 * p + c)) [0..<3])
            xs (s, rs) = Some u"
  shows "frame a s (fst u)"
proof -
  let ?I = "\<lambda>st :: store \<times> real stream. frame a s (fst st)"
  have inner: "?I v"
    if "?I st" "fold_opt (\<lambda>c. gaussian_sample a sigma (4 * p + c)) [0..<3] st = Some v" for p st v
  proof (rule fold_opt_partial[where I = ?I, OF that(1) _ that(2)])
    fix c st' t assume c: "c \<in> set [0..<3]" and i: "?I st'"
      and g: "gaussian_sample a sigma (4 * p + c) st' = Some t"
    have m: "(4 * p + c) mod 4 \<noteq> 3" using c by (simp add: mod4_facts)
    show "?I t"
      using gaussian_sample_frame[of a sigma "4 * p + c" "fst st'" "snd st'" t s] g i a m by simp
  qed
  show ?thesis
  proof (rule fold_opt_partial[where I = ?I, OF _ _ r])
    show "?I (s, rs)" by simp
  next
    fix p st t assume "?I st" "fold_opt (\<lambda>c. gaussian_sample a sigma (4 * p + c)) [0..<3] st = Some t"
    then show "?I t" by (rule inner)
  qed
qed

text \<open>A draw loop that ends has seen a nonzero draw.\<close>

lemma draw_nonzero_Some:
  assumes h: "draw_nonzero rs = Some y"
  shows "\<exists>n. rs !! n \<noteq> 0"
proof (rule draw_nonzero.raw_induct[where P = "\<lambda>rs y. \<exists>n. rs !! n \<noteq> 0", OF _ h])
  fix dn :: "real stream \<Rightarrow> (real \<times> real stream) option" and rs y
  assume IH: "\<And>x y. dn x = Some y \<Longrightarrow> \<exists>n. x !! n \<noteq> 0"
    and st: "(let (u, rs') = Math_random rs in if u = 0 then dn rs' else Some (u, rs')) = Some y"
  show "\<exists>n. rs !! n \<noteq> 0"
  proof (cases "shd rs = 0")
    case True
    with st have "dn (stl rs) = Some y" by (simp add: Math_random_def)
    from IH[OF this] obtain n where "stl rs !! n \<noteq> 0" ..
    then have "rs !! Suc n \<noteq> 0" by simp
    then show ?thesis ..
  next
    case False
    then have "rs !! 0 \<noteq> 0" by simp
    then show ?thesis ..
  qed
qed

lemma draw_nonzero_zeros: "draw_nonzero (sconst 0) = None"
proof (cases "draw_nonzero (sconst 0)")
  case (Some y)
  from draw_nonzero_Some[OF this] show ?thesis by simp
qed simp

lemma gaussian_zero_draws:
  assumes ok: "img_ok s img"
  shows "addGaussianNoise img p (s, sconst 0) = None"
proof -
  let ?a = "length (u8 s)"
  let ?s1 = "s\<lparr>u8 := u8 s @ [u8 s ! data img]\<rparr>"
  let ?n = "rounds (length (u8 ?s1 ! ?a)) 0"
  let ?sg = "fmul (fdiv p 100) 80"
  have g: "gaussian_sample a sg j (t, sconst 0) = None" for a sg j t
    by (simp add: gaussian_sample_def randGaussian_def draw_nonzero_zeros)
  have u3: "[0..<3] = 0 # [1..<3]" by (simp add: upt_conv_Cons)
  have "0 < width img * height img" using ok by (simp add: img_ok_def)
  then have "0 < ?n" using ok by (simp add: img_ok_def)
  then have un: "[0..<?n] = 0 # [1..<?n]" by (simp add: upt_conv_Cons)
  have "fold_opt (\<lambda>q. fold_opt (\<lambda>c. gaussian_sample ?a ?sg (4 * q + c)) [0..<3])
            [0..<?n] (?s1, sconst 0) = None"
    by (simp only: un u3 fold_opt.simps g option.case)
  then show ?thesis
    by (simp add: addGaussianNoise_def cloneImageData_ok[OF ok] Let_def)
qed

text \<open>
  Claim C9, as the code has it. On every image of the store, for every percentage and
  every stream of draws, uniform and salt-and-pepper noise return an image whose array
  is new, whose alpha equals the input's at every pixel, and leave every array the store
  had before the call (the input's among them) as it was. Gaussian noise redraws while a
  draw is 0: whenever it returns it has done the same, and it returns whenever the
  draws are nonzero again and again; on draws that are 0 for ever it does not return.
\<close>

theorem noise_keeps_alpha_and_input:
  assumes "img_ok s img"
  shows "(\<exists>s' rs' out. addUniformNoise img p (s, rs) = Inr ((s', rs'), out) \<and>
            noise_post s img s' out) \<and>
         (\<exists>s' rs' out. addSaltPepperNoise img p (s, rs) = Inr ((s', rs'), out) \<and>
            noise_post s img s' out) \<and>
         (addGaussianNoise img p (s, rs) = None \<or>
          (\<exists>s' rs' out. addGaussianNoise img p (s, rs) = Some (Inr ((s', rs'), out)) \<and>
            noise_post s img s' out)) \<and>
         ((\<forall>n. \<exists>m\<ge>n. rs !! m \<noteq> 0) \<longrightarrow> addGaussianNoise img p (s, rs) \<noteq> None)"
proof -
  let ?a = "length (u8 s)"
  let ?s1 = "s\<lparr>u8 := u8 s @ [u8 s ! data img]\<rparr>"
  let ?out = "\<lparr>width = width img, height = height img, data = ?a\<rparr>"
  let ?n = "rounds (length (u8 ?s1 ! ?a)) 0"
  note cl = cloneImageData_ok[OF assms]
  have a: "?a < length (u8 ?s1)" by simp
  have post: "noise_post s img t ?out" if "frame ?a ?s1 t" for t
    using assms that by (rule clone_frame_post)
  have U: "\<exists>s' rs' out. addUniformNoise img p (s, rs) = Inr ((s', rs'), out) \<and>
            noise_post s img s' out"
  proof -
    let ?am = "fmul (fdiv p 100) 255"
    obtain t r where tr: "fold (\<lambda>q. fold (\<lambda>c. uniform_sample ?a ?am (4 * q + c)) [0..<3])
                [0..<?n] (?s1, rs) = (t, r)" by (cases "fold (\<lambda>q. fold (\<lambda>c. uniform_sample ?a ?am (4 * q + c)) [0..<3])
                [0..<?n] (?s1, rs)")
    have "frame ?a ?s1 t" using uniform_loop_frame[OF a, of ?am "[0..<?n]" rs] tr by simp
    then have "noise_post s img t ?out" by (rule post)
    moreover have "addUniformNoise img p (s, rs) = Inr ((t, r), ?out)"
      using tr by (simp add: addUniformNoise_def cl)
    ultimately show ?thesis by blast
  qed
  have S: "\<exists>s' rs' out. addSaltPepperNoise img p (s, rs) = Inr ((s', rs'), out) \<and>
            noise_post s img s' out"
  proof -
    obtain t r where tr: "fold (\<lambda>q. saltPepper_pixel ?a (fdiv p 100) (4 * q)) [0..<?n] (?s1, rs) = (t, r)"
      by (cases "fold (\<lambda>q. saltPepper_pixel ?a (fdiv p 100) (4 * q)) [0..<?n] (?s1, rs)")
    have "frame ?a ?s1 t" using saltPepper_loop[OF a, of "fdiv p 100" ?n rs] tr by auto
    then have "noise_post s img t ?out" by (rule post)
    moreover have "addSaltPepperNoise img p (s, rs) = Inr ((t, r), ?out)"
      using tr by (simp add: addSaltPepperNoise_def cl)
    ultimately show ?thesis by blast
  qed
  let ?sg = "fmul (fdiv p 100) 80"
  let ?loop = "fold_opt (\<lambda>q. fold_opt (\<lambda>c. gaussian_sample ?a ?sg (4 * q + c)) [0..<3])
            [0..<?n] (?s1, rs)"
  have res: "addGaussianNoise img p (s, rs) =
      (case ?loop of None \<Rightarrow> None | Some st \<Rightarrow> Some (Inr (st, ?out)))"
    by (simp add: addGaussianNoise_def cl Let_def)
  have G: "addGaussianNoise img p (s, rs) = None \<or>
          (\<exists>s' rs' out. addGaussianNoise img p (s, rs) = Some (Inr ((s', rs'), out)) \<and>
            noise_post s img s' out)"
  proof (cases ?loop)
    case None
    then show ?thesis by (simp add: res)
  next
    case (Some u)
    obtain t r where u: "u = (t, r)" by (cases u)
    have "frame ?a ?s1 (fst u)" using a Some by (rule gaussian_loop_frame)
    then have "noise_post s img t ?out" unfolding u by (simp add: post)
    moreover have "addGaussianNoise img p (s, rs) = Some (Inr ((t, r), ?out))"
      using Some u by (simp add: res)
    ultimately show ?thesis by blast
  qed
  have T: "addGaussianNoise img p (s, rs) \<noteq> None" if "\<forall>n. \<exists>m\<ge>n. rs !! m \<noteq> 0"
  proof -
    have io: "io_nonzero rs" using that by (simp add: io_nonzero_def)
    from gaussian_loop_total[OF a io, of ?sg "[0..<?n]"]
    obtain u where "?loop = Some u" by blast
    then show ?thesis by (simp add: res)
  qed
  from U S G T show ?thesis by blast
qed

text \<open>The theorem at a one-pixel image, percentage 50 and the constant stream of draws 1/4.\<close>

theorem noise_keeps_alpha_and_input_witness:
  "img_ok \<lparr>u8 = [[10, 20, 30, 40]], f64 = []\<rparr> \<lparr>width = 1, height = 1, data = 0\<rparr> \<and>
   (\<forall>n. \<exists>m\<ge>n. sconst (1 / 4 :: real) !! m \<noteq> 0) \<and>
   (\<exists>s' rs' out. addUniformNoise \<lparr>width = 1, height = 1, data = 0\<rparr> 50
        (\<lparr>u8 = [[10, 20, 30, 40]], f64 = []\<rparr>, sconst (1 / 4)) = Inr ((s', rs'), out) \<and>
      noise_post \<lparr>u8 = [[10, 20, 30, 40]], f64 = []\<rparr> \<lparr>width = 1, height = 1, data = 0\<rparr> s' out) \<and>
   (\<exists>s' rs' out. addSaltPepperNoise \<lparr>width = 1, height = 1, data = 0\<rparr> 50
        (\<lparr>u8 = [[10, 20, 30, 40]], f64 = []\<rparr>, sconst (1 / 4)) = Inr ((s', rs'), out) \<and>
      noise_post \<lparr>u8 = [[10, 20, 30, 40]], f64 = []\<rparr> \<lparr>width = 1, height = 1, data = 0\<rparr> s' out) \<and>
   (\<exists>s' rs' out. addGaussianNoise \<lparr>width = 1, height = 1, data = 0\<rparr> 50
        (\<lparr>u8 = [[10, 20, 30, 40]], f64 = []\<rparr>, sconst (1 / 4)) = Some (Inr ((s', rs'), out)) \<and>
      noise_post \<lparr>u8 = [[10, 20, 30, 40]], f64 = []\<rparr> \<lparr>width = 1, height = 1, data = 0\<rparr> s' out)"
proof -
  have h: "img_ok \<lparr>u8 = [[10, 20, 30, 40]], f64 = []\<rparr> \<lparr>width = 1, height = 1, data = 0\<rparr>"
    by (simp add: img_ok_def)
  have io: "\<forall>n. \<exists>m\<ge>n. sconst (1 / 4 :: real) !! m \<noteq> 0"
    by auto
  note T = noise_keeps_alpha_and_input[OF h, of 50 "sconst (1 / 4)"]
  from T have ne: "addGaussianNoise \<lparr>width = 1, height = 1, data = 0\<rparr> 50
        (\<lparr>u8 = [[10, 20, 30, 40]], f64 = []\<rparr>, sconst (1 / 4)) \<noteq> None"
    using io by blast
  from T ne have G: "\<exists>s' rs' out. addGaussianNoise \<lparr>width = 1, height = 1, data = 0\<rparr> 50
        (\<lparr>u8 = [[10, 20, 30, 40]], f64 = []\<rparr>, sconst (1 / 4)) = Some (Inr ((s', rs'), out)) \<and>
      noise_post \<lparr>u8 = [[10, 20, 30, 40]], f64 = []\<rparr> \<lparr>width = 1, height = 1, data = 0\<rparr> s' out"
    by blast
  show ?thesis
    by (intro conjI h io T[THEN conjunct1] T[THEN conjunct2, THEN conjunct1] G)
qed

text \<open>
  The claim as the specification states it fails on the stream of draws that are all 0:
  Gaussian noise never gets the nonzero draw it waits for and returns no buffer.
\<close>

theorem gaussian_zero_draws_counterexample:
  "img_ok \<lparr>u8 = [[10, 20, 30, 40]], f64 = []\<rparr> \<lparr>width = 1, height = 1, data = 0\<rparr> \<and>
   addGaussianNoise \<lparr>width = 1, height = 1, data = 0\<rparr> 50
        (\<lparr>u8 = [[10, 20, 30, 40]], f64 = []\<rparr>, sconst 0) = None"
proof -
  let ?s = "\<lparr>u8 = [[10, 20, 30, 40]], f64 = []\<rparr>"
  let ?img = "\<lparr>width = 1, height = 1, data = 0\<rparr>"
  have h: "img_ok ?s ?img" by (simp add: img_ok_def)
  have "addGaussianNoise ?img 50 (?s, sconst 0) = None"
    using h by (rule gaussian_zero_draws)
  with h show ?thesis ..
qed







section \<open>Allocation and extension of stores\<close>

lemma extends_refl [simp]: "extends s s"
  by (simp add: extends_def)

lemma take_prefix_len:
  assumes "take (length ys) xs = ys"
  shows "length ys \<le> length xs"
proof -
  have "length (take (length ys) xs) = length ys" by (simp only: assms)
  then show ?thesis by (simp add: min_def split: if_splits)
qed

lemma extends_length: "extends s s' \<Longrightarrow> length (u8 s) \<le> length (u8 s')"
  unfolding extends_def by (blast intro: take_prefix_len)

lemma extends_nth: "extends s s' \<Longrightarrow> b < length (u8 s) \<Longrightarrow> u8 s' ! b = u8 s ! b"
  unfolding extends_def by (metis nth_take)

lemma extends_rd: "extends s s' \<Longrightarrow> b < length (u8 s) \<Longrightarrow> rd s' b j = rd s b j"
  by (simp add: rd_def extends_nth)

lemma extends_trans:
  assumes "extends s t" "extends t u"
  shows "extends s u"
proof -
  have l: "length (u8 s) \<le> length (u8 t)" using assms(1) by (rule extends_length)
  have "take (length (u8 s)) (u8 u) = take (length (u8 s)) (take (length (u8 t)) (u8 u))"
    using l by (simp add: min_def)
  also have "\<dots> = u8 s" using assms by (simp add: extends_def)
  finally have 1: "take (length (u8 s)) (u8 u) = u8 s" .
  have l2: "length (f64 s) \<le> length (f64 t)"
    using assms(1) unfolding extends_def by (blast intro: take_prefix_len)
  have "take (length (f64 s)) (f64 u) = take (length (f64 s)) (take (length (f64 t)) (f64 u))"
    using l2 by (simp add: min_def)
  also have "\<dots> = f64 s" using assms by (simp add: extends_def)
  finally show ?thesis using 1 by (simp add: extends_def)
qed

lemma img_ok_extends: "img_ok s img \<Longrightarrow> extends s s' \<Longrightarrow> img_ok s' img"
  using extends_length[of s s'] by (auto simp: img_ok_def extends_nth)

text \<open>After the clone, a loop that only paints the clone leaves a fresh image.\<close>

lemma frame_clone:
  assumes ok: "img_ok s img"
    and fr: "frame (length (u8 s)) (s\<lparr>u8 := u8 s @ [u8 s ! data img]\<rparr>) t"
  shows "extends s t" "length (u8 t) = Suc (length (u8 s))"
    "length (u8 t ! length (u8 s)) = width img * height img * 4"
    "fresh_image s (width img) (height img) t
       \<lparr>width = width img, height = height img, data = length (u8 s)\<rparr>"
    "img_ok t \<lparr>width = width img, height = height img, data = length (u8 s)\<rparr>"
proof -
  let ?a = "length (u8 s)"
  show len: "length (u8 t) = Suc ?a" using fr by (simp add: frame_def)
  have f: "f64 t = f64 s" using fr by (simp add: frame_def)
  have other: "u8 t ! b = u8 s ! b" if "b < ?a" for b
  proof -
    have "u8 t ! b = (u8 s @ [u8 s ! data img]) ! b" using fr that by (simp add: frame_def)
    then show ?thesis using that by (simp add: nth_append)
  qed
  have tk: "take ?a (u8 t) = u8 s"
    by (rule nth_equalityI) (simp_all add: len other)
  show ex: "extends s t" using tk f by (simp add: extends_def)
  show la: "length (u8 t ! ?a) = width img * height img * 4"
    using fr ok by (simp add: frame_def img_ok_def)
  show "fresh_image s (width img) (height img) t
       \<lparr>width = width img, height = height img, data = ?a\<rparr>"
    using len ex la by (simp add: fresh_image_def)
  show "img_ok t \<lparr>width = width img, height = height img, data = ?a\<rparr>"
    using len la ok by (simp add: img_ok_def)
qed

lemma clone_rd [simp]:
  "rd (s\<lparr>u8 := u8 s @ [u8 s ! b]\<rparr>) (length (u8 s)) j = rd s b j"
  by (simp add: rd_def)

lemma clone_rd_old:
  "b < length (u8 s) \<Longrightarrow> rd (s\<lparr>u8 := u8 s @ [xs]\<rparr>) b j = rd s b j"
  by (simp add: rd_def nth_append)

section \<open>Grayscale conversion\<close>

lemma toGrayscale_paint:
  assumes ok: "img_ok s img"
  shows "\<exists>t. toGrayscale img s =
        Inr (t, \<lparr>width = width img, height = height img, data = length (u8 s)\<rparr>) \<and>
     frame (length (u8 s)) (s\<lparr>u8 := u8 s @ [u8 s ! data img]\<rparr>) t \<and>
     (\<forall>j. rd t (length (u8 s)) j =
        (if j < width img * height img * 4 \<and> j mod 4 \<noteq> 3 then luma s img (j div 4)
         else rd s (data img) j))"
proof -
  let ?a = "length (u8 s)"
  let ?s1 = "s\<lparr>u8 := u8 s @ [u8 s ! data img]\<rparr>"
  let ?N = "width img * height img"
  let ?body = "\<lambda>p. toGrayscale_pixel ?a (4 * p)"
  let ?V = "\<lambda>j. luma s img (j div 4)"
  have a: "?a < length (u8 ?s1)" by simp
  have len: "length (u8 s ! data img) = ?N * 4" using ok by (simp add: img_ok_def)
  have P: "frame ?a ?s1 (fold ?body [0..<?N] ?s1) \<and>
    (\<forall>j. rd (fold ?body [0..<?N] ?s1) ?a j =
       (if j < length (u8 ?s1 ! ?a) \<and> j div 4 \<in> (\<lambda>p. p) ` set [0..<?N] \<and> j mod 4 \<noteq> 3
        then ?V j else rd ?s1 ?a j))"
  proof (rule paint_fold[OF a, where pix = "\<lambda>p. p" and V = ?V])
    show "distinct (map (\<lambda>p. p) [0..<?N])" by simp
  next
    fix p t
    assume fr: "frame ?a ?s1 t" and un: "\<forall>j. j div 4 = p \<longrightarrow> rd t ?a j = rd ?s1 ?a j"
    have d: "(4 * p) div 4 = p" "(4 * p + 1) div 4 = p" "(4 * p + 2) div 4 = p" by presburger+
    have r: "rd t ?a (4 * p) = rd s (data img) (4 * p)"
      "rd t ?a (4 * p + 1) = rd s (data img) (4 * p + 1)"
      "rd t ?a (4 * p + 2) = rd s (data img) (4 * p + 2)"
      using un d by simp_all
    let ?g = "Math_round
       (fadd (fadd (fmul (fl 0.299) (real (rd s (data img) (4 * p))))
                   (fmul (fl 0.587) (real (rd s (data img) (4 * p + 1)))))
             (fmul (fl 0.114) (real (rd s (data img) (4 * p + 2)))))"
    have b: "toGrayscale_pixel ?a (4 * p) t = set_rgb ?a (4 * p) ?g ?g ?g t"
      unfolding toGrayscale_pixel_def Let_def r ..
    show "frame ?a t (?body p t) \<and>
        (\<forall>j. rd (?body p t) ?a j =
           (if j < length (u8 ?s1 ! ?a) \<and> j div 4 = p \<and> j mod 4 \<noteq> 3 then ?V j else rd t ?a j))"
      unfolding b using set_rgb_effect[OF fr a, of p ?g ?g ?g]
      by (auto simp: luma_def)
  qed
  have res: "toGrayscale img s = Inr (fold ?body [0..<?N] ?s1,
      \<lparr>width = width img, height = height img, data = ?a\<rparr>)"
    by (simp add: toGrayscale_def cloneImageData_ok[OF ok] len)
  have "rd (fold ?body [0..<?N] ?s1) ?a j =
        (if j < ?N * 4 \<and> j mod 4 \<noteq> 3 then luma s img (j div 4) else rd s (data img) j)" for j
  proof -
    have "j < ?N * 4 \<Longrightarrow> j div 4 < ?N" by auto
    then show ?thesis using P by (auto simp: len)
  qed
  then show ?thesis using res P by blast
qed

section \<open>Convolution\<close>

lemma pix_div_mod:
  fixes x y w :: nat
  assumes "x < w"
  shows "(y * w + x) div w = y" "(y * w + x) mod w = x"
  using assms by simp_all

lemma pix_distinct:
  "w' \<le> w \<Longrightarrow> distinct (map (\<lambda>(y, x). y * w + x) (List.product [0..<h'] [0..<w']))"
proof (rule iffD2[OF distinct_map], intro conjI)
  show "distinct (List.product [0..<h'] [0..<w'])" by (simp add: distinct_product)
next
  assume le: "w' \<le> w"
  show "inj_on (\<lambda>(y, x). y * w + x) (set (List.product [0..<h'] [0..<w']))"
  proof (rule inj_onI)
    fix p q
    assume p: "p \<in> set (List.product [0..<h'] [0..<w'])"
      and q: "q \<in> set (List.product [0..<h'] [0..<w'])"
      and e: "(case p of (y, x) \<Rightarrow> y * w + x) = (case q of (y, x) \<Rightarrow> y * w + x)"
    obtain y x where pq: "p = (y, x)" by (cases p)
    obtain y' x' where qq: "q = (y', x')" by (cases q)
    have lt: "x < w" "x' < w" using p q le by (auto simp: pq qq)
    have e': "y * w + x = y' * w + x'" using e by (simp add: pq qq)
    have "y = y'" using pix_div_mod(1)[OF lt(1), of y] pix_div_mod(1)[OF lt(2), of y'] e' by simp
    moreover have "x = x'" using pix_div_mod(2)[OF lt(1), of y] pix_div_mod(2)[OF lt(2), of y'] e' by simp
    ultimately show "p = q" by (simp add: pq qq)
  qed
qed

lemma pix_image:
  assumes "0 < w"
  shows "p \<in> (\<lambda>(y, x). y * w + x) ` set (List.product [0..<h] [0..<w]) \<longleftrightarrow> p < h * w"
proof
  assume "p \<in> (\<lambda>(y, x). y * w + x) ` set (List.product [0..<h] [0..<w])"
  then obtain y x where "y < h" "x < w" "p = y * w + x" by auto
  then have 1: "p < y * w + w" and 2: "Suc y \<le> h" by simp_all
  have "Suc y * w \<le> h * w" using 2 by (rule mult_le_mono1)
  moreover have "Suc y * w = y * w + w" by simp
  ultimately show "p < h * w" using 1 by linarith
next
  assume "p < h * w"
  then have "p div w < h" using assms by (simp add: less_mult_imp_div_less)
  moreover have "p mod w < w" using assms by simp
  moreover have "p = (p div w) * w + p mod w" by simp
  ultimately show "p \<in> (\<lambda>(y, x). y * w + x) ` set (List.product [0..<h] [0..<w])"
    by (intro image_eqI[where x = "(p div w, p mod w)"]) simp_all
qed

lemma pix_image':
  assumes "w' \<le> w"
  shows "p \<in> (\<lambda>(y, x). y * w + x) ` set (List.product [0..<h'] [0..<w']) \<longleftrightarrow>
     p mod w < w' \<and> p div w < h'"
proof
  assume "p \<in> (\<lambda>(y, x). y * w + x) ` set (List.product [0..<h'] [0..<w'])"
  then obtain y x where yx: "y < h'" "x < w'" "p = y * w + x" by auto
  then have "x < w" using assms by simp
  then show "p mod w < w' \<and> p div w < h'" using yx by simp
next
  assume h: "p mod w < w' \<and> p div w < h'"
  have "p = (p div w) * w + p mod w" by simp
  then show "p \<in> (\<lambda>(y, x). y * w + x) ` set (List.product [0..<h'] [0..<w'])"
    using h by (intro image_eqI[where x = "(p div w, p mod w)"]) simp_all
qed

text \<open>A pair of loops over rows and columns that paints one pixel a round.\<close>

lemma paint_grid:
  fixes body :: "nat \<Rightarrow> nat \<Rightarrow> store \<Rightarrow> store"
  assumes a: "a < length (u8 s)" and le: "w' \<le> w"
    and body: "\<And>y x t. y < h' \<Longrightarrow> x < w' \<Longrightarrow> frame a s t \<Longrightarrow>
        (\<forall>j. j div 4 = y * w + x \<longrightarrow> rd t a j = rd s a j) \<Longrightarrow>
        body y x t = set_rgb a (4 * (y * w + x)) (R y x) (G y x) (B y x) t"
  shows "frame a s (fold (\<lambda>y. fold (\<lambda>x. body y x) [0..<w']) [0..<h'] s) \<and>
    (\<forall>j. rd (fold (\<lambda>y. fold (\<lambda>x. body y x) [0..<w']) [0..<h'] s) a j =
       (if j < length (u8 s ! a) \<and> (j div 4) mod w < w' \<and> (j div 4) div w < h' \<and> j mod 4 \<noteq> 3
        then ToUint8Clamp
          (if j mod 4 = 0 then R ((j div 4) div w) ((j div 4) mod w)
           else if j mod 4 = 1 then G ((j div 4) div w) ((j div 4) mod w)
           else B ((j div 4) div w) ((j div 4) mod w))
        else rd s a j))"
proof -
  let ?items = "List.product [0..<h'] [0..<w']"
  let ?pix = "\<lambda>(y, x). y * w + x"
  let ?b = "\<lambda>(y, x). body y x"
  let ?V = "\<lambda>j. ToUint8Clamp
          (if j mod 4 = 0 then R ((j div 4) div w) ((j div 4) mod w)
           else if j mod 4 = 1 then G ((j div 4) div w) ((j div 4) mod w)
           else B ((j div 4) div w) ((j div 4) mod w))"
  have P: "frame a s (fold ?b ?items s) \<and>
    (\<forall>j. rd (fold ?b ?items s) a j =
       (if j < length (u8 s ! a) \<and> j div 4 \<in> ?pix ` set ?items \<and> j mod 4 \<noteq> 3
        then ?V j else rd s a j))"
  proof (rule paint_fold[OF a, where pix = ?pix and V = ?V])
    show "distinct (map ?pix ?items)" using le by (rule pix_distinct)
  next
    fix i t
    assume i: "i \<in> set ?items" and fr: "frame a s t"
      and un: "\<forall>j. j div 4 = ?pix i \<longrightarrow> rd t a j = rd s a j"
    obtain y x where yx: "i = (y, x)" by (cases i)
    have lt: "y < h'" "x < w'" using i by (simp_all add: yx)
    have xw: "x < w" using lt le by simp
    have un': "\<forall>j. j div 4 = y * w + x \<longrightarrow> rd t a j = rd s a j" using un by (simp add: yx)
    have b: "?b i t = set_rgb a (4 * (y * w + x)) (R y x) (G y x) (B y x) t"
      using body[OF lt fr un'] by (simp add: yx)
    have dm: "(y * w + x) div w = y" "(y * w + x) mod w = x" "x mod w = x" using xw by simp_all
    show "frame a t (?b i t) \<and>
        (\<forall>j. rd (?b i t) a j =
           (if j < length (u8 s ! a) \<and> j div 4 = ?pix i \<and> j mod 4 \<noteq> 3 then ?V j else rd t a j))"
      unfolding b using set_rgb_effect[OF fr a, of "y * w + x" "R y x" "G y x" "B y x"]
      by (auto simp: yx dm)
  qed
  have e: "fold (\<lambda>y. fold (\<lambda>x. body y x) [0..<w']) [0..<h'] s = fold ?b ?items s"
    by (rule fold_product)
  have m: "j div 4 \<in> ?pix ` set ?items \<longleftrightarrow> (j div 4) mod w < w' \<and> (j div 4) div w < h'" for j
    by (rule pix_image'[OF le])
  from P have fr: "frame a s (fold ?b ?items s)"
    and r: "\<And>j. rd (fold ?b ?items s) a j =
       (if j < length (u8 s ! a) \<and> j div 4 \<in> ?pix ` set ?items \<and> j mod 4 \<noteq> 3
        then ?V j else rd s a j)" by blast+
  show ?thesis unfolding e
  proof (intro conjI allI)
    show "frame a s (fold ?b ?items s)" by (fact fr)
  next
    fix j
    show "rd (fold ?b ?items s) a j =
       (if j < length (u8 s ! a) \<and> (j div 4) mod w < w' \<and> (j div 4) div w < h' \<and> j mod 4 \<noteq> 3
        then ?V j else rd s a j)"
      unfolding r m by (simp only: conj_assoc)
  qed
qed

lemma grid_cond:
  fixes w h j :: nat
  assumes "0 < w"
  shows "j < w * h * 4 \<and> (j div 4) mod w < w \<and> (j div 4) div w < h \<and> j mod 4 \<noteq> 3 \<longleftrightarrow>
     j < w * h * 4 \<and> j mod 4 \<noteq> 3"
proof -
  have "(j div 4) div w < h" if "j < w * h * 4"
  proof -
    have "j div 4 < h * w" using that by (simp add: mult.commute)
    then show ?thesis using assms by (simp add: less_mult_imp_div_less)
  qed
  then show ?thesis using assms by auto
qed

lemma convolve_sums_cong:
  "(\<And>j. rd t (data img) j = rd s (data img) j) \<Longrightarrow>
   convolve_sums t img kern x y = convolve_sums s img kern x y"
  by (simp add: convolve_sums_def)

lemma convolve_paint:
  assumes ok: "img_ok s img" and k: "kern \<noteq> []"
  shows "\<exists>t. convolve img kern nrm s =
        Inr (t, \<lparr>width = width img, height = height img, data = length (u8 s)\<rparr>) \<and>
     frame (length (u8 s)) (s\<lparr>u8 := u8 s @ [u8 s ! data img]\<rparr>) t \<and>
     (\<forall>j. rd t (length (u8 s)) j =
        (if j < width img * height img * 4 \<and> j mod 4 \<noteq> 3
         then convolve_value s img kern nrm ((j div 4) mod width img) ((j div 4) div width img) (j mod 4)
         else rd s (data img) j))"
proof -
  let ?a = "length (u8 s)"
  let ?s1 = "s\<lparr>u8 := u8 s @ [u8 s ! data img]\<rparr>"
  let ?w = "width img" and ?h = "height img"
  let ?out = "\<lparr>width = ?w, height = ?h, data = ?a\<rparr>"
  define ksum0 where "ksum0 = (if nrm then fold (\<lambda>row. fold (\<lambda>v acc. fadd acc v) row) kern 0 else (0::real))"
  define ksum where "ksum = (if ksum0 = 0 then 1 else ksum0)"
  define val where "val x y c =
     max 0 (min 255 (Math_round (if nrm then fdiv (convolve_sums s img kern x y ! c) ksum
                                 else convolve_sums s img kern x y ! c)))" for x y c
  have cv: "convolve_value s img kern nrm x y c = ToUint8Clamp (val x y c)" for x y c
    by (simp add: convolve_value_def val_def ksum_def ksum0_def Let_def)
  let ?body = "\<lambda>y x. convolve_pixel img ?a kern nrm ksum y x"
  have a: "?a < length (u8 ?s1)" by simp
  have w0: "0 < ?w" and di: "data img < ?a" and len: "length (u8 s ! data img) = ?w * ?h * 4"
    using ok by (simp_all add: img_ok_def)
  have body: "?body y x t = set_rgb ?a (4 * (y * ?w + x)) (val x y 0) (val x y 1) (val x y 2) t"
    if fr: "frame ?a ?s1 t" for y x t
  proof -
    have r: "rd t (data img) j = rd s (data img) j" for j
    proof -
      have "data img \<noteq> ?a" using di by simp
      with fr have "rd t (data img) j = rd ?s1 (data img) j" by (rule frame_rd)
      then show ?thesis using di by (simp add: clone_rd_old)
    qed
    have sm: "convolve_sums t img kern x y = convolve_sums s img kern x y"
      by (rule convolve_sums_cong) (rule r)
    have "?body y x t = fold (\<lambda>c. wr ?a ((y * ?w + x) * 4 + c) (val x y c)) [0..<3] t"
      unfolding convolve_pixel_def Let_def sm val_def ..
    also have "\<dots> = set_rgb ?a ((y * ?w + x) * 4) (val x y 0) (val x y 1) (val x y 2) t"
      by (rule fold_wr3)
    finally show ?thesis by (simp only: mult.commute[of _ 4])
  qed
  let ?t = "fold (\<lambda>y. fold (\<lambda>x. ?body y x) [0..<?w]) [0..<?h] ?s1"
  have P: "frame ?a ?s1 ?t \<and>
    (\<forall>j. rd ?t ?a j =
       (if j < length (u8 ?s1 ! ?a) \<and> (j div 4) mod ?w < ?w \<and> (j div 4) div ?w < ?h \<and> j mod 4 \<noteq> 3
        then ToUint8Clamp
          (if j mod 4 = 0 then val ((j div 4) mod ?w) ((j div 4) div ?w) 0
           else if j mod 4 = 1 then val ((j div 4) mod ?w) ((j div 4) div ?w) 1
           else val ((j div 4) mod ?w) ((j div 4) div ?w) 2)
        else rd ?s1 ?a j))"
    by (rule paint_grid[OF a le_refl, where R = "\<lambda>y x. val x y 0" and G = "\<lambda>y x. val x y 1"
          and B = "\<lambda>y x. val x y 2"]) (rule body)
  have res: "convolve img kern nrm s = Inr (?t, ?out)"
    using k by (simp add: convolve_def cloneImageData_ok[OF ok] ksum_def ksum0_def Let_def)
  have vals: "rd ?t ?a j =
        (if j < ?w * ?h * 4 \<and> j mod 4 \<noteq> 3
         then convolve_value s img kern nrm ((j div 4) mod ?w) ((j div 4) div ?w) (j mod 4)
         else rd s (data img) j)" for j
  proof -
    have c: "j mod 4 = 0 \<or> j mod 4 = 1 \<or> j mod 4 = 2 \<or> j mod 4 = 3" by presburger
    have "rd ?t ?a j =
       (if j < ?w * ?h * 4 \<and> (j div 4) mod ?w < ?w \<and> (j div 4) div ?w < ?h \<and> j mod 4 \<noteq> 3
        then ToUint8Clamp
          (if j mod 4 = 0 then val ((j div 4) mod ?w) ((j div 4) div ?w) 0
           else if j mod 4 = 1 then val ((j div 4) mod ?w) ((j div 4) div ?w) 1
           else val ((j div 4) mod ?w) ((j div 4) div ?w) 2)
        else rd s (data img) j)"
      using P by (simp add: len)
    then have e: "rd ?t ?a j =
       (if j < ?w * ?h * 4 \<and> j mod 4 \<noteq> 3
        then ToUint8Clamp
          (if j mod 4 = 0 then val ((j div 4) mod ?w) ((j div 4) div ?w) 0
           else if j mod 4 = 1 then val ((j div 4) mod ?w) ((j div 4) div ?w) 1
           else val ((j div 4) mod ?w) ((j div 4) div ?w) 2)
        else rd s (data img) j)"
      unfolding grid_cond[OF w0] .
    from c show ?thesis
      unfolding e by (elim disjE) (simp_all add: cv)
  qed
  show ?thesis using res P vals by blast
qed

section \<open>Median filter\<close>

lemma pixel_index:
  fixes x y w h :: nat
  assumes "x < w" "y < h"
  shows "(y * w + x) * 4 < w * h * 4" "y * w + x < w * h"
proof -
  have "y * w + x < y * w + w" using assms by simp
  moreover have "Suc y * w \<le> h * w" using assms(2) by (intro mult_le_mono1) simp
  ultimately show "y * w + x < w * h" by (simp add: mult.commute)
  then show "(y * w + x) * 4 < w * h * 4" by simp
qed

lemma median_window_length:
  "length (median_window s img half x y c) = nat (2 * half + 1) * nat (2 * half + 1)"
proof -
  have "length (concat (map (\<lambda>ky. map (f ky) xs) ys)) = length ys * length xs"
    for f :: "int \<Rightarrow> int \<Rightarrow> nat" and xs ys :: "int list"
    by (induction ys) simp_all
  then show ?thesis
    unfolding median_window_def by (simp add: algebra_simps)
qed

lemma median_window_cong:
  "(\<And>j. rd t (data img) j = rd s (data img) j) \<Longrightarrow>
   median_window t img half x y c = median_window s img half x y c"
  by (simp add: median_window_def)

lemma median_window_le: "v \<in> set (median_window s img half x y c) \<Longrightarrow> v \<le> 255"
  by (auto simp: median_window_def Let_def rd_le)

lemma middle_le:
  assumes "\<And>v. v \<in> set win \<Longrightarrow> v \<le> 255"
  shows "middle win \<le> 255"
proof (cases "win = []")
  case True
  then show ?thesis by (simp add: middle_def)
next
  case False
  then have "length win div 2 < length (sort win)" by (cases win) simp_all
  then have "sort win ! (length win div 2) \<in> set (sort win)" by (rule nth_mem)
  then have "sort win ! (length win div 2) \<in> set win" by simp
  then show ?thesis using assms False by (simp add: middle_def)
qed

lemma median_store:
  "ToUint8Clamp (if sort (median_window s img half x y c) = [] then 0
      else real (sort (median_window s img half x y c)
                  ! (length (sort (median_window s img half x y c)) div 2)))
   = middle (median_window s img half x y c)"
proof -
  let ?w = "median_window s img half x y c"
  have "middle ?w \<le> 255" by (rule middle_le) (rule median_window_le)
  then have "ToUint8Clamp (real (middle ?w)) = middle ?w" by (rule ToUint8Clamp_of_nat)
  have se: "sort ?w = [] \<longleftrightarrow> ?w = []"
    by (metis length_sort length_0_conv)
  have "(if sort ?w = [] then 0 else real (sort ?w ! (length (sort ?w) div 2)))
     = real (middle ?w)"
    by (cases "?w = []") (simp_all add: middle_def se)
  with \<open>ToUint8Clamp (real (middle ?w)) = middle ?w\<close> show ?thesis by simp
qed

lemma medianFilter_paint:
  assumes ok: "img_ok s img"
  shows "\<exists>t. medianFilter img sz s =
        Inr (t, \<lparr>width = width img, height = height img, data = length (u8 s)\<rparr>) \<and>
     frame (length (u8 s)) (s\<lparr>u8 := u8 s @ [u8 s ! data img]\<rparr>) t \<and>
     (\<forall>j. rd t (length (u8 s)) j =
        (if j < width img * height img * 4 \<and> j mod 4 \<noteq> 3
         then middle (median_window s img (sz div 2)
                 ((j div 4) mod width img) ((j div 4) div width img) (j mod 4))
         else rd s (data img) j))"
proof -
  let ?a = "length (u8 s)"
  let ?s1 = "s\<lparr>u8 := u8 s @ [u8 s ! data img]\<rparr>"
  let ?w = "width img" and ?h = "height img"
  let ?out = "\<lparr>width = ?w, height = ?h, data = ?a\<rparr>"
  let ?half = "sz div 2"
  define val where "val x y c =
     (if sort (median_window s img ?half x y c) = [] then 0
      else real (sort (median_window s img ?half x y c)
                  ! (length (sort (median_window s img ?half x y c)) div 2)))" for x y c
  let ?body = "\<lambda>y x. median_pixel img ?a ?half y x"
  have a: "?a < length (u8 ?s1)" by simp
  have w0: "0 < ?w" and di: "data img < ?a" and len: "length (u8 s ! data img) = ?w * ?h * 4"
    using ok by (simp_all add: img_ok_def)
  have body: "?body y x t = set_rgb ?a (4 * (y * ?w + x)) (val x y 0) (val x y 1) (val x y 2) t"
    if fr: "frame ?a ?s1 t" for y x t
  proof -
    have r: "rd t (data img) j = rd s (data img) j" for j
    proof -
      have "data img \<noteq> ?a" using di by simp
      with fr have "rd t (data img) j = rd ?s1 (data img) j" by (rule frame_rd)
      then show ?thesis using di by (simp add: clone_rd_old)
    qed
    have mw: "median_window t img ?half x y c = median_window s img ?half x y c" for c
      by (rule median_window_cong) (rule r)
    have "?body y x t = fold (\<lambda>c. wr ?a ((y * ?w + x) * 4 + c) (val x y c)) [0..<3] t"
      unfolding median_pixel_def Let_def mw val_def ..
    also have "\<dots> = set_rgb ?a ((y * ?w + x) * 4) (val x y 0) (val x y 1) (val x y 2) t"
      by (rule fold_wr3)
    finally show ?thesis by (simp only: mult.commute[of _ 4])
  qed
  let ?t = "fold (\<lambda>y. fold (\<lambda>x. ?body y x) [0..<?w]) [0..<?h] ?s1"
  have P: "frame ?a ?s1 ?t \<and>
    (\<forall>j. rd ?t ?a j =
       (if j < length (u8 ?s1 ! ?a) \<and> (j div 4) mod ?w < ?w \<and> (j div 4) div ?w < ?h \<and> j mod 4 \<noteq> 3
        then ToUint8Clamp
          (if j mod 4 = 0 then val ((j div 4) mod ?w) ((j div 4) div ?w) 0
           else if j mod 4 = 1 then val ((j div 4) mod ?w) ((j div 4) div ?w) 1
           else val ((j div 4) mod ?w) ((j div 4) div ?w) 2)
        else rd ?s1 ?a j))"
    by (rule paint_grid[OF a le_refl, where R = "\<lambda>y x. val x y 0" and G = "\<lambda>y x. val x y 1"
          and B = "\<lambda>y x. val x y 2"]) (rule body)
  have res: "medianFilter img sz s = Inr (?t, ?out)"
    by (simp add: medianFilter_def cloneImageData_ok[OF ok] Let_def)
  have vals: "rd ?t ?a j =
        (if j < ?w * ?h * 4 \<and> j mod 4 \<noteq> 3
         then middle (median_window s img ?half ((j div 4) mod ?w) ((j div 4) div ?w) (j mod 4))
         else rd s (data img) j)" for j
  proof -
    have c: "j mod 4 = 0 \<or> j mod 4 = 1 \<or> j mod 4 = 2 \<or> j mod 4 = 3" by presburger
    have "rd ?t ?a j =
       (if j < ?w * ?h * 4 \<and> (j div 4) mod ?w < ?w \<and> (j div 4) div ?w < ?h \<and> j mod 4 \<noteq> 3
        then ToUint8Clamp
          (if j mod 4 = 0 then val ((j div 4) mod ?w) ((j div 4) div ?w) 0
           else if j mod 4 = 1 then val ((j div 4) mod ?w) ((j div 4) div ?w) 1
           else val ((j div 4) mod ?w) ((j div 4) div ?w) 2)
        else rd s (data img) j)"
      using P by (simp add: len)
    then have e: "rd ?t ?a j =
       (if j < ?w * ?h * 4 \<and> j mod 4 \<noteq> 3
        then ToUint8Clamp
          (if j mod 4 = 0 then val ((j div 4) mod ?w) ((j div 4) div ?w) 0
           else if j mod 4 = 1 then val ((j div 4) mod ?w) ((j div 4) div ?w) 1
           else val ((j div 4) mod ?w) ((j div 4) div ?w) 2)
        else rd s (data img) j)"
      unfolding grid_cond[OF w0] .
    have v: "ToUint8Clamp (val x y c) = middle (median_window s img ?half x y c)" for x y c
      unfolding val_def by (rule median_store)
    from c show ?thesis
      unfolding e by (elim disjE) (simp_all add: v)
  qed
  show ?thesis using res P vals by blast
qed

lemma medianFilter_samples:
  assumes ok: "img_ok s img"
  shows "\<exists>s'. medianFilter img sz s =
        Inr (s', \<lparr>width = width img, height = height img, data = length (u8 s)\<rparr>) \<and>
     fresh_image s (width img) (height img) s'
        \<lparr>width = width img, height = height img, data = length (u8 s)\<rparr> \<and>
     (\<forall>x<width img. \<forall>y<height img. \<forall>c<3.
        rd s' (length (u8 s)) ((y * width img + x) * 4 + c) =
          middle (median_window s img (sz div 2) x y c))"
proof -
  let ?w = "width img" and ?h = "height img"
  from medianFilter_paint[OF ok, of sz] obtain t where
    t: "medianFilter img sz s = Inr (t, \<lparr>width = ?w, height = ?h, data = length (u8 s)\<rparr>)"
    and fr: "frame (length (u8 s)) (s\<lparr>u8 := u8 s @ [u8 s ! data img]\<rparr>) t"
    and v: "\<And>j. rd t (length (u8 s)) j =
        (if j < ?w * ?h * 4 \<and> j mod 4 \<noteq> 3
         then middle (median_window s img (sz div 2) ((j div 4) mod ?w) ((j div 4) div ?w) (j mod 4))
         else rd s (data img) j)" by blast
  note fc = frame_clone[OF ok fr]
  have "rd t (length (u8 s)) ((y * ?w + x) * 4 + c) = middle (median_window s img (sz div 2) x y c)"
    if x: "x < ?w" and y: "y < ?h" and c: "c < 3" for x y c
  proof -
    let ?j = "(y * ?w + x) * 4 + c"
    have p: "y * ?w + x < ?w * ?h" using x y by (rule pixel_index(2))
    have j: "?j < ?w * ?h * 4" using p c by simp
    have "(q * 4 + c) div 4 = q" "(q * 4 + c) mod 4 = c" for q :: nat using c by simp_all
    then have d: "?j div 4 = y * ?w + x" "?j mod 4 = c" by blast+
    have m: "(y * ?w + x) mod ?w = x" "(y * ?w + x) div ?w = y" using x by simp_all
    show ?thesis unfolding v using j c by (simp only: d m) simp
  qed
  then show ?thesis using t fc(4) by blast
qed

text \<open>The gathered window, offset by offset.\<close>

lemma concat_map_product:
  "concat (map (\<lambda>a. map (f a) ys) xs) = map (\<lambda>(a, b). f a b) (List.product xs ys)"
  by (induction xs) simp_all

lemma median_window_product:
  "median_window s img half x y c =
     map (\<lambda>(dy, dx). rd s (data img)
            ((nat (min (int (height img) - 1) (max 0 (int y + dy))) * width img
              + nat (min (int (width img) - 1) (max 0 (int x + dx)))) * 4 + c))
         (List.product [- half..half] [- half..half])"
  unfolding median_window_def Let_def clampc_def by (rule concat_map_product)

lemma upto_length: "length [- k..k] = nat (2 * k + 1)"
  by simp

lemma window_side:
  fixes sz :: int
  assumes "0 \<le> sz"
  shows "length [- (sz div 2)..sz div 2] = (if odd sz then nat sz else nat sz + 1)"
proof (cases "odd sz")
  case True
  then have "2 * (sz div 2) + 1 = sz" by (rule odd_two_times_div_two_succ)
  then show ?thesis using True by simp
next
  case False
  then have "2 * (sz div 2) = sz" by simp
  then have "nat (2 * (sz div 2) + 1) = nat sz + 1" using assms by (simp add: nat_add_distrib)
  then show ?thesis using False by simp
qed

text \<open>
  Claim C8, as the code has it. For a requested size that is not negative, with
  \<open>half = \<lfloor>size / 2\<rfloor>\<close>, the median filter gathers for each pixel \<open>(x, y)\<close> and each of the
  three colour channels the samples of the pixels at the offsets \<open>-half..half\<close> in both
  directions, each coordinate clamped onto the image, sorts them and stores the element
  at index \<open>\<lfloor>count / 2\<rfloor>\<close>. The window has \<open>2 half + 1\<close> offsets a side: that is size for
  an odd size, and the element stored is the one in the middle; it is size + 1 for an
  even size, so the count is odd then as well.
\<close>

theorem medianFilter_middle_of_window:
  assumes "img_ok s img" and "0 \<le> sz"
  shows "\<exists>s' out. medianFilter img sz s = Inr (s', out) \<and>
     (\<forall>x<width img. \<forall>y<height img. \<forall>c<3.
        rd s' (data out) ((y * width img + x) * 4 + c) =
          sort (map (\<lambda>(dy, dx). rd s (data img)
                  ((nat (min (int (height img) - 1) (max 0 (int y + dy))) * width img
                    + nat (min (int (width img) - 1) (max 0 (int x + dx)))) * 4 + c))
                (List.product [- (sz div 2)..sz div 2] [- (sz div 2)..sz div 2]))
            ! ((length [- (sz div 2)..sz div 2] * length [- (sz div 2)..sz div 2]) div 2)) \<and>
     length [- (sz div 2)..sz div 2] = (if odd sz then nat sz else nat sz + 1)"
proof -
  let ?half = "sz div 2"
  let ?out = "\<lparr>width = width img, height = height img, data = length (u8 s)\<rparr>"
  let ?win = "\<lambda>x y c. map (\<lambda>(dy, dx). rd s (data img)
                  ((nat (min (int (height img) - 1) (max 0 (int y + dy))) * width img
                    + nat (min (int (width img) - 1) (max 0 (int x + dx)))) * 4 + c))
                (List.product [- ?half..?half] [- ?half..?half])"
  from medianFilter_samples[OF assms(1), of sz] obtain s' where
    r: "medianFilter img sz s = Inr (s', ?out)"
    and v: "\<And>x y c. x < width img \<Longrightarrow> y < height img \<Longrightarrow> c < 3 \<Longrightarrow>
        rd s' (length (u8 s)) ((y * width img + x) * 4 + c) =
          middle (median_window s img ?half x y c)" by blast
  have h0: "0 \<le> ?half" using assms(2) by simp
  then have ne: "[- ?half..?half] \<noteq> []" by (simp add: upto_Nil)
  have px: "rd s' (length (u8 s)) ((y * width img + x) * 4 + c) =
       sort (?win x y c) ! ((length [- ?half..?half] * length [- ?half..?half]) div 2)"
    if "x < width img" "y < height img" "c < 3" for x y c
  proof -
    have w: "median_window s img ?half x y c = ?win x y c" by (rule median_window_product)
    have l: "length (?win x y c) = length [- ?half..?half] * length [- ?half..?half]"
      by (simp only: length_map length_product)
    have "?win x y c \<noteq> []" using ne l by (metis length_0_conv mult_is_0)
    then have "middle (?win x y c) = sort (?win x y c) ! (length (?win x y c) div 2)"
      by (simp add: middle_def)
    then show ?thesis using v[OF that] by (simp only: w l)
  qed
  show ?thesis
  proof (rule exI[of _ s'], rule exI[of _ ?out], intro conjI)
    show "medianFilter img sz s = Inr (s', ?out)" by (fact r)
    show "\<forall>x<width img. \<forall>y<height img. \<forall>c<3.
        rd s' (data ?out) ((y * width img + x) * 4 + c) =
          sort (?win x y c) ! ((length [- ?half..?half] * length [- ?half..?half]) div 2)"
      unfolding ImageData.select_convs by (intro allI impI) (rule px)
    show "length [- ?half..?half] = (if odd sz then nat sz else nat sz + 1)"
      using assms(2) by (rule window_side)
  qed
qed

text \<open>The theorem at the corner of a two-by-two image whose red samples are 9 1 / 4 6,
  at size 3: the clamped window is 9 9 1 / 9 9 1 / 4 4 6 and its middle is 6.\<close>

theorem medianFilter_middle_of_window_witness:
  "img_ok \<lparr>u8 = [[9, 0, 0, 255, 1, 0, 0, 255, 4, 0, 0, 255, 6, 0, 0, 255]], f64 = []\<rparr>
      \<lparr>width = 2, height = 2, data = 0\<rparr> \<and>
   0 \<le> (3::int) \<and>
   (\<exists>s' out. medianFilter \<lparr>width = 2, height = 2, data = 0\<rparr> 3
        \<lparr>u8 = [[9, 0, 0, 255, 1, 0, 0, 255, 4, 0, 0, 255, 6, 0, 0, 255]], f64 = []\<rparr> = Inr (s', out) \<and>
      rd s' (data out) 0 = 6)"
proof -
  let ?s = "\<lparr>u8 = [[9, 0, 0, 255, 1, 0, 0, 255, 4, 0, 0, 255, 6, 0, 0, 255]], f64 = []\<rparr>"
  let ?img = "\<lparr>width = 2, height = 2, data = 0\<rparr>"
  have h: "img_ok ?s ?img" by (simp add: img_ok_def)
  have z: "0 \<le> (3::int)" by simp
  from medianFilter_middle_of_window[OF h z] obtain s' out where
    r: "medianFilter ?img 3 ?s = Inr (s', out)"
    and v: "\<forall>x<width ?img. \<forall>y<height ?img. \<forall>c<3.
        rd s' (data out) ((y * width ?img + x) * 4 + c) =
          sort (map (\<lambda>(dy, dx). rd ?s (data ?img)
                  ((nat (min (int (height ?img) - 1) (max 0 (int y + dy))) * width ?img
                    + nat (min (int (width ?img) - 1) (max 0 (int x + dx)))) * 4 + c))
                (List.product [- (3 div 2)..3 div 2] [- (3 div 2)..3 div 2]))
            ! ((length [- (3 div 2)..3 div (2::int)] * length [- (3 div 2)..3 div (2::int)]) div 2)"
    by blast
  have u: "[- (3 div 2)..3 div (2::int)] = [- 1, 0, 1]" by (simp add: upto_rec1)
  have "rd s' (data out) ((0 * width ?img + 0) * 4 + 0) =
          sort (map (\<lambda>(dy, dx). rd ?s (data ?img)
                  ((nat (min (int (height ?img) - 1) (max 0 (int 0 + dy))) * width ?img
                    + nat (min (int (width ?img) - 1) (max 0 (int 0 + dx)))) * 4 + 0))
                (List.product [- (3 div 2)..3 div 2] [- (3 div 2)..3 div 2]))
            ! ((length [- (3 div 2)..3 div (2::int)] * length [- (3 div 2)..3 div (2::int)]) div 2)"
    using v[rule_format, of 0 0 0] by simp
  also have "\<dots> = 6" unfolding u by (simp add: rd_def)
  finally have "rd s' (data out) 0 = 6" by simp
  with h z r show ?thesis by blast
qed

text \<open>
  The claim as the specification states it fails for an even size. At size 2 the filter
  gathers the three-by-three neighbourhood, nine samples and not four; on the image whose
  red samples are 5 1 3 / 2 9 4 / 6 7 8 it stores 5 at the centre, the median of all
  nine, where the lower middle of each two-by-two block around the centre is 2, 3, 6
  or 7.
\<close>

theorem medianFilter_even_size_counterexample:
  "(case medianFilter \<lparr>width = 3, height = 3, data = 0\<rparr> 2
      \<lparr>u8 = [[5, 0, 0, 255, 1, 0, 0, 255, 3, 0, 0, 255,
               2, 0, 0, 255, 9, 0, 0, 255, 4, 0, 0, 255,
               6, 0, 0, 255, 7, 0, 0, 255, 8, 0, 0, 255]], f64 = []\<rparr> of
      Inl e \<Rightarrow> None
    | Inr (s', out) \<Rightarrow> Some (rd s' (data out) 16)) = Some 5 \<and>
   sort [5, 1, 2, 9 :: nat] ! 1 = 2 \<and> sort [1, 3, 9, 4 :: nat] ! 1 = 3 \<and>
   sort [2, 9, 6, 7 :: nat] ! 1 = 6 \<and> sort [9, 4, 7, 8 :: nat] ! 1 = 7"
proof -
  let ?s = "\<lparr>u8 = [[5, 0, 0, 255, 1, 0, 0, 255, 3, 0, 0, 255,
               2, 0, 0, 255, 9, 0, 0, 255, 4, 0, 0, 255,
               6, 0, 0, 255, 7, 0, 0, 255, 8, 0, 0, 255]], f64 = []\<rparr>"
  let ?img = "\<lparr>width = 3, height = 3, data = 0\<rparr>"
  have h: "img_ok ?s ?img" by (simp add: img_ok_def)
  have w: "median_window ?s ?img (2 div 2) 1 1 0 = [5, 1, 3, 2, 9, 4, 6, 7, 8]"
    by (simp add: median_window_def clampc_def rd_def upto_rec1)
  from medianFilter_samples[OF h, of 2] obtain s' where
    r: "medianFilter ?img 2 ?s = Inr (s', \<lparr>width = 3, height = 3, data = 1\<rparr>)"
    and v: "\<And>x y c. x < 3 \<Longrightarrow> y < 3 \<Longrightarrow> c < 3 \<Longrightarrow>
        rd s' 1 ((y * 3 + x) * 4 + c) = middle (median_window ?s ?img (2 div 2) x y c)"
    by auto
  have "rd s' 1 ((1 * 3 + 1) * 4 + 0) = middle (median_window ?s ?img (2 div 2) 1 1 0)"
    by (rule v) simp_all
  then have c: "rd s' 1 16 = 5" unfolding w by (simp add: middle_def)
  have 2: "(case medianFilter ?img 2 ?s of Inl e \<Rightarrow> None
      | Inr (s', out) \<Rightarrow> Some (rd s' (data out) 16)) = Some 5"
    unfolding r using c by simp
  have 3: "sort [5, 1, 2, 9 :: nat] ! 1 = 2" "sort [1, 3, 9, 4 :: nat] ! 1 = 3"
    "sort [2, 9, 6, 7 :: nat] ! 1 = 6" "sort [9, 4, 7, 8 :: nat] ! 1 = 7" by simp_all
  show ?thesis by (intro conjI 2 3)
qed

section \<open>Gradient edge detectors\<close>

lemma toGrayscale_result:
  assumes ok: "img_ok s img"
  shows "\<exists>s1. toGrayscale img s =
        Inr (s1, \<lparr>width = width img, height = height img, data = length (u8 s)\<rparr>) \<and>
     extends s s1 \<and> length (u8 s1) = Suc (length (u8 s)) \<and>
     img_ok s1 \<lparr>width = width img, height = height img, data = length (u8 s)\<rparr> \<and>
     fresh_image s (width img) (height img) s1
       \<lparr>width = width img, height = height img, data = length (u8 s)\<rparr> \<and>
     (\<forall>j. rd s1 (length (u8 s)) j =
        (if j < width img * height img * 4 \<and> j mod 4 \<noteq> 3 then luma s img (j div 4)
         else rd s (data img) j))"
proof -
  from toGrayscale_paint[OF ok] obtain t where
    t: "toGrayscale img s = Inr (t, \<lparr>width = width img, height = height img, data = length (u8 s)\<rparr>)"
    and fr: "frame (length (u8 s)) (s\<lparr>u8 := u8 s @ [u8 s ! data img]\<rparr>) t"
    and v: "\<forall>j. rd t (length (u8 s)) j =
        (if j < width img * height img * 4 \<and> j mod 4 \<noteq> 3 then luma s img (j div 4)
         else rd s (data img) j)" by blast
  note fc = frame_clone[OF ok fr]
  show ?thesis by (rule exI[of _ t]) (intro conjI t fc v)
qed

lemma convolve_result:
  assumes ok: "img_ok s img" and k: "kern \<noteq> []"
  shows "\<exists>s1. convolve img kern nrm s =
        Inr (s1, \<lparr>width = width img, height = height img, data = length (u8 s)\<rparr>) \<and>
     extends s s1 \<and> length (u8 s1) = Suc (length (u8 s)) \<and>
     img_ok s1 \<lparr>width = width img, height = height img, data = length (u8 s)\<rparr> \<and>
     fresh_image s (width img) (height img) s1
       \<lparr>width = width img, height = height img, data = length (u8 s)\<rparr> \<and>
     (\<forall>j. rd s1 (length (u8 s)) j =
        (if j < width img * height img * 4 \<and> j mod 4 \<noteq> 3
         then convolve_value s img kern nrm ((j div 4) mod width img) ((j div 4) div width img) (j mod 4)
         else rd s (data img) j))"
proof -
  from convolve_paint[OF ok k, of nrm] obtain t where
    t: "convolve img kern nrm s = Inr (t, \<lparr>width = width img, height = height img, data = length (u8 s)\<rparr>)"
    and fr: "frame (length (u8 s)) (s\<lparr>u8 := u8 s @ [u8 s ! data img]\<rparr>) t"
    and v: "\<forall>j. rd t (length (u8 s)) j =
        (if j < width img * height img * 4 \<and> j mod 4 \<noteq> 3
         then convolve_value s img kern nrm ((j div 4) mod width img) ((j div 4) div width img) (j mod 4)
         else rd s (data img) j)" by blast
  note fc = frame_clone[OF ok fr]
  show ?thesis by (rule exI[of _ t]) (intro conjI t fc v)
qed

lemma convolve_value_cong:
  assumes "\<And>j. rd t (data img) j = rd s (data img) j"
  shows "convolve_value t img kern nrm x y c = convolve_value s img kern nrm x y c"
proof -
  have "convolve_sums t img kern x y = convolve_sums s img kern x y"
    using assms by (rule convolve_sums_cong)
  then show ?thesis by (simp add: convolve_value_def)
qed

lemma fresh_image_weaken:
  "fresh_image t w h s' out \<Longrightarrow> extends s t \<Longrightarrow> fresh_image s w h s' out"
  using extends_length[of s t] by (auto simp: fresh_image_def intro: extends_trans)

lemma gradientFilter_paint:
  assumes ok: "img_ok s img" and kx: "kx \<noteq> []" and ky: "ky \<noteq> []"
  shows "\<exists>s1 s'.
     toGrayscale img s = Inr (s1, \<lparr>width = width img, height = height img, data = length (u8 s)\<rparr>) \<and>
     gradientFilter kx ky img s =
        Inr (s', \<lparr>width = width img, height = height img, data = length (u8 s) + 3\<rparr>) \<and>
     fresh_image s (width img) (height img) s'
        \<lparr>width = width img, height = height img, data = length (u8 s) + 3\<rparr> \<and>
     (\<forall>j. rd s' (length (u8 s) + 3) j =
        (if j < width img * height img * 4 \<and> j mod 4 \<noteq> 3
         then ToUint8Clamp (min 255 (Math_sqrt (fadd (fmul (real (convolve_value s1 \<lparr>width = width img, height = height img, data = length (u8 s)\<rparr> kx False ((j div 4) mod width img) ((j div 4) div width img) 0))
                 (real (convolve_value s1 \<lparr>width = width img, height = height img, data = length (u8 s)\<rparr> kx False ((j div 4) mod width img) ((j div 4) div width img) 0)))
           (fmul (real (convolve_value s1 \<lparr>width = width img, height = height img, data = length (u8 s)\<rparr> ky False ((j div 4) mod width img) ((j div 4) div width img) 0))
                 (real (convolve_value s1 \<lparr>width = width img, height = height img, data = length (u8 s)\<rparr> ky False ((j div 4) mod width img) ((j div 4) div width img) 0))))))
         else rd s (data img) j))"
proof -
  let ?w = "width img" and ?h = "height img"
  let ?b = "length (u8 s)"
  let ?N = "?w * ?h"
  let ?gray = "\<lparr>width = ?w, height = ?h, data = ?b\<rparr>"
  have w0: "0 < ?w" and di: "data img < ?b" and len: "length (u8 s ! data img) = ?N * 4"
    using ok by (simp_all add: img_ok_def)
  from toGrayscale_result[OF ok] obtain s1 where
    g1: "toGrayscale img s = Inr (s1, ?gray)" and ex1: "extends s s1"
    and l1: "length (u8 s1) = Suc ?b" and okg: "img_ok s1 ?gray" by blast
  let ?gx = "\<lparr>width = ?w, height = ?h, data = Suc ?b\<rparr>"
  from convolve_result[OF okg kx, of False] obtain s2 where
    c1: "convolve ?gray kx False s1 = Inr (s2, ?gx)" and ex2: "extends s1 s2"
    and l2: "length (u8 s2) = Suc (Suc ?b)"
    and v2: "\<And>j. rd s2 (Suc ?b) j =
        (if j < ?N * 4 \<and> j mod 4 \<noteq> 3
         then convolve_value s1 ?gray kx False ((j div 4) mod ?w) ((j div 4) div ?w) (j mod 4)
         else rd s1 ?b j)"
    by (auto simp: l1)
  have okg2: "img_ok s2 ?gray" using okg ex2 by (rule img_ok_extends)
  let ?gy = "\<lparr>width = ?w, height = ?h, data = Suc (Suc ?b)\<rparr>"
  from convolve_result[OF okg2 ky, of False] obtain s3 where
    c2: "convolve ?gray ky False s2 = Inr (s3, ?gy)" and ex3: "extends s2 s3"
    and l3: "length (u8 s3) = Suc (Suc (Suc ?b))"
    and v3: "\<And>j. rd s3 (Suc (Suc ?b)) j =
        (if j < ?N * 4 \<and> j mod 4 \<noteq> 3
         then convolve_value s2 ?gray ky False ((j div 4) mod ?w) ((j div 4) div ?w) (j mod 4)
         else rd s2 ?b j)"
    by (auto simp: l2)
  have ex13: "extends s1 s3" using ex2 ex3 by (rule extends_trans)
  have ex03: "extends s s3" using ex1 ex13 by (rule extends_trans)
  have ok3: "img_ok s3 img" using ok ex03 by (rule img_ok_extends)
  have sr: "convolve_value s2 ?gray ky False x y c = convolve_value s1 ?gray ky False x y c" for x y c
    by (rule convolve_value_cong) (simp add: extends_rd[OF ex2] l1)
  let ?a = "length (u8 s3)"
  let ?s4 = "s3\<lparr>u8 := u8 s3 @ [u8 s3 ! data img]\<rparr>"
  let ?out = "\<lparr>width = ?w, height = ?h, data = ?a\<rparr>"
  have a: "?a < length (u8 ?s4)" by simp
  have len3: "length (u8 s3 ! data img) = ?N * 4"
    using len di by (simp add: extends_nth[OF ex03])
  have len4: "length (u8 ?s4 ! ?a) = ?N * 4"
    using len3 by simp
  define mag where "mag p = min 255 (Math_sqrt (fadd (fmul (real (convolve_value s1 ?gray kx False (p mod ?w) (p div ?w) 0))
                 (real (convolve_value s1 ?gray kx False (p mod ?w) (p div ?w) 0)))
           (fmul (real (convolve_value s1 ?gray ky False (p mod ?w) (p div ?w) 0))
                 (real (convolve_value s1 ?gray ky False (p mod ?w) (p div ?w) 0)))))" for p
  let ?body = "\<lambda>p. magnitude_pixel ?gx ?gy ?a (4 * p)"
  let ?V = "\<lambda>j. ToUint8Clamp (mag (j div 4))"
  let ?t = "fold ?body [0..<?N] ?s4"
  have P: "frame ?a ?s4 ?t \<and>
    (\<forall>j. rd ?t ?a j =
       (if j < length (u8 ?s4 ! ?a) \<and> j div 4 \<in> (\<lambda>p. p) ` set [0..<?N] \<and> j mod 4 \<noteq> 3
        then ?V j else rd ?s4 ?a j))"
  proof (rule paint_fold[OF a, where pix = "\<lambda>p. p" and V = ?V])
    show "distinct (map (\<lambda>p. p) [0..<?N])" by simp
  next
    fix p t
    assume p: "p \<in> set [0..<?N]" and fr: "frame ?a ?s4 t"
    have pN: "4 * p < ?N * 4" using p by simp
    have d: "(4 * p) div 4 = p" "(4 * p) mod 4 = 0" by simp_all
    have "rd t (Suc ?b) (4 * p) = rd ?s4 (Suc ?b) (4 * p)"
      using fr by (rule frame_rd) (simp add: l3)
    also have "\<dots> = rd s3 (Suc ?b) (4 * p)" by (simp add: clone_rd_old l3)
    also have "\<dots> = rd s2 (Suc ?b) (4 * p)" by (simp add: extends_rd[OF ex3] l2)
    also have "\<dots> = convolve_value s1 ?gray kx False (p mod ?w) (p div ?w) 0"
      using pN by (simp add: v2 d)
    finally have rx: "rd t (Suc ?b) (4 * p) = convolve_value s1 ?gray kx False (p mod ?w) (p div ?w) 0" .
    have "rd t (Suc (Suc ?b)) (4 * p) = rd ?s4 (Suc (Suc ?b)) (4 * p)"
      using fr by (rule frame_rd) (simp add: l3)
    also have "\<dots> = rd s3 (Suc (Suc ?b)) (4 * p)" by (simp add: clone_rd_old l3)
    also have "\<dots> = convolve_value s1 ?gray ky False (p mod ?w) (p div ?w) 0"
      using pN by (simp add: v3 d sr)
    finally have ry: "rd t (Suc (Suc ?b)) (4 * p) = convolve_value s1 ?gray ky False (p mod ?w) (p div ?w) 0" .
    have b: "?body p t = set_rgb ?a (4 * p) (mag p) (mag p) (mag p) t"
      by (simp add: magnitude_pixel_def rx ry mag_def Let_def)
    show "frame ?a t (?body p t) \<and>
        (\<forall>j. rd (?body p t) ?a j =
           (if j < length (u8 ?s4 ! ?a) \<and> j div 4 = p \<and> j mod 4 \<noteq> 3 then ?V j else rd t ?a j))"
      unfolding b using set_rgb_effect[OF fr a, of p "mag p" "mag p" "mag p"]
      by auto
  qed
  then have fr: "frame ?a ?s4 ?t" and
    rds: "\<And>j. rd ?t ?a j =
       (if j < length (u8 ?s4 ! ?a) \<and> j div 4 \<in> (\<lambda>p. p) ` set [0..<?N] \<and> j mod 4 \<noteq> 3
        then ?V j else rd ?s4 ?a j)" by blast+
  have res: "gradientFilter kx ky img s = Inr (?t, ?out)"
    by (simp add: gradientFilter_def g1 c1 c2 cloneImageData_ok[OF ok3] len3 del: fold_simps)
  note fc = frame_clone[OF ok3 fr]
  have fi: "fresh_image s ?w ?h ?t ?out" using fc(4) ex03 by (rule fresh_image_weaken)
  have vals: "rd ?t ?a j =
        (if j < ?N * 4 \<and> j mod 4 \<noteq> 3 then ToUint8Clamp (mag (j div 4)) else rd s (data img) j)" for j
  proof -
    have "j < ?N * 4 \<Longrightarrow> j div 4 < ?N" by auto
    moreover have "rd ?s4 ?a j = rd s (data img) j"
      using di by (simp add: extends_rd[OF ex03])
    ultimately show ?thesis unfolding rds by (auto simp: len3)
  qed
  have a3: "?a = ?b + 3" by (simp add: l3)
  show ?thesis
    apply (rule exI[of _ s1], rule exI[of _ ?t])
    using g1 res fi vals unfolding a3 mag_def by simp
qed

lemma robertsFilter_paint:
  assumes ok: "img_ok s img"
  shows "\<exists>s'.
     robertsFilter img s =
        Inr (s', \<lparr>width = width img, height = height img, data = length (u8 s) + 1\<rparr>) \<and>
     fresh_image s (width img) (height img) s'
        \<lparr>width = width img, height = height img, data = length (u8 s) + 1\<rparr> \<and>
     (\<forall>j. rd s' (length (u8 s) + 1) j =
        (if j < width img * height img * 4 \<and> (j div 4) mod width img < width img - 1 \<and>
            (j div 4) div width img < height img - 1 \<and> j mod 4 \<noteq> 3
         then ToUint8Clamp (roberts_magnitude s img ((j div 4) mod width img) ((j div 4) div width img))
         else rd s (data img) j))"
proof -
  let ?w = "width img" and ?h = "height img"
  let ?b = "length (u8 s)"
  let ?N = "?w * ?h"
  let ?gray = "\<lparr>width = ?w, height = ?h, data = ?b\<rparr>"
  have w0: "0 < ?w" and di: "data img < ?b" and len: "length (u8 s ! data img) = ?N * 4"
    using ok by (simp_all add: img_ok_def)
  from toGrayscale_result[OF ok] obtain s1 where
    g1: "toGrayscale img s = Inr (s1, ?gray)" and ex1: "extends s s1"
    and l1: "length (u8 s1) = Suc ?b"
    and v1: "\<And>j. rd s1 ?b j =
        (if j < ?N * 4 \<and> j mod 4 \<noteq> 3 then luma s img (j div 4) else rd s (data img) j)"
    by blast
  have ok1: "img_ok s1 img" using ok ex1 by (rule img_ok_extends)
  let ?a = "length (u8 s1)"
  let ?s2 = "s1\<lparr>u8 := u8 s1 @ [u8 s1 ! data img]\<rparr>"
  let ?out = "\<lparr>width = ?w, height = ?h, data = ?a\<rparr>"
  have a: "?a < length (u8 ?s2)" by simp
  have len1: "length (u8 s1 ! data img) = ?N * 4"
    using len di by (simp add: extends_nth[OF ex1])
  let ?body = "\<lambda>y x. roberts_pixel img ?gray ?a y x"
  have body: "?body y x t = set_rgb ?a (4 * (y * ?w + x)) (roberts_magnitude s img x y)
       (roberts_magnitude s img x y) (roberts_magnitude s img x y) t"
    if y: "y < ?h - 1" and x: "x < ?w - 1" and fr: "frame ?a ?s2 t" for y x t
  proof -
    have lum: "rd t ?b (4 * p) = luma s img p" if "p < ?N" for p
    proof -
      have "rd t ?b (4 * p) = rd ?s2 ?b (4 * p)"
        using fr by (rule frame_rd) (simp add: l1)
      also have "\<dots> = rd s1 ?b (4 * p)" by (simp add: clone_rd_old l1)
      also have "\<dots> = luma s img p" using that by (simp add: v1)
      finally show ?thesis .
    qed
    have x1: "x + 1 < ?w" "x < ?w" and y1: "y + 1 < ?h" "y < ?h" using x y by simp_all
    have p: "y * ?w + x < ?N" "y * ?w + x + 1 < ?N" "(y + 1) * ?w + x < ?N" "(y + 1) * ?w + x + 1 < ?N"
      using pixel_index(2)[OF x1(2) y1(2)] pixel_index(2)[OF x1(1) y1(2)]
        pixel_index(2)[OF x1(2) y1(1)] pixel_index(2)[OF x1(1) y1(1)]
      by (simp_all add: add.assoc)
    show ?thesis
      unfolding roberts_pixel_def roberts_magnitude_def Let_def
      by (simp only: lum[OF p(1)] lum[OF p(2)] lum[OF p(3)] lum[OF p(4)]
            ImageData.simps dims.simps mult.commute[of _ 4])
  qed
  let ?t = "fold (\<lambda>y. fold (\<lambda>x. ?body y x) [0..<?w - 1]) [0..<?h - 1] ?s2"
  have P: "frame ?a ?s2 ?t \<and>
    (\<forall>j. rd ?t ?a j =
       (if j < length (u8 ?s2 ! ?a) \<and> (j div 4) mod ?w < ?w - 1 \<and> (j div 4) div ?w < ?h - 1 \<and> j mod 4 \<noteq> 3
        then ToUint8Clamp
          (if j mod 4 = 0 then roberts_magnitude s img ((j div 4) mod ?w) ((j div 4) div ?w)
           else if j mod 4 = 1 then roberts_magnitude s img ((j div 4) mod ?w) ((j div 4) div ?w)
           else roberts_magnitude s img ((j div 4) mod ?w) ((j div 4) div ?w))
        else rd ?s2 ?a j))"
    by (rule paint_grid[OF a, where R = "\<lambda>y x. roberts_magnitude s img x y"
          and G = "\<lambda>y x. roberts_magnitude s img x y"
          and B = "\<lambda>y x. roberts_magnitude s img x y"]) (simp, rule body)
  then have fr: "frame ?a ?s2 ?t" and
    rds: "\<And>j. rd ?t ?a j =
       (if j < length (u8 ?s2 ! ?a) \<and> (j div 4) mod ?w < ?w - 1 \<and> (j div 4) div ?w < ?h - 1 \<and> j mod 4 \<noteq> 3
        then ToUint8Clamp (roberts_magnitude s img ((j div 4) mod ?w) ((j div 4) div ?w))
        else rd ?s2 ?a j)" by simp_all
  have res: "robertsFilter img s = Inr (?t, ?out)"
    by (simp add: robertsFilter_def g1 cloneImageData_ok[OF ok1] del: fold_simps)
  note fc = frame_clone[OF ok1 fr]
  have fi: "fresh_image s ?w ?h ?t ?out" using fc(4) ex1 by (rule fresh_image_weaken)
  have vals: "rd ?t ?a j =
        (if j < ?N * 4 \<and> (j div 4) mod ?w < ?w - 1 \<and> (j div 4) div ?w < ?h - 1 \<and> j mod 4 \<noteq> 3
         then ToUint8Clamp (roberts_magnitude s img ((j div 4) mod ?w) ((j div 4) div ?w))
         else rd s (data img) j)" for j
  proof -
    have "rd ?s2 ?a j = rd s (data img) j"
      using di by (simp add: extends_rd[OF ex1])
    then show ?thesis unfolding rds by (simp add: len1)
  qed
  have a1: "?a = ?b + 1" by (simp add: l1)
  show ?thesis
    apply (rule exI[of _ ?t])
    using res fi vals unfolding a1 by simp
qed

lemma rgb_painted:
  assumes vals: "\<And>j. rd s' a j = (if j < N * 4 \<and> C (j div 4) \<and> j mod 4 \<noteq> 3 then F (j div 4) else rd s b j)"
    and p: "p < N"
  shows "rgb s' \<lparr>width = w, height = h, data = a\<rparr> p =
     (if C p then (F p, F p, F p) else rgb s \<lparr>width = w', height = h', data = b\<rparr> p)"
proof -
  have d: "(4 * p) div 4 = p" "(4 * p + 1) div 4 = p" "(4 * p + 2) div 4 = p"
    "(4 * p) mod 4 = 0" "(4 * p + 1) mod 4 = 1" "(4 * p + 2) mod 4 = 2" by presburger+
  have l: "4 * p < N * 4" "4 * p + 1 < N * 4" "4 * p + 2 < N * 4" using p by simp_all
  have "rd s' a (4 * p) = (if C p then F p else rd s b (4 * p))"
    "rd s' a (4 * p + 1) = (if C p then F p else rd s b (4 * p + 1))"
    "rd s' a (4 * p + 2) = (if C p then F p else rd s b (4 * p + 2))"
    unfolding vals using l by (simp_all only: d, simp_all)
  then show ?thesis by (simp add: rgb_def)
qed

lemma rgb_data: "rgb s \<lparr>width = w, height = h, data = data img\<rparr> p = rgb s img p"
  by (simp add: rgb_def)

lemma sobel_prewitt_nonempty:
  "sobel_kx \<noteq> []" "sobel_ky \<noteq> []" "prewitt_kx \<noteq> []" "prewitt_ky \<noteq> []"
  by (simp_all add: sobel_kx_def sobel_ky_def prewitt_kx_def prewitt_ky_def)

lemma gradientFilter_pixels:
  assumes ok: "img_ok s img" and kx: "kx \<noteq> []" and ky: "ky \<noteq> []"
    and g: "toGrayscale img s = Inr (s1, gray)"
  shows "\<exists>s' out. gradientFilter kx ky img s = Inr (s', out) \<and>
       fresh_image s (width img) (height img) s' out \<and>
       (\<forall>x<width img. \<forall>y<height img. rgb s' out (y * width img + x) =
          (let m = ToUint8Clamp (gradient_magnitude s1 gray kx ky x y) in (m, m, m)))"
proof -
  let ?w = "width img" and ?h = "height img"
  let ?gray = "\<lparr>width = ?w, height = ?h, data = length (u8 s)\<rparr>"
  let ?out = "\<lparr>width = ?w, height = ?h, data = length (u8 s) + 3\<rparr>"
  from gradientFilter_paint[OF ok kx ky] obtain s1' s' where
    g': "toGrayscale img s = Inr (s1', ?gray)"
    and r: "gradientFilter kx ky img s = Inr (s', ?out)"
    and fi: "fresh_image s ?w ?h s' ?out"
    and v: "\<And>j. rd s' (length (u8 s) + 3) j =
        (if j < ?w * ?h * 4 \<and> j mod 4 \<noteq> 3
         then ToUint8Clamp (min 255 (Math_sqrt (fadd (fmul (real (convolve_value s1' ?gray kx False ((j div 4) mod ?w) ((j div 4) div ?w) 0))
                 (real (convolve_value s1' ?gray kx False ((j div 4) mod ?w) ((j div 4) div ?w) 0)))
           (fmul (real (convolve_value s1' ?gray ky False ((j div 4) mod ?w) ((j div 4) div ?w) 0))
                 (real (convolve_value s1' ?gray ky False ((j div 4) mod ?w) ((j div 4) div ?w) 0))))))
         else rd s (data img) j)" by blast
  have e: "s1' = s1" "gray = ?gray" using g g' by simp_all
  have v': "rd s' (length (u8 s) + 3) j =
        (if j < ?w * ?h * 4 \<and> True \<and> j mod 4 \<noteq> 3
         then ToUint8Clamp (gradient_magnitude s1 gray kx ky ((j div 4) mod ?w) ((j div 4) div ?w))
         else rd s (data img) j)" for j
    unfolding v gradient_magnitude_def e by simp
  have "rgb s' ?out (y * ?w + x) =
      (let m = ToUint8Clamp (gradient_magnitude s1 gray kx ky x y) in (m, m, m))"
    if x: "x < ?w" and y: "y < ?h" for x y
  proof -
    have p: "y * ?w + x < ?w * ?h" using x y by (rule pixel_index(2))
    show ?thesis
      using rgb_painted[where C = "\<lambda>_. True" and w = ?w and h = ?h and w' = ?w and h' = ?h,
          OF v' p] x by (simp add: Let_def)
  qed
  then show ?thesis using r fi by blast
qed

text \<open>
  Claim C5 against the code, at a failing input. The Roberts detector runs its loops
  over \<^verbatim>\<open>y < height - 1\<close> and \<^verbatim>\<open>x < width - 1\<close> on a clone of the coloured input, so
  the pixels of the last row and of the last column are never written. On the
  two-by-two image of the colours (10, 20, 30), (40, 50, 60), (70, 80, 90) and
  (100, 110, 120) the three pixels of that border come out with the colours they had:
  they hold no magnitude and are not achromatic.
\<close>

theorem robertsFilter_border_pixels:
  "(case robertsFilter \<lparr>width = 2, height = 2, data = 0\<rparr>
      \<lparr>u8 = [[10, 20, 30, 255, 40, 50, 60, 255, 70, 80, 90, 255, 100, 110, 120, 255]],
        f64 = []\<rparr> of
      Inl e \<Rightarrow> None
    | Inr (s', out) \<Rightarrow> Some (rgb s' out 1, rgb s' out 2, rgb s' out 3))
   = Some ((40, 50, 60), (70, 80, 90), (100, 110, 120))"
proof -
  let ?s = "\<lparr>u8 = [[10, 20, 30, 255, 40, 50, 60, 255, 70, 80, 90, 255, 100, 110, 120, 255]],
        f64 = []\<rparr>"
  let ?img = "\<lparr>width = 2, height = 2, data = 0\<rparr>"
  let ?out = "\<lparr>width = width ?img, height = height ?img, data = length (u8 ?s) + 1\<rparr>"
  have h: "img_ok ?s ?img" by (simp add: img_ok_def)
  from robertsFilter_paint[OF h] obtain s' where
    r: "robertsFilter ?img ?s = Inr (s', ?out)"
    and v: "\<And>j. rd s' (length (u8 ?s) + 1) j =
        (if j < width ?img * height ?img * 4 \<and> (j div 4) mod width ?img < width ?img - 1 \<and>
            (j div 4) div width ?img < height ?img - 1 \<and> j mod 4 \<noteq> 3
         then ToUint8Clamp (roberts_magnitude ?s ?img ((j div 4) mod width ?img) ((j div 4) div width ?img))
         else rd ?s (data ?img) j)"
    by blast
  have b: "rd s' (length (u8 ?s) + 1) (4 * p + c) = rd ?s (data ?img) (4 * p + c)"
    if "p \<in> {1, 2, 3}" "c < 4" for p c
  proof -
    let ?j = "4 * p + c"
    have d: "?j div 4 = p" using that(2) by simp
    have n: "\<not> (?j < width ?img * height ?img * 4 \<and> (?j div 4) mod width ?img < width ?img - 1 \<and>
            (?j div 4) div width ?img < height ?img - 1 \<and> ?j mod 4 \<noteq> 3)"
      unfolding d using that(1) by auto
    show ?thesis unfolding v[of ?j] using n by (rule if_not_P)
  qed
  have px: "rgb s' ?out p = rgb ?s ?img p" if "p \<in> {1, 2, 3}" for p
    using b[OF that, of 0] b[OF that, of 1] b[OF that, of 2] by (simp add: rgb_def)
  have i: "rgb ?s ?img 1 = (40, 50, 60)" "rgb ?s ?img 2 = (70, 80, 90)"
    "rgb ?s ?img 3 = (100, 110, 120)"
    by (simp_all add: rgb_def rd_def)
  have "rgb s' ?out 1 = (40, 50, 60)" "rgb s' ?out 2 = (70, 80, 90)" "rgb s' ?out 3 = (100, 110, 120)"
    using px[of 1] px[of 2] px[of 3] i by simp_all
  then show ?thesis unfolding r by simp
qed

section \<open>Histogram and tone: normalization and equalization\<close>

section \<open>Loops over one channel\<close>

lemma rounds_channel [simp]: "c < 4 \<Longrightarrow> rounds (N * 4) c = N"
  by (simp add: rounds_def)

lemma number_clamp_le: "number_clamp n \<le> 255"
  by (cases n) (simp_all add: number_clamp_def ToUint8Clamp_le)

lemma wr_number_wr: "wr_number a i n s = wr a i (real (number_clamp n)) s"
  by (simp add: wr_number_def wr_def ToUint8Clamp_of_nat number_clamp_le)

lemma sample_index:
  fixes j n c :: nat
  assumes "c < 4"
  shows "j = 4 * n + c \<longleftrightarrow> j div 4 = n \<and> j mod 4 = c"
proof
  assume "j = 4 * n + c"
  then show "j div 4 = n \<and> j mod 4 = c" using assms by simp
next
  assume h: "j div 4 = n \<and> j mod 4 = c"
  have "j = 4 * (j div 4) + j mod 4" by simp
  then show "j = 4 * n + c" using h by simp
qed

lemma paint_channel:
  assumes a: "a < length (u8 s)" and c: "c < 3"
  shows "frame a s (fold (\<lambda>p t. wr a (4 * p + c) (g (rd t a (4 * p + c))) t) [0..<n] s) \<and>
    (\<forall>j. rd (fold (\<lambda>p t. wr a (4 * p + c) (g (rd t a (4 * p + c))) t) [0..<n] s) a j =
       (if j < length (u8 s ! a) \<and> j div 4 < n \<and> j mod 4 = c
        then ToUint8Clamp (g (rd s a j)) else rd s a j))"
proof (induction n)
  case 0
  then show ?case by simp
next
  case (Suc n)
  let ?f = "\<lambda>p t. wr a (4 * p + c) (g (rd t a (4 * p + c))) t"
  let ?t = "fold ?f [0..<n] s"
  have fr: "frame a s ?t" and
    rds: "\<And>j. rd ?t a j =
       (if j < length (u8 s ! a) \<and> j div 4 < n \<and> j mod 4 = c
        then ToUint8Clamp (g (rd s a j)) else rd s a j)"
    using Suc by blast+
  have at: "a < length (u8 ?t)" and len: "length (u8 ?t ! a) = length (u8 s ! a)"
    using fr a by (simp_all add: frame_def)
  have c4: "c < 4" using c by simp
  have own: "rd ?t a (4 * n + c) = rd s a (4 * n + c)"
    using c4 by (simp add: rds)
  have m3: "(4 * n + c) mod 4 \<noteq> 3" using c by presburger
  have step: "fold ?f [0..<Suc n] s = wr a (4 * n + c) (g (rd s a (4 * n + c))) ?t"
    by (simp add: own)
  have fr': "frame a s (wr a (4 * n + c) (g (rd s a (4 * n + c))) ?t)"
    using fr a m3 by (rule frame_wr')
  have "rd (wr a (4 * n + c) (g (rd s a (4 * n + c))) ?t) a j =
       (if j < length (u8 s ! a) \<and> j div 4 < Suc n \<and> j mod 4 = c
        then ToUint8Clamp (g (rd s a j)) else rd s a j)" for j
  proof (cases "j = 4 * n + c")
    case True
    then have "j div 4 = n" "j mod 4 = c" using sample_index[OF c4, of j n] by simp_all
    then show ?thesis using True by (simp add: rd_wr[OF at] len rds)
  next
    case False
    then have "\<not> (j div 4 = n \<and> j mod 4 = c)" using sample_index[OF c4, of j n] by simp
    then have "(j div 4 < Suc n \<and> j mod 4 = c) \<longleftrightarrow> (j div 4 < n \<and> j mod 4 = c)"
      by (auto simp: less_Suc_eq)
    then show ?thesis using False by (simp add: rd_wr[OF at] rds)
  qed
  then show ?case unfolding step using fr' by blast
qed

section \<open>Histogram and cumulative histogram\<close>

lemma hist_fold:
  assumes "\<And>p. x p < 256"
  shows "length (fold (\<lambda>p h. h[x p := h ! x p + 1]) [0..<n] (replicate 256 (0::nat))) = 256 \<and>
     (\<forall>v<256. fold (\<lambda>p h. h[x p := h ! x p + 1]) [0..<n] (replicate 256 (0::nat)) ! v =
        length (filter (\<lambda>p. x p = v) [0..<n]))"
proof (induction n)
  case 0
  then show ?case by simp
next
  case (Suc n)
  let ?h = "fold (\<lambda>p h. h[x p := h ! x p + 1]) [0..<n] (replicate 256 (0::nat))"
  have l: "length ?h = 256" and
    v: "\<And>v. v < 256 \<Longrightarrow> ?h ! v = length (filter (\<lambda>p. x p = v) [0..<n])"
    using Suc by blast+
  have xn: "x n < length ?h" using assms l by simp
  show ?case
    using l v xn by (auto simp: nth_list_update)
qed

lemma count_split:
  "length (filter (\<lambda>p. (x p :: nat) \<le> Suc v) ps) =
   length (filter (\<lambda>p. x p \<le> v) ps) + length (filter (\<lambda>p. x p = Suc v) ps)"
  by (induction ps) auto

lemma cdf_fold:
  fixes hist :: "nat list"
  assumes h: "\<And>v. v < 256 \<Longrightarrow> hist ! v = length (filter (\<lambda>p. x p = v) ps)"
  shows "m \<le> 255 \<Longrightarrow>
     length (fold (\<lambda>i cdf. cdf[i := cdf ! (i - 1) + hist ! i]) [1..<Suc m]
               ((replicate 256 0)[0 := hist ! 0])) = 256 \<and>
     (\<forall>v\<le>m. fold (\<lambda>i cdf. cdf[i := cdf ! (i - 1) + hist ! i]) [1..<Suc m]
               ((replicate 256 0)[0 := hist ! 0]) ! v =
        length (filter (\<lambda>p. x p \<le> v) ps))"
proof (induction m)
  case 0
  then show ?case by (simp add: h)
next
  case (Suc m)
  let ?c = "fold (\<lambda>i cdf. cdf[i := cdf ! (i - 1) + hist ! i]) [1..<Suc m]
               ((replicate 256 0)[0 := hist ! 0])"
  have m: "m \<le> 255" "Suc m < 256" using Suc.prems by simp_all
  have l: "length ?c = 256" and
    v: "\<And>v. v \<le> m \<Longrightarrow> ?c ! v = length (filter (\<lambda>p. x p \<le> v) ps)"
    using Suc.IH[OF m(1)] by blast+
  have step: "fold (\<lambda>i cdf. cdf[i := cdf ! (i - 1) + hist ! i]) [1..<Suc (Suc m)]
               ((replicate 256 0)[0 := hist ! 0]) = ?c[Suc m := ?c ! m + hist ! Suc m]"
    by simp
  have new: "?c ! m + hist ! Suc m = length (filter (\<lambda>p. x p \<le> Suc m) ps)"
    using v[of m] h[OF m(2)] by (simp add: count_split)
  show ?case unfolding step
  proof (intro conjI allI impI)
    show "length (?c[Suc m := ?c ! m + hist ! Suc m]) = 256" using l by simp
  next
    fix u assume "u \<le> Suc m"
    show "?c[Suc m := ?c ! m + hist ! Suc m] ! u = length (filter (\<lambda>p. x p \<le> u) ps)"
    proof (cases "u = Suc m")
      case True
      then show ?thesis using new l m by simp
    next
      case False
      then have "u \<le> m" using \<open>u \<le> Suc m\<close> by simp
      then show ?thesis using False v l by simp
    qed
  qed
qed

lemma count_le_map: "count_le (map x ps) v = length (filter (\<lambda>p. x p \<le> v) ps)"
  by (simp add: count_le_def length_filter_map comp_def)

lemma count_le_pos: "0 < count_le xs v \<longleftrightarrow> (\<exists>x\<in>set xs. x \<le> v)"
  by (simp add: count_le_def filter_empty_conv)

lemma find_first_positive:
  fixes cdf :: "nat list"
  assumes len: "length cdf = 256"
    and cdf: "\<And>v. v \<le> 255 \<Longrightarrow> cdf ! v = count_le xs v"
    and xs: "\<And>x. x \<in> set xs \<Longrightarrow> x \<le> 255"
  shows "(case find (\<lambda>v. 0 < v) cdf of Some v \<Rightarrow> v | None \<Rightarrow> 0) = cdf_min xs"
proof (cases "xs = []")
  case True
  have "\<not> (\<exists>v\<in>set cdf. 0 < v)"
  proof
    assume "\<exists>v\<in>set cdf. 0 < v"
    then obtain i where "i < length cdf" "0 < cdf ! i" by (auto simp: in_set_conv_nth)
    then show False using cdf[of i] len True by (simp add: count_le_def)
  qed
  then have "find (\<lambda>v. 0 < v) cdf = None" by (simp add: find_None_iff)
  then show ?thesis using True by (simp add: cdf_min_def)
next
  case False
  let ?m = "Min (set xs)"
  have mi: "?m \<in> set xs" using False by (intro Min_in) simp_all
  have ml: "?m \<le> 255" using xs mi by simp
  have pos: "0 < cdf ! ?m" using cdf[OF ml] mi by (auto simp: count_le_pos)
  have zero: "\<not> 0 < cdf ! j" if "j < ?m" for j
  proof -
    have "\<not> (\<exists>x\<in>set xs. x \<le> j)" using that False by (auto simp: not_le)
    then have "count_le xs j = 0" using count_le_pos[of xs j] by simp
    then show ?thesis using cdf[of j] that ml by simp
  qed
  have "find (\<lambda>v. 0 < v) cdf = Some (cdf ! ?m)"
    unfolding find_Some_iff using pos zero ml len by (intro exI[of _ ?m]) simp
  then show ?thesis using False cdf[OF ml] by (simp add: cdf_min_def)
qed

lemma equalize_channel_paint:
  assumes a: "a < length (u8 s)" and c: "c < 3" and len: "length (u8 s ! a) = N * 4"
  shows "frame a s (equalize_channel a N c s) \<and>
    (\<forall>j. rd (equalize_channel a N c s) a j =
       (if j < N * 4 \<and> j mod 4 = c
        then eq_level (map (\<lambda>p. rd s a (4 * p + c)) [0..<N]) (rd s a j) else rd s a j))"
proof -
  let ?x = "\<lambda>p. rd s a (4 * p + c)"
  let ?xs = "map ?x [0..<N]"
  define hist where "hist = fold (\<lambda>p h. h[?x p := h ! ?x p + 1]) [0..<N] (replicate 256 (0::nat))"
  define cdf where "cdf = fold (\<lambda>i cdf. cdf[i := cdf ! (i - 1) + hist ! i])
                  [1..<256] ((replicate 256 0)[0 := hist ! 0])"
  define cdfMin where "cdfMin = (case find (\<lambda>v. 0 < v) cdf of Some v \<Rightarrow> v | None \<Rightarrow> 0)"
  define g where "g v = real (number_clamp (js_round (js_times
                    (js_div (real (cdf ! v) - real cdfMin) (real N - real cdfMin)) 255)))" for v
  have x256: "?x p < 256" for p using rd_le[of s a "4 * p + c"] by simp
  have h: "hist ! v = length (filter (\<lambda>p. ?x p = v) [0..<N])" if "v < 256" for v
    unfolding hist_def using hist_fold[of ?x N, OF x256] that by blast
  have "[1..<256] = [1..<Suc 255]" by simp
  then have cl: "length cdf = 256" and
    cv: "\<And>v. v \<le> 255 \<Longrightarrow> cdf ! v = count_le ?xs v"
    unfolding cdf_def count_le_map using cdf_fold[of hist ?x "[0..<N]" 255, OF h] by simp_all
  have xs: "x \<le> 255" if "x \<in> set ?xs" for x using that rd_le by auto
  have cm: "cdfMin = cdf_min ?xs"
    unfolding cdfMin_def using cl cv xs by (rule find_first_positive)
  have c4: "c < 4" using c by simp
  have e: "equalize_channel a N c s =
      fold (\<lambda>p t. wr a (4 * p + c) (g (rd t a (4 * p + c))) t) [0..<N] s"
    unfolding equalize_channel_def Let_def len rounds_channel[OF c4]
      hist_def[symmetric] cdf_def[symmetric] cdfMin_def[symmetric] wr_number_wr g_def ..
  have gv: "ToUint8Clamp (g v) = eq_level ?xs v" if "v \<le> 255" for v
    unfolding g_def eq_level_def using that
    by (simp add: ToUint8Clamp_of_nat number_clamp_le cv cm)
  have dv: "j < N * 4 \<Longrightarrow> j div 4 < N" for j by auto
  show ?thesis
    unfolding e using paint_channel[OF a c, of g N] dv
    by (auto simp: len gv rd_le)
qed

lemma normalize_channel_paint:
  assumes a: "a < length (u8 s)" and c: "c < 3" and len: "length (u8 s ! a) = N * 4"
  shows "frame a s (normalize_channel a c s) \<and>
    (\<forall>j. rd (normalize_channel a c s) a j =
       (if j < N * 4 \<and> j mod 4 = c
        then norm_level (map (\<lambda>p. rd s a (4 * p + c)) [0..<N]) (rd s a j) else rd s a j))"
proof -
  let ?x = "\<lambda>p. rd s a (4 * p + c)"
  let ?xs = "map ?x [0..<N]"
  obtain mn mx where mm: "fold minmax ?xs (255, 0) = (mn, mx)"
    by (cases "fold minmax ?xs (255, 0)")
  define rng where "rng = (if real mx - real mn = 0 then 1 else real mx - real mn)"
  define g where "g v = Math_round (fmul (fdiv (real v - real mn) rng) 255)" for v
  have mm': "fold (\<lambda>p. minmax (?x p)) [0..<N] (255, 0) = (mn, mx)"
    using mm by (simp add: fold_map comp_def)
  have c4: "c < 4" using c by simp
  have e: "normalize_channel a c s =
      fold (\<lambda>p t. wr a (4 * p + c) (g (rd t a (4 * p + c))) t) [0..<N] s"
    unfolding normalize_channel_def Let_def len rounds_channel[OF c4] mm' prod.case
      g_def rng_def ..
  have gv: "ToUint8Clamp (g v) = norm_level ?xs v" for v
    unfolding g_def norm_level_def mm rng_def by simp
  have dv: "j < N * 4 \<Longrightarrow> j div 4 < N" for j by auto
  show ?thesis
    unfolding e using paint_channel[OF a c, of g N] dv
    by (auto simp: len gv)
qed

lemma three_channels:
  assumes a: "a < length (u8 s)" and len: "length (u8 s ! a) = N * 4"
    and op: "\<And>c t. c < 3 \<Longrightarrow> a < length (u8 t) \<Longrightarrow> length (u8 t ! a) = N * 4 \<Longrightarrow>
       frame a t (chanop c t) \<and>
       (\<forall>j. rd (chanop c t) a j =
          (if j < N * 4 \<and> j mod 4 = c
           then G (map (\<lambda>p. rd t a (4 * p + c)) [0..<N]) (rd t a j) else rd t a j))"
  shows "frame a s (fold chanop [0..<3] s) \<and>
    (\<forall>j. rd (fold chanop [0..<3] s) a j =
       (if j < N * 4 \<and> j mod 4 \<noteq> 3
        then G (map (\<lambda>p. rd s a (4 * p + j mod 4)) [0..<N]) (rd s a j) else rd s a j))"
proof -
  let ?t0 = "chanop 0 s"
  let ?t1 = "chanop 1 ?t0"
  let ?t2 = "chanop 2 ?t1"
  have f: "fold chanop [0..<3] s = ?t2"
  proof -
    have "[0..<3] = [0, 1, 2]" by (simp add: upt_rec)
    then show ?thesis by simp
  qed
  have m: "(4 * p + 1) mod 4 = 1" "(4 * p + 2) mod 4 = 2" "(4 * p + 0) mod 4 = 0" for p :: nat
    by presburger+
  have P0: "frame a s ?t0 \<and> (\<forall>j. rd ?t0 a j =
          (if j < N * 4 \<and> j mod 4 = 0
           then G (map (\<lambda>p. rd s a (4 * p + 0)) [0..<N]) (rd s a j) else rd s a j))"
    by (rule op[OF _ a len]) simp
  then have fr0: "frame a s ?t0" and
    r0: "\<And>j. rd ?t0 a j =
          (if j < N * 4 \<and> j mod 4 = 0
           then G (map (\<lambda>p. rd s a (4 * p + 0)) [0..<N]) (rd s a j) else rd s a j)"
    by blast+
  have a0: "a < length (u8 ?t0)" and l0: "length (u8 ?t0 ! a) = N * 4"
    using fr0 a len by (simp_all add: frame_def)
  have k1: "rd ?t0 a (4 * p + 1) = rd s a (4 * p + 1)" for p
    unfolding r0 by (simp only: m) simp
  have c1: "map (\<lambda>p. rd ?t0 a (4 * p + 1)) [0..<N] = map (\<lambda>p. rd s a (4 * p + 1)) [0..<N]"
    by (simp only: k1)
  have P1: "frame a ?t0 ?t1 \<and> (\<forall>j. rd ?t1 a j =
          (if j < N * 4 \<and> j mod 4 = 1
           then G (map (\<lambda>p. rd ?t0 a (4 * p + 1)) [0..<N]) (rd ?t0 a j) else rd ?t0 a j))"
    by (rule op[OF _ a0 l0]) simp
  then have fr1: "frame a ?t0 ?t1" and
    r1: "\<And>j. rd ?t1 a j =
          (if j < N * 4 \<and> j mod 4 = 1
           then G (map (\<lambda>p. rd s a (4 * p + 1)) [0..<N]) (rd ?t0 a j) else rd ?t0 a j)"
    unfolding c1 by blast+
  have fr01: "frame a s ?t1" using fr0 fr1 by (rule frame_trans)
  have a1: "a < length (u8 ?t1)" and l1: "length (u8 ?t1 ! a) = N * 4"
    using fr01 a len by (simp_all add: frame_def)
  have k2: "rd ?t1 a (4 * p + 2) = rd s a (4 * p + 2)" for p
    unfolding r1 r0 by (simp only: m) simp
  have c2: "map (\<lambda>p. rd ?t1 a (4 * p + 2)) [0..<N] = map (\<lambda>p. rd s a (4 * p + 2)) [0..<N]"
    by (simp only: k2)
  have P2: "frame a ?t1 ?t2 \<and> (\<forall>j. rd ?t2 a j =
          (if j < N * 4 \<and> j mod 4 = 2
           then G (map (\<lambda>p. rd ?t1 a (4 * p + 2)) [0..<N]) (rd ?t1 a j) else rd ?t1 a j))"
    by (rule op[OF _ a1 l1]) simp
  then have fr2: "frame a ?t1 ?t2" and
    r2: "\<And>j. rd ?t2 a j =
          (if j < N * 4 \<and> j mod 4 = 2
           then G (map (\<lambda>p. rd s a (4 * p + 2)) [0..<N]) (rd ?t1 a j) else rd ?t1 a j)"
    unfolding c2 by blast+
  have fr02: "frame a s ?t2" using fr01 fr2 by (rule frame_trans)
  have "rd ?t2 a j =
       (if j < N * 4 \<and> j mod 4 \<noteq> 3
        then G (map (\<lambda>p. rd s a (4 * p + j mod 4)) [0..<N]) (rd s a j) else rd s a j)" for j
  proof -
    have "j mod 4 = 0 \<or> j mod 4 = 1 \<or> j mod 4 = 2 \<or> j mod 4 = 3" by presburger
    then show ?thesis
      by (elim disjE) (simp_all add: r2 r1 r0 del: One_nat_def)
  qed
  then show ?thesis unfolding f using fr02 by blast
qed

lemma channel_clone:
  "map (\<lambda>p. rd (s\<lparr>u8 := u8 s @ [u8 s ! data img]\<rparr>) (length (u8 s)) (4 * p + c))
      [0..<width img * height img] = channel s img c"
  by (simp add: channel_def)

lemma equalizeImage_paint:
  assumes ok: "img_ok s img"
  shows "\<exists>t. equalizeImage img s =
        Inr (t, \<lparr>width = width img, height = height img, data = length (u8 s)\<rparr>) \<and>
     frame (length (u8 s)) (s\<lparr>u8 := u8 s @ [u8 s ! data img]\<rparr>) t \<and>
     (\<forall>j. rd t (length (u8 s)) j =
        (if j < width img * height img * 4 \<and> j mod 4 \<noteq> 3
         then eq_level (channel s img (j mod 4)) (rd s (data img) j)
         else rd s (data img) j))"
proof -
  let ?a = "length (u8 s)"
  let ?s1 = "s\<lparr>u8 := u8 s @ [u8 s ! data img]\<rparr>"
  let ?N = "width img * height img"
  let ?op = "\<lambda>c. equalize_channel ?a ?N c"
  have a: "?a < length (u8 ?s1)" by simp
  have len: "length (u8 ?s1 ! ?a) = ?N * 4" using ok by (simp add: img_ok_def)
  have P: "frame ?a ?s1 (fold ?op [0..<3] ?s1) \<and>
    (\<forall>j. rd (fold ?op [0..<3] ?s1) ?a j =
       (if j < ?N * 4 \<and> j mod 4 \<noteq> 3
        then eq_level (map (\<lambda>p. rd ?s1 ?a (4 * p + j mod 4)) [0..<?N]) (rd ?s1 ?a j)
        else rd ?s1 ?a j))"
    by (rule three_channels[OF a len, where chanop = ?op and G = eq_level])
       (rule equalize_channel_paint)
  have res: "equalizeImage img s = Inr (fold ?op [0..<3] ?s1,
      \<lparr>width = width img, height = height img, data = ?a\<rparr>)"
    by (simp add: equalizeImage_def cloneImageData_ok[OF ok] del: fold_simps)
  show ?thesis
    apply (rule exI[of _ "fold ?op [0..<3] ?s1"])
    using P res unfolding channel_clone by simp
qed

lemma normalizeImage_paint:
  assumes ok: "img_ok s img"
  shows "\<exists>t. normalizeImage img s =
        Inr (t, \<lparr>width = width img, height = height img, data = length (u8 s)\<rparr>) \<and>
     frame (length (u8 s)) (s\<lparr>u8 := u8 s @ [u8 s ! data img]\<rparr>) t \<and>
     (\<forall>j. rd t (length (u8 s)) j =
        (if j < width img * height img * 4 \<and> j mod 4 \<noteq> 3
         then norm_level (channel s img (j mod 4)) (rd s (data img) j)
         else rd s (data img) j))"
proof -
  let ?a = "length (u8 s)"
  let ?s1 = "s\<lparr>u8 := u8 s @ [u8 s ! data img]\<rparr>"
  let ?N = "width img * height img"
  let ?op = "\<lambda>c. normalize_channel ?a c"
  have a: "?a < length (u8 ?s1)" by simp
  have len: "length (u8 ?s1 ! ?a) = ?N * 4" using ok by (simp add: img_ok_def)
  have P: "frame ?a ?s1 (fold ?op [0..<3] ?s1) \<and>
    (\<forall>j. rd (fold ?op [0..<3] ?s1) ?a j =
       (if j < ?N * 4 \<and> j mod 4 \<noteq> 3
        then norm_level (map (\<lambda>p. rd ?s1 ?a (4 * p + j mod 4)) [0..<?N]) (rd ?s1 ?a j)
        else rd ?s1 ?a j))"
    by (rule three_channels[OF a len, where chanop = ?op and G = norm_level])
       (rule normalize_channel_paint)
  have res: "normalizeImage img s = Inr (fold ?op [0..<3] ?s1,
      \<lparr>width = width img, height = height img, data = ?a\<rparr>)"
    by (simp add: normalizeImage_def cloneImageData_ok[OF ok] del: fold_simps)
  show ?thesis
    apply (rule exI[of _ "fold ?op [0..<3] ?s1"])
    using P res unfolding channel_clone by simp
qed

section \<open>Levels of normalization and equalization\<close>

lemma Math_round_of_nat [simp]: "Math_round (real n) = real n"
proof -
  have "\<lfloor>real n + 1 / 2\<rfloor> = int n" by linarith
  then show ?thesis by (simp add: Math_round_def)
qed

lemma ToUint8Clamp_round: "ToUint8Clamp (Math_round x) = nat (max 0 (min 255 \<lfloor>x + 1 / 2\<rfloor>))"
proof -
  let ?i = "\<lfloor>x + 1 / 2\<rfloor>"
  have "ToUint8Clamp (of_int ?i) = nat (max 0 (min 255 ?i))"
    unfolding ToUint8Clamp_def Let_def by (auto simp: max_def min_def)
  then show ?thesis by (simp add: Math_round_def)
qed

lemma ToUint8Clamp_round_mono:
  "x \<le> y \<Longrightarrow> ToUint8Clamp (Math_round x) \<le> ToUint8Clamp (Math_round y)"
proof -
  assume "x \<le> y"
  then have le: "\<lfloor>x + 1 / 2\<rfloor> \<le> \<lfloor>y + 1 / 2\<rfloor>" by (intro floor_mono) simp
  have "max 0 (min 255 i) \<le> max 0 (min 255 j)" if "i \<le> j" for i j :: int
    using that by (auto simp: max_def min_def)
  from this[OF le] show ?thesis unfolding ToUint8Clamp_round by (rule nat_mono)
qed

lemma fold_minmax:
  "fold minmax xs (mn, mx) = (Min (insert mn (set xs)), Max (insert mx (set xs)))"
proof (induction xs arbitrary: mn mx)
  case Nil
  then show ?case by simp
next
  case (Cons x xs)
  have mi: "Min (insert (min x mn) (set xs)) = Min (insert mn (set (x # xs)))"
    by (cases "set xs = {}") (simp_all add: min.assoc min.commute min.left_commute)
  have ma: "Max (insert (max x mx) (set xs)) = Max (insert mx (set (x # xs)))"
    by (cases "set xs = {}") (simp_all add: max.assoc max.commute max.left_commute)
  have st: "minmax x (mn, mx) = (min x mn, max x mx)"
    by (simp add: minmax_def min_def max_def)
  have "fold minmax (x # xs) (mn, mx) = fold minmax xs (min x mn, max x mx)"
    by (simp only: fold_simps comp_apply st)
  also have "\<dots> = (Min (insert (min x mn) (set xs)), Max (insert (max x mx) (set xs)))"
    by (rule Cons)
  finally show ?case by (simp only: mi ma)
qed

text \<open>The scaling \<^verbatim>\<open>(a / b) * 255\<close> of a fraction, in doubles: its error is far below
  the half that decides the rounding.\<close>

lemma Math_round_near:
  assumes "\<bar>z - real n\<bar> < 1 / 2"
  shows "Math_round z = real n"
proof -
  have "\<lfloor>z + 1 / 2\<rfloor> = int n" using assms by (intro floor_unique) (simp_all add: abs_if split: if_splits)
  then show ?thesis by (simp add: Math_round_def)
qed

lemma scale_error:
  assumes "0 \<le> a" "a \<le> b" "0 < b"
  shows "\<bar>fmul (fdiv a b) 255 - a / b * 255\<bar> \<le> 511 / 2 ^ 53"
proof -
  define e :: real where "e = 1 / 2 ^ 53"
  define x where "x = a / b"
  define d where "d = fdiv a b"
  have eb: "0 \<le> e" "255 * e \<le> 1" by (simp_all add: e_def)
  have q: "0 \<le> x" "x \<le> 1" using assms by (simp_all add: x_def)
  then have "\<bar>x\<bar> \<le> 1" by simp
  from fl_error_le[OF this] have e1: "\<bar>d - x\<bar> \<le> e"
    by (simp add: fdiv_def d_def x_def e_def)
  then have e1': "\<bar>d * 255 - x * 255\<bar> \<le> 255 * e" by linarith
  have "\<bar>d * 255\<bar> \<le> 256" using e1' q eb by linarith
  from fl_error_le[OF this] have e2: "\<bar>fmul d 255 - d * 255\<bar> \<le> 256 * e"
    by (simp add: fmul_def e_def)
  from e1' e2 have "\<bar>fmul d 255 - x * 255\<bar> \<le> 511 * e" by linarith
  then show ?thesis by (simp add: d_def x_def e_def)
qed

lemma fdiv_mono: "a \<le> a' \<Longrightarrow> 0 < b \<Longrightarrow> fdiv a b \<le> fdiv a' b"
  unfolding fdiv_def by (intro fl_mono divide_right_mono) simp_all

lemma fmul_255_mono: "x \<le> y \<Longrightarrow> fmul x 255 \<le> fmul y 255"
  unfolding fmul_def by (intro fl_mono) simp

lemma scale_exact:
  assumes "v \<le> 255"
  shows "ToUint8Clamp (Math_round (fmul (fdiv (real v) 255) 255)) = v"
proof -
  have "\<bar>fmul (fdiv (real v) 255) 255 - real v / 255 * 255\<bar> \<le> 511 / 2 ^ 53"
    using assms by (intro scale_error) simp_all
  then have "\<bar>fmul (fdiv (real v) 255) 255 - real v\<bar> < 1 / 2" by simp
  then have "Math_round (fmul (fdiv (real v) 255) 255) = real v" by (rule Math_round_near)
  then show ?thesis using assms by (simp add: ToUint8Clamp_of_nat)
qed

lemma norm_level_full:
  assumes "0 \<in> set xs" "255 \<in> set xs" "\<And>x. x \<in> set xs \<Longrightarrow> x \<le> 255" "v \<le> 255"
  shows "norm_level xs v = v"
proof -
  have mn: "Min (insert 255 (set xs)) = 0"
    using assms(1) by (intro Min_eqI) auto
  have mx: "Max (insert 0 (set xs)) = 255"
    using assms(2,3) by (intro Max_eqI) auto
  have "fold minmax xs (255, 0) = (0, 255)" by (simp add: fold_minmax mn mx)
  then show ?thesis using assms(4) by (simp add: norm_level_def scale_exact)
qed

lemma count_le_mono: "u \<le> v \<Longrightarrow> count_le xs u \<le> count_le xs v"
proof (induction xs)
  case Nil
  then show ?case by (simp add: count_le_def)
next
  case (Cons x xs)
  then show ?case by (auto simp: count_le_def)
qed

lemma count_le_length: "count_le xs v \<le> length xs"
  by (simp add: count_le_def)

lemma cdf_min_le: "x \<in> set xs \<Longrightarrow> cdf_min xs \<le> count_le xs x"
  by (auto simp: cdf_min_def intro!: count_le_mono)

text \<open>With two levels in the channel, the least level does not hold every sample, and
  the level stored is the rounded, clamped fraction.\<close>

lemma cdf_min_less:
  assumes "u \<in> set xs" "v \<in> set xs" "u < v"
  shows "cdf_min xs < length xs"
proof -
  let ?m = "Min (set xs)"
  have ne: "xs \<noteq> []" using assms(1) by auto
  have "?m \<le> u" using assms(1) by simp
  then have "\<not> v \<le> ?m" using assms(3) by simp
  with assms(2) have "length (filter (\<lambda>x. x \<le> ?m) xs) < length xs"
    by (rule length_filter_less)
  then show ?thesis using ne by (simp add: cdf_min_def count_le_def)
qed

lemma eq_level_fraction:
  assumes "cdf_min xs < length xs"
  shows "eq_level xs v =
    ToUint8Clamp (Math_round (fmul (fdiv (real (count_le xs v) - real (cdf_min xs))
         (real (length xs) - real (cdf_min xs))) 255))"
  using assms by (simp add: eq_level_def js_div_def js_times_def js_round_def number_clamp_def)

lemma eq_level_mono:
  assumes "cdf_min xs < length xs" "u \<le> v"
  shows "eq_level xs u \<le> eq_level xs v"
proof -
  have "real (count_le xs u) \<le> real (count_le xs v)"
    using count_le_mono[OF assms(2)] by simp
  moreover have "0 < real (length xs) - real (cdf_min xs)" using assms(1) by simp
  ultimately have "fmul (fdiv (real (count_le xs u) - real (cdf_min xs)) (real (length xs) - real (cdf_min xs))) 255
     \<le> fmul (fdiv (real (count_le xs v) - real (cdf_min xs)) (real (length xs) - real (cdf_min xs))) 255"
    by (intro fmul_255_mono fdiv_mono) simp_all
  then show ?thesis unfolding eq_level_fraction[OF assms(1)] by (rule ToUint8Clamp_round_mono)
qed

lemma eq_level_min:
  assumes "xs \<noteq> []"
  shows "eq_level xs (Min (set xs)) = 0"
proof -
  have "count_le xs (Min (set xs)) = cdf_min xs" using assms by (simp add: cdf_min_def)
  then show ?thesis
    by (simp add: eq_level_def js_div_def js_times_def js_round_def number_clamp_def Math_round_def
        fdiv_def fmul_def)
qed

lemma eq_level_idem:
  assumes two: "cdf_min xs < length xs"
    and H: "\<And>x. x \<in> set xs \<Longrightarrow> eq_level xs x = 0 \<Longrightarrow> x = Min (set xs)"
    and v: "v \<in> set xs"
  shows "eq_level (map (eq_level xs) xs) (eq_level xs v) = eq_level xs v"
proof -
  let ?g = "eq_level xs"
  let ?ys = "map ?g xs"
  let ?m = "Min (set xs)"
  have ne: "xs \<noteq> []" using v by auto
  define A where "A = {x \<in> set xs. ?g x = ?g v}"
  have fA: "finite A" and vA: "v \<in> A" unfolding A_def using v by simp_all
  define u where "u = Max A"
  have uA: "u \<in> A" unfolding u_def using fA vA by (intro Max_in) auto
  then have ux: "u \<in> set xs" and gu: "?g u = ?g v" unfolding A_def by simp_all
  have umax: "x \<le> u" if "x \<in> A" for x unfolding u_def using fA that by (rule Max_ge)
  have key: "?g x \<le> ?g v \<longleftrightarrow> x \<le> u" if x: "x \<in> set xs" for x
  proof
    assume le: "?g x \<le> ?g v"
    show "x \<le> u"
    proof (rule ccontr)
      assume "\<not> x \<le> u"
      then have "u \<le> x" by simp
      then have "?g u \<le> ?g x" using two by (intro eq_level_mono)
      with le gu have "?g x = ?g v" by simp
      then have "x \<in> A" unfolding A_def using x by simp
      then show False using umax \<open>\<not> x \<le> u\<close> by blast
    qed
  next
    assume "x \<le> u"
    then have "?g x \<le> ?g u" using two by (intro eq_level_mono)
    then show "?g x \<le> ?g v" using gu by simp
  qed
  have c1: "count_le ?ys (?g v) = count_le xs u"
  proof -
    have e: "filter (\<lambda>x. ?g x \<le> ?g v) xs = filter (\<lambda>x. x \<le> u) xs"
      by (rule filter_cong) (simp_all add: key)
    have "count_le ?ys (?g v) = length (filter (\<lambda>x. ?g x \<le> ?g v) xs)"
      by (rule count_le_map)
    also have "\<dots> = count_le xs u" unfolding e by (simp add: count_le_def)
    finally show ?thesis .
  qed
  have g0: "?g ?m = 0" using ne by (rule eq_level_min)
  have mx: "?m \<in> set xs" using ne by (intro Min_in) simp_all
  have zero: "?g x = 0 \<longleftrightarrow> x \<le> ?m" if x: "x \<in> set xs" for x
  proof
    assume "?g x = 0"
    then have "x = ?m" using H[OF x] by simp
    then show "x \<le> ?m" by simp
  next
    assume "x \<le> ?m"
    moreover have "?m \<le> x" using x by simp
    ultimately have "x = ?m" by simp
    then show "?g x = 0" using g0 by simp
  qed
  have my: "Min (set ?ys) = 0"
    using mx g0 by (intro Min_eqI) (auto intro: image_eqI[where x = ?m])
  have c2: "cdf_min ?ys = cdf_min xs"
  proof -
    have e: "filter (\<lambda>x. ?g x \<le> 0) xs = filter (\<lambda>x. x \<le> ?m) xs"
      by (rule filter_cong) (simp_all add: zero)
    have "count_le ?ys 0 = length (filter (\<lambda>x. ?g x \<le> 0) xs)"
      by (rule count_le_map)
    also have "\<dots> = count_le xs ?m" unfolding e by (simp add: count_le_def)
    finally have "count_le ?ys 0 = count_le xs ?m" .
    then show ?thesis using ne my by (simp add: cdf_min_def)
  qed
  have "eq_level ?ys (?g v) = eq_level xs u"
    by (simp add: eq_level_def[of ?ys] eq_level_def[of xs u] c1 c2)
  then show ?thesis using gu by simp
qed

section \<open>Normalization and equalization of images\<close>

lemma tone_result:
  assumes ok: "img_ok s img"
    and P: "frame (length (u8 s)) (s\<lparr>u8 := u8 s @ [u8 s ! data img]\<rparr>) t \<and>
     (\<forall>j. rd t (length (u8 s)) j =
        (if j < width img * height img * 4 \<and> j mod 4 \<noteq> 3
         then G (channel s img (j mod 4)) (rd s (data img) j)
         else rd s (data img) j))"
  shows "img_ok t \<lparr>width = width img, height = height img, data = length (u8 s)\<rparr>"
    and "fresh_image s (width img) (height img) t
       \<lparr>width = width img, height = height img, data = length (u8 s)\<rparr>"
    and "c < 3 \<Longrightarrow> channel t \<lparr>width = width img, height = height img, data = length (u8 s)\<rparr> c
          = map (G (channel s img c)) (channel s img c)"
    and "rd t (length (u8 s)) (4 * p + 3) = rd s (data img) (4 * p + 3)"
    and "p < width img * height img \<Longrightarrow> c < 3 \<Longrightarrow>
          rd t (length (u8 s)) (4 * p + c) = G (channel s img c) (rd s (data img) (4 * p + c))"
proof -
  let ?N = "width img * height img"
  from P have fr: "frame (length (u8 s)) (s\<lparr>u8 := u8 s @ [u8 s ! data img]\<rparr>) t" and
    v: "\<And>j. rd t (length (u8 s)) j =
        (if j < ?N * 4 \<and> j mod 4 \<noteq> 3
         then G (channel s img (j mod 4)) (rd s (data img) j)
         else rd s (data img) j)" by blast+
  note fc = frame_clone[OF ok fr]
  show "img_ok t \<lparr>width = width img, height = height img, data = length (u8 s)\<rparr>" by (rule fc(5))
  show "fresh_image s (width img) (height img) t
       \<lparr>width = width img, height = height img, data = length (u8 s)\<rparr>" by (rule fc(4))
  have m3: "(4 * p + 3) mod 4 = 3" by presburger
  show "rd t (length (u8 s)) (4 * p + 3) = rd s (data img) (4 * p + 3)"
    unfolding v by (simp only: m3) simp
  have px: "rd t (length (u8 s)) (4 * q + c) = G (channel s img c) (rd s (data img) (4 * q + c))"
    if "q < ?N" "c < 3" for q c
  proof -
    have m: "(4 * q + c) mod 4 = c" using that(2) by simp
    have l: "4 * q + c < ?N * 4" using that by simp
    show ?thesis unfolding v using l that(2) by (simp only: m) simp
  qed
  show "p < ?N \<Longrightarrow> c < 3 \<Longrightarrow>
          rd t (length (u8 s)) (4 * p + c) = G (channel s img c) (rd s (data img) (4 * p + c))"
    by (rule px)
  show "channel t \<lparr>width = width img, height = height img, data = length (u8 s)\<rparr> c
          = map (G (channel s img c)) (channel s img c)" if "c < 3"
  proof -
    have "channel t \<lparr>width = width img, height = height img, data = length (u8 s)\<rparr> c
        = map (\<lambda>p. G (channel s img c) (rd s (data img) (4 * p + c))) [0..<?N]"
      using that by (simp add: channel_def[of t] px)
    also have "\<dots> = map (G (channel s img c)) (channel s img c)"
      by (simp add: channel_def comp_def)
    finally show ?thesis .
  qed
qed

lemma channel_member:
  "p < width img * height img \<Longrightarrow> rd s (data img) (4 * p + c) \<in> set (channel s img c)"
  by (auto simp: channel_def)

lemma channel_le: "x \<in> set (channel s img c) \<Longrightarrow> x \<le> 255"
  by (auto simp: channel_def rd_le)

lemma channel_length: "length (channel s img c) = width img * height img"
  by (simp add: channel_def)

text \<open>Twice the same tone operation, when the operation fixes the levels it produced.\<close>

lemma tone_twice:
  assumes ok: "img_ok s img"
    and P1: "frame (length (u8 s)) (s\<lparr>u8 := u8 s @ [u8 s ! data img]\<rparr>) s1 \<and>
     (\<forall>j. rd s1 (length (u8 s)) j =
        (if j < width img * height img * 4 \<and> j mod 4 \<noteq> 3
         then G (channel s img (j mod 4)) (rd s (data img) j)
         else rd s (data img) j))"
    and P2: "frame (length (u8 s1)) (s1\<lparr>u8 := u8 s1 @ [u8 s1 ! length (u8 s)]\<rparr>) s2 \<and>
     (\<forall>j. rd s2 (length (u8 s1)) j =
        (if j < width img * height img * 4 \<and> j mod 4 \<noteq> 3
         then G (channel s1 \<lparr>width = width img, height = height img, data = length (u8 s)\<rparr> (j mod 4))
                (rd s1 (length (u8 s)) j)
         else rd s1 (length (u8 s)) j))"
    and fixG: "\<And>c v. c < 3 \<Longrightarrow> v \<in> set (channel s img c) \<Longrightarrow>
        G (map (G (channel s img c)) (channel s img c)) (G (channel s img c) v) = G (channel s img c) v"
  shows "\<forall>j < width img * height img * 4. rd s2 (length (u8 s1)) j = rd s1 (length (u8 s)) j"
proof (intro allI impI)
  let ?N = "width img * height img"
  let ?o1 = "\<lparr>width = width img, height = height img, data = length (u8 s)\<rparr>"
  fix j assume j: "j < ?N * 4"
  from P2 have v2: "rd s2 (length (u8 s1)) j =
        (if j < ?N * 4 \<and> j mod 4 \<noteq> 3
         then G (channel s1 ?o1 (j mod 4)) (rd s1 (length (u8 s)) j)
         else rd s1 (length (u8 s)) j)" by blast
  show "rd s2 (length (u8 s1)) j = rd s1 (length (u8 s)) j"
  proof (cases "j mod 4 = 3")
    case True
    then show ?thesis using v2 by simp
  next
    case False
    define c where "c = j mod 4"
    define p where "p = j div 4"
    have c: "c < 3" using False unfolding c_def by presburger
    have p: "p < ?N" using j unfolding p_def by auto
    have jj: "j = 4 * p + c" unfolding p_def c_def by simp
    have r1: "rd s1 (length (u8 s)) j = G (channel s img c) (rd s (data img) (4 * p + c))"
      unfolding jj using tone_result(5)[OF ok P1 p c] .
    have ch: "channel s1 ?o1 c = map (G (channel s img c)) (channel s img c)"
      using tone_result(3)[OF ok P1 c] .
    have "rd s2 (length (u8 s1)) j = G (channel s1 ?o1 c) (rd s1 (length (u8 s)) j)"
      using v2 j False by (simp add: c_def)
    also have "\<dots> = G (map (G (channel s img c)) (channel s img c))
                        (G (channel s img c) (rd s (data img) (4 * p + c)))"
      by (simp only: ch r1)
    also have "\<dots> = G (channel s img c) (rd s (data img) (4 * p + c))"
      using c channel_member[OF p] by (rule fixG)
    finally show ?thesis by (simp only: r1)
  qed
qed

lemma eq_level_flat:
  assumes ne: "xs \<noteq> []" and flat: "\<And>x. x \<in> set xs \<Longrightarrow> x = k"
  shows "cdf_min xs = length xs" and "count_le xs k = length xs" and "eq_level xs k = 0"
proof -
  from ne obtain x where x: "x \<in> set xs" by (cases xs) auto
  have k: "k \<in> set xs" using x flat[OF x] by simp
  have le: "x \<le> k" if "x \<in> set xs" for x using flat[OF that] by simp
  have ge: "k \<le> x" if "x \<in> set xs" for x using flat[OF that] by simp
  have m: "Min (set xs) = k" using k ge by (intro Min_eqI) simp_all
  have "filter (\<lambda>x. x \<le> k) xs = xs" using le by (intro filter_True) blast
  then show c: "count_le xs k = length xs" by (simp add: count_le_def)
  show d: "cdf_min xs = length xs" using ne by (simp add: cdf_min_def m c)
  show "eq_level xs k = 0"
    by (simp add: eq_level_def c d js_div_def js_times_def js_round_def number_clamp_def)
qed

lemma tone_rgb:
  assumes v: "\<And>p c. p < N \<Longrightarrow> c < 3 \<Longrightarrow> rd t a (4 * p + c) = F p c" and p: "p < N"
  shows "rgb t \<lparr>width = w, height = h, data = a\<rparr> p = (F p 0, F p 1, F p 2)"
  using v[OF p, of 0] v[OF p, of 1] v[OF p, of 2] by (simp add: rgb_def)

text \<open>On a buffer whose red, green and blue channels are each constant, the least
  nonzero value of the cumulative histogram is the number of pixels, so the divisor
  \<open>totalPixels - cdfMin\<close> is 0 and so is the dividend: the quotient is \<^verbatim>\<open>NaN\<close>, which the
  sample array stores as 0, and every pixel comes out black.\<close>

lemma equalize_flat_buffer:
  assumes ok: "img_ok s img"
    and flat: "\<forall>c<3. \<forall>p<width img * height img.
                 rd s (data img) (4 * p + c) = rd s (data img) c"
  shows "\<exists>s' out. equalizeImage img s = Inr (s', out) \<and>
     width out = width img \<and> height out = height img \<and>
     (\<forall>c<3. real (width img * height img) - real (cdf_min (channel s img c)) = 0 \<and>
        js_div (real (count_le (channel s img c) (rd s (data img) c))
                  - real (cdf_min (channel s img c)))
               (real (width img * height img) - real (cdf_min (channel s img c))) = NaN) \<and>
     (\<forall>p<width img * height img.
        rgb s' out p = (0, 0, 0) \<and>
        rd s' (data out) (4 * p + 3) = rd s (data img) (4 * p + 3))"
proof -
  let ?N = "width img * height img"
  let ?out = "\<lparr>width = width img, height = height img, data = length (u8 s)\<rparr>"
  from equalizeImage_paint[OF ok] obtain t where
    r: "equalizeImage img s = Inr (t, ?out)"
    and P: "frame (length (u8 s)) (s\<lparr>u8 := u8 s @ [u8 s ! data img]\<rparr>) t \<and>
     (\<forall>j. rd t (length (u8 s)) j =
        (if j < ?N * 4 \<and> j mod 4 \<noteq> 3
         then eq_level (channel s img (j mod 4)) (rd s (data img) j)
         else rd s (data img) j))" by blast
  have N: "0 < ?N" using ok by (simp add: img_ok_def)
  have ne: "channel s img c \<noteq> []" for c using N by (simp add: channel_def)
  have fl: "x = rd s (data img) c" if "c < 3" "x \<in> set (channel s img c)" for x c
    using that flat by (auto simp: channel_def)
  have cm: "cdf_min (channel s img c) = ?N" if "c < 3" for c
    using eq_level_flat(1)[OF ne, of c "rd s (data img) c"] fl[OF that]
    by (simp add: channel_length)
  have cl: "count_le (channel s img c) (rd s (data img) c) = ?N" if "c < 3" for c
    using eq_level_flat(2)[OF ne, of c "rd s (data img) c"] fl[OF that]
    by (simp add: channel_length)
  have el: "eq_level (channel s img c) (rd s (data img) c) = 0" if "c < 3" for c
    using eq_level_flat(3)[OF ne, of c "rd s (data img) c"] fl[OF that] by simp
  have px: "rd t (length (u8 s)) (4 * p + c) = 0" if "p < ?N" "c < 3" for p c
  proof -
    have "rd t (length (u8 s)) (4 * p + c)
        = eq_level (channel s img c) (rd s (data img) (4 * p + c))"
      using tone_result(5)[OF ok P that] .
    also have "rd s (data img) (4 * p + c) = rd s (data img) c" using flat that by simp
    finally show ?thesis using el[OF that(2)] by simp
  qed
  have black: "rgb t ?out p = (0, 0, 0)" if "p < ?N" for p
    using tone_rgb[of ?N t "length (u8 s)" "\<lambda>p c. 0" p] px that by simp
  have al: "rd t (length (u8 s)) (4 * p + 3) = rd s (data img) (4 * p + 3)" for p
    using tone_result(4)[OF ok P] .
  have dv: "real ?N - real (cdf_min (channel s img c)) = 0 \<and>
        js_div (real (count_le (channel s img c) (rd s (data img) c))
                  - real (cdf_min (channel s img c)))
               (real ?N - real (cdf_min (channel s img c))) = NaN" if "c < 3" for c
    by (simp only: cm[OF that] cl[OF that]) (simp add: js_div_def)
  show ?thesis
  proof (rule exI[of _ t], rule exI[of _ ?out], intro conjI)
    show "equalizeImage img s = Inr (t, ?out)" by (fact r)
    show "width ?out = width img" "height ?out = height img" by simp_all
    show "\<forall>c<3. real ?N - real (cdf_min (channel s img c)) = 0 \<and>
        js_div (real (count_le (channel s img c) (rd s (data img) c))
                  - real (cdf_min (channel s img c)))
               (real ?N - real (cdf_min (channel s img c))) = NaN"
      by (intro allI impI) (rule dv)
    show "\<forall>p<?N. rgb t ?out p = (0, 0, 0) \<and>
        rd t (data ?out) (4 * p + 3) = rd s (data img) (4 * p + 3)"
      unfolding ImageData.simps using black al by blast
  qed
qed

text \<open>
  Claim C2 against the code, at a failing input. On the image of two pixels of the one
  colour (7, 8, 9), with alpha 255 and 100, every channel is constant. Equalization
  divides 0 by 0 with no guard and returns two black pixels, where the claim says the
  buffer comes back equal to its input; the alpha samples are the input's.
\<close>

theorem equalize_flat_failing_input:
  "rgb \<lparr>u8 = [[7, 8, 9, 255, 7, 8, 9, 100]], f64 = []\<rparr> \<lparr>width = 2, height = 1, data = 0\<rparr> 0
     = (7, 8, 9) \<and>
   rgb \<lparr>u8 = [[7, 8, 9, 255, 7, 8, 9, 100]], f64 = []\<rparr> \<lparr>width = 2, height = 1, data = 0\<rparr> 1
     = (7, 8, 9) \<and>
   (case equalizeImage \<lparr>width = 2, height = 1, data = 0\<rparr>
        \<lparr>u8 = [[7, 8, 9, 255, 7, 8, 9, 100]], f64 = []\<rparr> of
      Inl e \<Rightarrow> None
    | Inr (s', out) \<Rightarrow>
        Some (rgb s' out 0, rd s' (data out) 3, rgb s' out 1, rd s' (data out) 7))
     = Some ((0, 0, 0), 255, (0, 0, 0), 100)"
proof -
  let ?s = "\<lparr>u8 = [[7, 8, 9, 255, 7, 8, 9, 100]], f64 = []\<rparr>"
  let ?img = "\<lparr>width = 2, height = 1, data = 0\<rparr>"
  have h: "img_ok ?s ?img" by (simp add: img_ok_def)
  have f: "\<forall>c<3. \<forall>p<width ?img * height ?img.
                 rd ?s (data ?img) (4 * p + c) = rd ?s (data ?img) c"
  proof (intro allI impI)
    fix c p :: nat assume "c < 3" "p < width ?img * height ?img"
    then have "c \<in> {0, 1, 2}" "p \<in> {0, 1}" by auto
    then show "rd ?s (data ?img) (4 * p + c) = rd ?s (data ?img) c"
      by (auto simp: rd_def)
  qed
  from equalize_flat_buffer[OF h f] obtain s' out where
    r: "equalizeImage ?img ?s = Inr (s', out)"
    and v: "\<forall>p<2. rgb s' out p = (0, 0, 0) \<and>
        rd s' (data out) (4 * p + 3) = rd ?s 0 (4 * p + 3)"
    by auto
  have "rgb s' out 0 = (0, 0, 0)" "rgb s' out 1 = (0, 0, 0)"
    using v[rule_format, of 0] v[rule_format, of 1] by simp_all
  moreover have "rd s' (data out) 3 = 255" "rd s' (data out) 7 = 100"
    using v[rule_format, of 0] v[rule_format, of 1] by (simp_all add: rd_def)
  moreover have "rgb ?s ?img 0 = (7, 8, 9)" "rgb ?s ?img 1 = (7, 8, 9)"
    by (simp_all add: rgb_def rd_def)
  ultimately show ?thesis using r by simp
qed

lemma normalize_twice:
  assumes ok: "img_ok s img"
    and ext: "\<forall>c<3. 0 \<in> set (channel s img c) \<and> 255 \<in> set (channel s img c)"
  shows "\<exists>s1 o1 s2 o2. normalizeImage img s = Inr (s1, o1) \<and>
            normalizeImage o1 s1 = Inr (s2, o2) \<and>
            width o2 = width o1 \<and> height o2 = height o1 \<and>
            (\<forall>j < width img * height img * 4. rd s2 (data o2) j = rd s1 (data o1) j)"
proof -
  let ?N = "width img * height img"
  let ?o1 = "\<lparr>width = width img, height = height img, data = length (u8 s)\<rparr>"
  from normalizeImage_paint[OF ok] obtain s1 where
    r1: "normalizeImage img s = Inr (s1, ?o1)"
    and P1: "frame (length (u8 s)) (s\<lparr>u8 := u8 s @ [u8 s ! data img]\<rparr>) s1 \<and>
     (\<forall>j. rd s1 (length (u8 s)) j =
        (if j < ?N * 4 \<and> j mod 4 \<noteq> 3
         then norm_level (channel s img (j mod 4)) (rd s (data img) j)
         else rd s (data img) j))" by blast
  have ok1: "img_ok s1 ?o1" using tone_result(1)[OF ok P1] .
  let ?o2 = "\<lparr>width = width ?o1, height = height ?o1, data = length (u8 s1)\<rparr>"
  from normalizeImage_paint[OF ok1] obtain s2 where
    r2: "normalizeImage ?o1 s1 = Inr (s2, ?o2)"
    and P2: "frame (length (u8 s1)) (s1\<lparr>u8 := u8 s1 @ [u8 s1 ! data ?o1]\<rparr>) s2 \<and>
     (\<forall>j. rd s2 (length (u8 s1)) j =
        (if j < width ?o1 * height ?o1 * 4 \<and> j mod 4 \<noteq> 3
         then norm_level (channel s1 ?o1 (j mod 4)) (rd s1 (data ?o1) j)
         else rd s1 (data ?o1) j))" by blast
  have P2': "frame (length (u8 s1)) (s1\<lparr>u8 := u8 s1 @ [u8 s1 ! length (u8 s)]\<rparr>) s2 \<and>
     (\<forall>j. rd s2 (length (u8 s1)) j =
        (if j < ?N * 4 \<and> j mod 4 \<noteq> 3
         then norm_level (channel s1 ?o1 (j mod 4)) (rd s1 (length (u8 s)) j)
         else rd s1 (length (u8 s)) j))"
    using P2 by simp
  have id: "norm_level (channel s img c) v = v" if "c < 3" "v \<in> set (channel s img c)" for c v
    using ext that channel_le[of _ s img c] by (intro norm_level_full) auto
  have fx: "norm_level (map (norm_level (channel s img c)) (channel s img c))
               (norm_level (channel s img c) v) = norm_level (channel s img c) v"
    if "c < 3" "v \<in> set (channel s img c)" for c v
  proof -
    have "map (norm_level (channel s img c)) (channel s img c) = channel s img c"
      using id[OF that(1)] by (intro map_idI) blast
    then show ?thesis by (simp only: id[OF that])
  qed
  have eq: "\<forall>j < ?N * 4. rd s2 (length (u8 s1)) j = rd s1 (length (u8 s)) j"
    using ok P1 P2' fx by (rule tone_twice)
  show ?thesis
  proof (rule exI[of _ s1], rule exI[of _ ?o1], rule exI[of _ s2], rule exI[of _ ?o2], intro conjI)
    show "normalizeImage img s = Inr (s1, ?o1)" by (fact r1)
    show "normalizeImage ?o1 s1 = Inr (s2, ?o2)" by (fact r2)
    show "width ?o2 = width ?o1" "height ?o2 = height ?o1" by simp_all
    show "\<forall>j < ?N * 4. rd s2 (data ?o2) j = rd s1 (data ?o1) j"
      unfolding ImageData.simps by (fact eq)
  qed
qed

lemma equalize_twice:
  assumes ok: "img_ok s img"
    and ext: "\<forall>c<3. 0 \<in> set (channel s img c) \<and> 255 \<in> set (channel s img c)"
    and keep: "\<forall>c<3. \<forall>v\<in>set (channel s img c). eq_level (channel s img c) v = 0 \<longrightarrow> v = 0"
  shows "\<exists>s1 o1 s2 o2. equalizeImage img s = Inr (s1, o1) \<and>
            equalizeImage o1 s1 = Inr (s2, o2) \<and>
            width o2 = width o1 \<and> height o2 = height o1 \<and>
            (\<forall>j < width img * height img * 4. rd s2 (data o2) j = rd s1 (data o1) j)"
proof -
  let ?N = "width img * height img"
  let ?o1 = "\<lparr>width = width img, height = height img, data = length (u8 s)\<rparr>"
  from equalizeImage_paint[OF ok] obtain s1 where
    r1: "equalizeImage img s = Inr (s1, ?o1)"
    and P1: "frame (length (u8 s)) (s\<lparr>u8 := u8 s @ [u8 s ! data img]\<rparr>) s1 \<and>
     (\<forall>j. rd s1 (length (u8 s)) j =
        (if j < ?N * 4 \<and> j mod 4 \<noteq> 3
         then eq_level (channel s img (j mod 4)) (rd s (data img) j)
         else rd s (data img) j))" by blast
  have ok1: "img_ok s1 ?o1" using tone_result(1)[OF ok P1] .
  let ?o2 = "\<lparr>width = width ?o1, height = height ?o1, data = length (u8 s1)\<rparr>"
  from equalizeImage_paint[OF ok1] obtain s2 where
    r2: "equalizeImage ?o1 s1 = Inr (s2, ?o2)"
    and P2: "frame (length (u8 s1)) (s1\<lparr>u8 := u8 s1 @ [u8 s1 ! data ?o1]\<rparr>) s2 \<and>
     (\<forall>j. rd s2 (length (u8 s1)) j =
        (if j < width ?o1 * height ?o1 * 4 \<and> j mod 4 \<noteq> 3
         then eq_level (channel s1 ?o1 (j mod 4)) (rd s1 (data ?o1) j)
         else rd s1 (data ?o1) j))" by blast
  have P2': "frame (length (u8 s1)) (s1\<lparr>u8 := u8 s1 @ [u8 s1 ! length (u8 s)]\<rparr>) s2 \<and>
     (\<forall>j. rd s2 (length (u8 s1)) j =
        (if j < ?N * 4 \<and> j mod 4 \<noteq> 3
         then eq_level (channel s1 ?o1 (j mod 4)) (rd s1 (length (u8 s)) j)
         else rd s1 (length (u8 s)) j))"
    using P2 by simp
  have fx: "eq_level (map (eq_level (channel s img c)) (channel s img c))
               (eq_level (channel s img c) v) = eq_level (channel s img c) v"
    if "c < 3" "v \<in> set (channel s img c)" for c v
  proof (rule eq_level_idem)
    have z: "0 \<in> set (channel s img c)" and m: "255 \<in> set (channel s img c)"
      using ext that(1) by blast+
    show "cdf_min (channel s img c) < length (channel s img c)"
      using z m by (rule cdf_min_less) simp
    have mn: "Min (set (channel s img c)) = 0" using z by (intro Min_eqI) auto
    show "x = Min (set (channel s img c))"
      if "x \<in> set (channel s img c)" "eq_level (channel s img c) x = 0" for x
      unfolding mn using keep \<open>c < 3\<close> that by blast
    show "v \<in> set (channel s img c)" by (fact that(2))
  qed
  have eq: "\<forall>j < ?N * 4. rd s2 (length (u8 s1)) j = rd s1 (length (u8 s)) j"
    using ok P1 P2' fx by (rule tone_twice)
  show ?thesis
  proof (rule exI[of _ s1], rule exI[of _ ?o1], rule exI[of _ s2], rule exI[of _ ?o2], intro conjI)
    show "equalizeImage img s = Inr (s1, ?o1)" by (fact r1)
    show "equalizeImage ?o1 s1 = Inr (s2, ?o2)" by (fact r2)
    show "width ?o2 = width ?o1" "height ?o2 = height ?o1" by simp_all
    show "\<forall>j < ?N * 4. rd s2 (data ?o2) j = rd s1 (data ?o1) j"
      unfolding ImageData.simps by (fact eq)
  qed
qed

lemma equalize_two_passes:
  assumes ok: "img_ok s img"
  shows "\<exists>s1 s2. equalizeImage img s =
            Inr (s1, \<lparr>width = width img, height = height img, data = length (u8 s)\<rparr>) \<and>
        equalizeImage \<lparr>width = width img, height = height img, data = length (u8 s)\<rparr> s1 =
            Inr (s2, \<lparr>width = width img, height = height img, data = Suc (length (u8 s))\<rparr>) \<and>
        (\<forall>p<width img * height img. \<forall>c<3.
           rd s1 (length (u8 s)) (4 * p + c) =
             eq_level (channel s img c) (rd s (data img) (4 * p + c)) \<and>
           rd s2 (Suc (length (u8 s))) (4 * p + c) =
             eq_level (map (eq_level (channel s img c)) (channel s img c))
               (eq_level (channel s img c) (rd s (data img) (4 * p + c))))"
proof -
  let ?N = "width img * height img"
  let ?o1 = "\<lparr>width = width img, height = height img, data = length (u8 s)\<rparr>"
  from equalizeImage_paint[OF ok] obtain s1 where
    r1: "equalizeImage img s = Inr (s1, ?o1)"
    and P1: "frame (length (u8 s)) (s\<lparr>u8 := u8 s @ [u8 s ! data img]\<rparr>) s1 \<and>
     (\<forall>j. rd s1 (length (u8 s)) j =
        (if j < ?N * 4 \<and> j mod 4 \<noteq> 3
         then eq_level (channel s img (j mod 4)) (rd s (data img) j)
         else rd s (data img) j))" by blast
  have ok1: "img_ok s1 ?o1" using tone_result(1)[OF ok P1] .
  have l1: "length (u8 s1) = Suc (length (u8 s))" using P1 by (simp add: frame_def)
  let ?o2 = "\<lparr>width = width ?o1, height = height ?o1, data = length (u8 s1)\<rparr>"
  from equalizeImage_paint[OF ok1] obtain s2 where
    r2: "equalizeImage ?o1 s1 = Inr (s2, ?o2)"
    and P2: "frame (length (u8 s1)) (s1\<lparr>u8 := u8 s1 @ [u8 s1 ! data ?o1]\<rparr>) s2 \<and>
     (\<forall>j. rd s2 (length (u8 s1)) j =
        (if j < width ?o1 * height ?o1 * 4 \<and> j mod 4 \<noteq> 3
         then eq_level (channel s1 ?o1 (j mod 4)) (rd s1 (data ?o1) j)
         else rd s1 (data ?o1) j))" by blast
  have px: "rd s1 (length (u8 s)) (4 * p + c) =
             eq_level (channel s img c) (rd s (data img) (4 * p + c)) \<and>
           rd s2 (Suc (length (u8 s))) (4 * p + c) =
             eq_level (map (eq_level (channel s img c)) (channel s img c))
               (eq_level (channel s img c) (rd s (data img) (4 * p + c)))"
    if p: "p < ?N" and c: "c < 3" for p c
  proof -
    have a: "rd s1 (length (u8 s)) (4 * p + c) =
             eq_level (channel s img c) (rd s (data img) (4 * p + c))"
      using tone_result(5)[OF ok P1 p c] .
    have ch: "channel s1 ?o1 c = map (eq_level (channel s img c)) (channel s img c)"
      using tone_result(3)[OF ok P1 c] .
    have p': "p < width ?o1 * height ?o1" using p by simp
    have "rd s2 (length (u8 s1)) (4 * p + c) =
            eq_level (channel s1 ?o1 c) (rd s1 (data ?o1) (4 * p + c))"
      using tone_result(5)[OF ok1 P2 p' c] .
    also have "rd s1 (data ?o1) (4 * p + c) = rd s1 (length (u8 s)) (4 * p + c)" by simp
    finally have "rd s2 (Suc (length (u8 s))) (4 * p + c) =
            eq_level (map (eq_level (channel s img c)) (channel s img c))
               (eq_level (channel s img c) (rd s (data img) (4 * p + c)))"
      by (simp only: ch a l1)
    with a show ?thesis by (rule conjI)
  qed
  show ?thesis
  proof (rule exI[of _ s1], rule exI[of _ s2], intro conjI)
    show "equalizeImage img s = Inr (s1, ?o1)" by (fact r1)
    show "equalizeImage ?o1 s1 =
       Inr (s2, \<lparr>width = width img, height = height img, data = Suc (length (u8 s))\<rparr>)"
      using r2 by (simp add: l1)
    show "\<forall>p<width img * height img. \<forall>c<3.
           rd s1 (length (u8 s)) (4 * p + c) =
             eq_level (channel s img c) (rd s (data img) (4 * p + c)) \<and>
           rd s2 (Suc (length (u8 s))) (4 * p + c) =
             eq_level (map (eq_level (channel s img c)) (channel s img c))
               (eq_level (channel s img c) (rd s (data img) (4 * p + c)))"
      by (intro allI impI) (rule px)
  qed
qed

lemma scaled_level:
  assumes "0 \<le> a" "a \<le> b" "0 < b" "\<bar>a / b * 255 - real n\<bar> \<le> 2 / 5" "n \<le> 255"
  shows "ToUint8Clamp (Math_round (fmul (fdiv a b) 255)) = n"
proof -
  have "\<bar>fmul (fdiv a b) 255 - a / b * 255\<bar> \<le> 511 / 2 ^ 53"
    using assms(1-3) by (rule scale_error)
  moreover have "(511::real) / 2 ^ 53 < 1 / 10" by simp
  ultimately have "\<bar>fmul (fdiv a b) 255 - real n\<bar> < 1 / 2" using assms(4) by linarith
  then have "Math_round (fmul (fdiv a b) 255) = real n" by (rule Math_round_near)
  then show ?thesis using assms(5) by (simp add: ToUint8Clamp_of_nat)
qed

text \<open>The levels equalization stores for a channel that holds the samples 0, 1 and 2
  once and the sample 255 another 764 times, and for the channel it makes of that.\<close>

lemma eq_level_765:
  "eq_level ([0, 1, 2] @ replicate 764 255) 0 = 0"
  "eq_level ([0, 1, 2] @ replicate 764 255) 1 = 0"
  "eq_level ([0, 1, 2] @ replicate 764 255) 2 = 1"
  "eq_level ([0, 1, 2] @ replicate 764 255) 255 = 255"
  "eq_level ([0, 0, 1] @ replicate 764 255) 1 = 0"
proof -
  let ?xs = "[0, 1, 2] @ replicate 764 (255::nat)"
  let ?ys = "[0, 0, 1] @ replicate 764 (255::nat)"
  have mx: "Min (set ?xs) = 0" by (intro Min_eqI) auto
  have my: "Min (set ?ys) = 0" by (intro Min_eqI) auto
  have cx: "cdf_min ?xs = 1" by (simp add: cdf_min_def mx count_le_def)
  have cy: "cdf_min ?ys = 2" by (simp add: cdf_min_def my count_le_def)
  have len: "length ?xs = 767" "length ?ys = 767" by simp_all
  have lx: "cdf_min ?xs < length ?xs" unfolding cx len by simp
  have ly: "cdf_min ?ys < length ?ys" unfolding cy len by simp
  have n: "count_le ?xs 0 = 1" "count_le ?xs 1 = 2" "count_le ?xs 2 = 3" "count_le ?xs 255 = 767"
    "count_le ?ys 1 = 3"
    by (simp_all add: count_le_def)
  show "eq_level ?xs 0 = 0"
    unfolding eq_level_fraction[OF lx] n cx len by (rule scaled_level) simp_all
  show "eq_level ?xs 1 = 0"
    unfolding eq_level_fraction[OF lx] n cx len by (rule scaled_level) simp_all
  show "eq_level ?xs 2 = 1"
    unfolding eq_level_fraction[OF lx] n cx len by (rule scaled_level) simp_all
  show "eq_level ?xs 255 = 255"
    unfolding eq_level_fraction[OF lx] n cx len by (rule scaled_level) simp_all
  show "eq_level ?ys 1 = 0"
    unfolding eq_level_fraction[OF ly] n cy len by (rule scaled_level) simp_all
qed

lemma channel_attains:
  "p < width img * height img \<Longrightarrow> rd s (data img) (4 * p + c) = v \<Longrightarrow> v \<in> set (channel s img c)"
  using channel_member[of p img s c] by simp

lemma channel_elem:
  assumes "v \<in> set (channel s img c)"
  obtains p where "p < width img * height img" "v = rd s (data img) (4 * p + c)"
  using assms by (auto simp: channel_def)

text \<open>
  Claim C6, as the code has it. On an image whose red, green and blue channels each
  hold a sample 0 and a sample 255, normalization is idempotent: a second application
  returns the samples of the first. Equalization is idempotent on such an image when
  its first application makes 0 only the samples that were 0; it can merge other low
  levels into 0, and then the second application moves levels that the first had set.
\<close>

theorem normalize_equalize_idempotent:
  assumes "img_ok s img"
    and "\<forall>c<3. (\<exists>p<width img * height img. rd s (data img) (4 * p + c) = 0) \<and>
                (\<exists>p<width img * height img. rd s (data img) (4 * p + c) = 255)"
  shows "(\<exists>s1 o1 s2 o2. normalizeImage img s = Inr (s1, o1) \<and>
            normalizeImage o1 s1 = Inr (s2, o2) \<and>
            width o2 = width o1 \<and> height o2 = height o1 \<and>
            (\<forall>j < width img * height img * 4. rd s2 (data o2) j = rd s1 (data o1) j)) \<and>
         (\<exists>s1 o1 s2 o2. equalizeImage img s = Inr (s1, o1) \<and>
            equalizeImage o1 s1 = Inr (s2, o2) \<and>
            width o2 = width o1 \<and> height o2 = height o1 \<and>
            ((\<forall>p<width img * height img. \<forall>c<3.
                rd s1 (data o1) (4 * p + c) = 0 \<longrightarrow> rd s (data img) (4 * p + c) = 0) \<longrightarrow>
             (\<forall>j < width img * height img * 4. rd s2 (data o2) j = rd s1 (data o1) j)))"
proof -
  let ?N = "width img * height img"
  have ext: "\<forall>c<3. 0 \<in> set (channel s img c) \<and> 255 \<in> set (channel s img c)"
    using assms(2) by (blast intro: channel_attains)
  have N: "(\<exists>s1 o1 s2 o2. normalizeImage img s = Inr (s1, o1) \<and>
            normalizeImage o1 s1 = Inr (s2, o2) \<and>
            width o2 = width o1 \<and> height o2 = height o1 \<and>
            (\<forall>j < ?N * 4. rd s2 (data o2) j = rd s1 (data o1) j))"
    using assms(1) ext by (rule normalize_twice)
  let ?o1 = "\<lparr>width = width img, height = height img, data = length (u8 s)\<rparr>"
  let ?o2 = "\<lparr>width = width img, height = height img, data = Suc (length (u8 s))\<rparr>"
  from equalize_two_passes[OF assms(1)] obtain s1 s2 where
    r1: "equalizeImage img s = Inr (s1, ?o1)" and r2: "equalizeImage ?o1 s1 = Inr (s2, ?o2)"
    and v: "\<And>p c. p < ?N \<Longrightarrow> c < 3 \<Longrightarrow>
           rd s1 (length (u8 s)) (4 * p + c) =
             eq_level (channel s img c) (rd s (data img) (4 * p + c))" by blast
  have E: "\<forall>j < ?N * 4. rd s2 (data ?o2) j = rd s1 (data ?o1) j"
    if keep: "\<forall>p<?N. \<forall>c<3. rd s1 (data ?o1) (4 * p + c) = 0 \<longrightarrow> rd s (data img) (4 * p + c) = 0"
  proof -
    have k: "\<forall>c<3. \<forall>v\<in>set (channel s img c). eq_level (channel s img c) v = 0 \<longrightarrow> v = 0"
    proof (intro allI impI ballI)
      fix c v assume c: "c < 3" and m: "v \<in> set (channel s img c)"
        and z: "eq_level (channel s img c) v = 0"
      from m obtain p where p: "p < ?N" "v = rd s (data img) (4 * p + c)" by (rule channel_elem)
      have "rd s1 (data ?o1) (4 * p + c) = 0" using v[OF p(1) c] z p(2) by simp
      with keep p(1) c have "rd s (data img) (4 * p + c) = 0" by blast
      then show "v = 0" using p(2) by simp
    qed
    from equalize_twice[OF assms(1) ext k] obtain t1 p1 t2 p2 where
      a: "equalizeImage img s = Inr (t1, p1)" and b: "equalizeImage p1 t1 = Inr (t2, p2)"
      and e: "\<forall>j < ?N * 4. rd t2 (data p2) j = rd t1 (data p1) j" by blast
    from a r1 have 1: "t1 = s1" "p1 = ?o1" by simp_all
    from b r2 have 2: "t2 = s2" "p2 = ?o2" unfolding 1 by simp_all
    show ?thesis using e unfolding 1 2 .
  qed
  have Q: "\<exists>s1 o1 s2 o2. equalizeImage img s = Inr (s1, o1) \<and>
            equalizeImage o1 s1 = Inr (s2, o2) \<and>
            width o2 = width o1 \<and> height o2 = height o1 \<and>
            ((\<forall>p<?N. \<forall>c<3.
                rd s1 (data o1) (4 * p + c) = 0 \<longrightarrow> rd s (data img) (4 * p + c) = 0) \<longrightarrow>
             (\<forall>j < ?N * 4. rd s2 (data o2) j = rd s1 (data o1) j))"
  proof (rule exI[of _ s1], rule exI[of _ ?o1], rule exI[of _ s2], rule exI[of _ ?o2], intro conjI)
    show "equalizeImage img s = Inr (s1, ?o1)" by (fact r1)
    show "equalizeImage ?o1 s1 = Inr (s2, ?o2)" by (fact r2)
    show "width ?o2 = width ?o1" "height ?o2 = height ?o1" by simp_all
    show "(\<forall>p<?N. \<forall>c<3. rd s1 (data ?o1) (4 * p + c) = 0 \<longrightarrow> rd s (data img) (4 * p + c) = 0) \<longrightarrow>
       (\<forall>j < ?N * 4. rd s2 (data ?o2) j = rd s1 (data ?o1) j)"
      using E by blast
  qed
  from N Q show ?thesis ..
qed

text \<open>The theorem at the image of a black and a white pixel.\<close>

theorem normalize_equalize_idempotent_witness:
  "img_ok \<lparr>u8 = [[0, 0, 0, 255, 255, 255, 255, 255]], f64 = []\<rparr> \<lparr>width = 2, height = 1, data = 0\<rparr> \<and>
   (\<exists>s1 o1 s2 o2. normalizeImage \<lparr>width = 2, height = 1, data = 0\<rparr>
        \<lparr>u8 = [[0, 0, 0, 255, 255, 255, 255, 255]], f64 = []\<rparr> = Inr (s1, o1) \<and>
      normalizeImage o1 s1 = Inr (s2, o2) \<and>
      rgb s2 o2 0 = rgb s1 o1 0 \<and> rgb s2 o2 1 = rgb s1 o1 1) \<and>
   (\<exists>s1 o1 s2 o2. equalizeImage \<lparr>width = 2, height = 1, data = 0\<rparr>
        \<lparr>u8 = [[0, 0, 0, 255, 255, 255, 255, 255]], f64 = []\<rparr> = Inr (s1, o1) \<and>
      equalizeImage o1 s1 = Inr (s2, o2) \<and>
      rgb s2 o2 0 = rgb s1 o1 0 \<and> rgb s2 o2 1 = rgb s1 o1 1)"
proof -
  let ?s = "\<lparr>u8 = [[0, 0, 0, 255, 255, 255, 255, 255]], f64 = []\<rparr>"
  let ?img = "\<lparr>width = 2, height = 1, data = 0\<rparr>"
  let ?N = "width ?img * height ?img"
  have h: "img_ok ?s ?img" by (simp add: img_ok_def)
  have rd0: "rd ?s (data ?img) (4 * 0 + c) = 0" and rd1: "rd ?s (data ?img) (4 * 1 + c) = 255"
    if "c < 3" for c
  proof -
    from that have "c \<in> {0, 1, 2}" by auto
    then show "rd ?s (data ?img) (4 * 0 + c) = 0" "rd ?s (data ?img) (4 * 1 + c) = 255"
      by (auto simp: rd_def)
  qed
  have e: "\<forall>c<3. (\<exists>p<?N. rd ?s (data ?img) (4 * p + c) = 0) \<and>
                (\<exists>p<?N. rd ?s (data ?img) (4 * p + c) = 255)"
  proof (intro allI impI conjI)
    fix c :: nat assume c: "c < 3"
    show "\<exists>p<?N. rd ?s (data ?img) (4 * p + c) = 0"
      by (rule exI[of _ 0]) (simp add: rd0[OF c, simplified])
    show "\<exists>p<?N. rd ?s (data ?img) (4 * p + c) = 255"
      by (rule exI[of _ 1]) (use rd1[OF c] in simp)
  qed
  note T = normalize_equalize_idempotent[OF h e]
  from T obtain s1 o1 s2 o2 where
    n1: "normalizeImage ?img ?s = Inr (s1, o1)" and n2: "normalizeImage o1 s1 = Inr (s2, o2)"
    and nv: "\<forall>j < ?N * 4. rd s2 (data o2) j = rd s1 (data o1) j" by blast
  have nrgb: "rgb s2 o2 0 = rgb s1 o1 0" "rgb s2 o2 1 = rgb s1 o1 1"
    using nv by (simp_all add: rgb_def)
  from T obtain t1 p1 t2 p2 where
    e1: "equalizeImage ?img ?s = Inr (t1, p1)" and e2: "equalizeImage p1 t1 = Inr (t2, p2)"
    and ev: "(\<forall>p<?N. \<forall>c<3. rd t1 (data p1) (4 * p + c) = 0 \<longrightarrow> rd ?s (data ?img) (4 * p + c) = 0) \<longrightarrow>
             (\<forall>j < ?N * 4. rd t2 (data p2) j = rd t1 (data p1) j)" by blast
  from equalize_two_passes[OF h] obtain u1 u2 where
    r1: "equalizeImage ?img ?s = Inr (u1, \<lparr>width = width ?img, height = height ?img, data = length (u8 ?s)\<rparr>)"
    and v: "\<And>p c. p < ?N \<Longrightarrow> c < 3 \<Longrightarrow>
           rd u1 (length (u8 ?s)) (4 * p + c) =
             eq_level (channel ?s ?img c) (rd ?s (data ?img) (4 * p + c))" by blast
  from e1 r1 have same: "t1 = u1" "data p1 = length (u8 ?s)" by simp_all
  have ch: "channel ?s ?img c = [0, 255]" if "c < 3" for c
  proof -
    have "[0..<?N] = [0, 1]" by (simp add: upt_rec)
    then show ?thesis using rd0[OF that] rd1[OF that] by (simp add: channel_def)
  qed
  have l255: "eq_level [0, 255] 255 = 255"
  proof -
    have m: "Min (set [0, 255 :: nat]) = 0" by simp
    have c: "cdf_min [0, 255] = 1" "count_le [0, 255] 255 = 2" "length [0, 255 :: nat] = 2"
      by (simp_all add: cdf_min_def count_le_def)
    have lt: "cdf_min [0, 255] < length [0, 255 :: nat]" unfolding c by simp
    show ?thesis unfolding eq_level_fraction[OF lt] c by (rule scaled_level) simp_all
  qed
  have keep: "\<forall>p<?N. \<forall>c<3. rd t1 (data p1) (4 * p + c) = 0 \<longrightarrow> rd ?s (data ?img) (4 * p + c) = 0"
  proof (intro allI impI)
    fix p c :: nat assume p: "p < ?N" and c: "c < 3" and z: "rd t1 (data p1) (4 * p + c) = 0"
    from p have "p = 0 \<or> p = 1" by auto
    then show "rd ?s (data ?img) (4 * p + c) = 0"
    proof
      assume "p = 0" then show ?thesis using rd0[OF c] by simp
    next
      assume p1: "p = 1"
      have "rd t1 (data p1) (4 * p + c) = eq_level (channel ?s ?img c) (rd ?s (data ?img) (4 * p + c))"
        unfolding same using v[OF p c] .
      also have "\<dots> = 255" unfolding ch[OF c] p1 rd1[OF c] by (rule l255)
      finally show ?thesis using z by simp
    qed
  qed
  from ev keep have "\<forall>j < ?N * 4. rd t2 (data p2) j = rd t1 (data p1) j" by blast
  then have ergb: "rgb t2 p2 0 = rgb t1 p1 0" "rgb t2 p2 1 = rgb t1 p1 1"
    by (simp_all add: rgb_def)
  show ?thesis
    using h n1 n2 nrgb e1 e2 ergb by blast
qed

text \<open>
  The claim as the specification states it fails for equalization on the image of 767
  pixels in a row whose first three are the grays 0, 1 and 2 and whose other 764 are
  white. Every channel holds a 0 and a 255. The first application makes the gray 2 a
  1 (and the gray 1 a 0); the second application makes that 1 a 0.
\<close>

theorem equalize_twice_counterexample:
  "rgb \<lparr>u8 = [[0, 0, 0, 255, 1, 1, 1, 255, 2, 2, 2, 255] @ replicate 3056 255], f64 = []\<rparr>
      \<lparr>width = 767, height = 1, data = 0\<rparr> 0 = (0, 0, 0) \<and>
   rgb \<lparr>u8 = [[0, 0, 0, 255, 1, 1, 1, 255, 2, 2, 2, 255] @ replicate 3056 255], f64 = []\<rparr>
      \<lparr>width = 767, height = 1, data = 0\<rparr> 3 = (255, 255, 255) \<and>
   (case equalizeImage \<lparr>width = 767, height = 1, data = 0\<rparr>
        \<lparr>u8 = [[0, 0, 0, 255, 1, 1, 1, 255, 2, 2, 2, 255] @ replicate 3056 255], f64 = []\<rparr> of
      Inl e \<Rightarrow> None
    | Inr (s1, o1) \<Rightarrow>
        (case equalizeImage o1 s1 of
           Inl e \<Rightarrow> None
         | Inr (s2, o2) \<Rightarrow> Some (rgb s1 o1 2, rgb s2 o2 2)))
     = Some ((1, 1, 1), (0, 0, 0))"
proof -
  let ?s = "\<lparr>u8 = [[0, 0, 0, 255, 1, 1, 1, 255, 2, 2, 2, 255] @ replicate 3056 255], f64 = []\<rparr>"
  let ?img = "\<lparr>width = 767, height = 1, data = 0\<rparr>"
  let ?N = "width ?img * height ?img"
  let ?xs = "[0, 1, 2] @ replicate 764 (255::nat)"
  let ?ys = "[0, 0, 1] @ replicate 764 (255::nat)"
  have h: "img_ok ?s ?img" by (simp add: img_ok_def)
  have lo: "rd ?s (data ?img) (4 * i + c) = i" if "i < 3" "c < 3" for i c
  proof -
    from that have "i \<in> {0, 1, 2}" "c \<in> {0, 1, 2}" by auto
    then show ?thesis by (auto simp: rd_def)
  qed
  have hi: "rd ?s (data ?img) (4 * i + c) = 255" if "3 \<le> i" "i < 767" "c < 3" for i c
    using that by (simp add: rd_def nth_append)
  have ch: "channel ?s ?img c = ?xs" if c: "c < 3" for c
  proof (rule nth_equalityI)
    show "length (channel ?s ?img c) = length ?xs" by (simp add: channel_def)
  next
    fix i assume "i < length (channel ?s ?img c)"
    then have i: "i < 767" by (simp add: channel_def)
    have l: "channel ?s ?img c ! i = rd ?s (data ?img) (4 * i + c)"
      using i by (simp add: channel_def)
    show "channel ?s ?img c ! i = ?xs ! i"
    proof (cases "i < 3")
      case True
      then have "i \<in> {0, 1, 2}" by auto
      then have "?xs ! i = i" by auto
      then show ?thesis unfolding l using lo[OF True c] by simp
    next
      case False
      then have "?xs ! i = 255" using i by (simp add: nth_append)
      then show ?thesis unfolding l using hi[of i c] False i c by simp
    qed
  qed
  have my: "map (eq_level ?xs) ?xs = ?ys"
    by (simp only: map_append list.map map_replicate eq_level_765)
  from equalize_two_passes[OF h] obtain s1 s2 where
    r1: "equalizeImage ?img ?s =
          Inr (s1, \<lparr>width = width ?img, height = height ?img, data = length (u8 ?s)\<rparr>)"
    and r2: "equalizeImage \<lparr>width = width ?img, height = height ?img, data = length (u8 ?s)\<rparr> s1 =
          Inr (s2, \<lparr>width = width ?img, height = height ?img, data = Suc (length (u8 ?s))\<rparr>)"
    and v: "\<And>p c. p < ?N \<Longrightarrow> c < 3 \<Longrightarrow>
           rd s1 (length (u8 ?s)) (4 * p + c) =
             eq_level (channel ?s ?img c) (rd ?s (data ?img) (4 * p + c)) \<and>
           rd s2 (Suc (length (u8 ?s))) (4 * p + c) =
             eq_level (map (eq_level (channel ?s ?img c)) (channel ?s ?img c))
               (eq_level (channel ?s ?img c) (rd ?s (data ?img) (4 * p + c)))" by blast
  have p2: "(2::nat) < ?N" by simp
  have three: "(2::nat) < 3" by simp
  have one: "rd s1 (length (u8 ?s)) (4 * 2 + c) = 1"
    and two: "rd s2 (Suc (length (u8 ?s))) (4 * 2 + c) = 0" if c: "c < 3" for c
  proof -
    note w = v[OF p2 c, unfolded ch[OF c] lo[OF three c] my eq_level_765]
    show "rd s1 (length (u8 ?s)) (4 * 2 + c) = 1" using w by blast
    show "rd s2 (Suc (length (u8 ?s))) (4 * 2 + c) = 0" using w by blast
  qed
  have a: "rgb s1 \<lparr>width = width ?img, height = height ?img, data = length (u8 ?s)\<rparr> 2 = (1, 1, 1)"
    using one[of 0] one[of 1] one[of 2] by (simp add: rgb_def)
  have b: "rgb s2 \<lparr>width = width ?img, height = height ?img, data = Suc (length (u8 ?s))\<rparr> 2 = (0, 0, 0)"
    using two[of 0] two[of 1] two[of 2] by (simp add: rgb_def)
  have i0: "rgb ?s ?img 0 = (0, 0, 0)"
    using lo[of 0 0] lo[of 0 1] lo[of 0 2] by (simp add: rgb_def)
  have i3: "rgb ?s ?img 3 = (255, 255, 255)"
    using hi[of 3 0] hi[of 3 1] hi[of 3 2] by (simp add: rgb_def)
  have "(case equalizeImage ?img ?s of
      Inl e \<Rightarrow> None
    | Inr (s1, o1) \<Rightarrow>
        (case equalizeImage o1 s1 of
           Inl e \<Rightarrow> None
         | Inr (s2, o2) \<Rightarrow> Some (rgb s1 o1 2, rgb s2 o2 2)))
     = Some ((1, 1, 1), (0, 0, 0))"
    unfolding r1 sum.case prod.case r2 a b ..
  with i0 i3 show ?thesis by (intro conjI)
qed

section \<open>Masks on a spectrum\<close>

lemma upt_add_Suc: "[n..<n + Suc k] = n # [Suc n..<Suc n + k]"
  by (simp add: upt_conv_Cons)

lemma copy_rows_gen:
  assumes "\<And>a. a \<in> set rows \<Longrightarrow> a < length (f64 s)"
  shows "fold (\<lambda>a (s, acc). (s\<lparr>f64 := f64 s @ [f64 s ! a]\<rparr>, acc @ [length (f64 s)])) rows
           (s\<lparr>f64 := f64 s @ ext\<rparr>, acc) =
         (s\<lparr>f64 := f64 s @ ext @ map (\<lambda>a. f64 s ! a) rows\<rparr>,
          acc @ [length (f64 s) + length ext..<length (f64 s) + length ext + length rows])"
  using assms
proof (induction rows arbitrary: ext acc)
  case Nil
  then show ?case by simp
next
  case (Cons a rows)
  have a: "a < length (f64 s)" using Cons.prems by simp
  have step: "(\<lambda>a (s, acc). (s\<lparr>f64 := f64 s @ [f64 s ! a]\<rparr>, acc @ [length (f64 s)])) a
                (s\<lparr>f64 := f64 s @ ext\<rparr>, acc)
            = (s\<lparr>f64 := f64 s @ (ext @ [f64 s ! a])\<rparr>, acc @ [length (f64 s) + length ext])"
    using a by (simp add: nth_append)
  have up: "[length (f64 s) + length ext..<length (f64 s) + length ext + length (a # rows)]
      = (length (f64 s) + length ext) # [length (f64 s) + length (ext @ [f64 s ! a])..<
            length (f64 s) + length (ext @ [f64 s ! a]) + length rows]"
    using upt_add_Suc[of "length (f64 s) + length ext" "length rows"] by simp
  show ?case
    unfolding fold_simps step
    using Cons.IH[of "ext @ [f64 s ! a]" "acc @ [length (f64 s) + length ext]"] Cons.prems
    by (simp only: up) simp
qed

lemma copy_rows_eq:
  assumes "\<And>a. a \<in> set rows \<Longrightarrow> a < length (f64 s)"
  shows "copy_rows rows s =
         (s\<lparr>f64 := f64 s @ map (\<lambda>a. f64 s ! a) rows\<rparr>,
          [length (f64 s)..<length (f64 s) + length rows])"
  using copy_rows_gen[OF assms, of rows "[]" "[]"] by (simp add: copy_rows_def)

lemma masked_row_0 [simp]: "masked_row P 0 row = row"
  by (simp add: masked_row_def map_nth)

lemma length_masked_row [simp]: "length (masked_row P k row) = length row"
  by (simp add: masked_row_def)

lemma masked_row_nth:
  "x < length row \<Longrightarrow> masked_row P k row ! x = (if x < k then jmul (row ! x) (P x) else row ! x)"
  by (simp add: masked_row_def)

lemma masked_row_Suc:
  "(masked_row P k row)[k := jmul (if k < length row then masked_row P k row ! k else NaN) (P k)]
     = masked_row P (Suc k) row"
proof (rule nth_equalityI)
  show "length ((masked_row P k row)[k := jmul (if k < length row then masked_row P k row ! k else NaN) (P k)])
      = length (masked_row P (Suc k) row)" by simp
next
  fix i assume "i < length ((masked_row P k row)[k := jmul (if k < length row then masked_row P k row ! k else NaN) (P k)])"
  then have i: "i < length row" by simp
  show "(masked_row P k row)[k := jmul (if k < length row then masked_row P k row ! k else NaN) (P k)] ! i
      = masked_row P (Suc k) row ! i"
    using i by (cases "i = k") (simp_all add: masked_row_nth)
qed

lemma wrf_f64:
  "f64 (wrf a k (jmul (rdf s a k) p) s) =
     (f64 s)[a := (f64 s ! a)[k := jmul (if k < length (f64 s ! a) then f64 s ! a ! k else NaN) p]]"
  by (simp add: wrf_def rdf_def)

lemma wrf_other [simp]: "u8 (wrf a k v s) = u8 s"
  by (simp add: wrf_def)

lemma store_eqI: "f64 s = f64 t \<Longrightarrow> u8 s = u8 t \<Longrightarrow> store.more s = store.more t \<Longrightarrow> s = t"
  for s t :: "'a store_scheme"
  by simp

lemma mask_row_loop:
  assumes A: "A < length (f64 t)" and B: "B < length (f64 t)" and AB: "A \<noteq> B"
    and ry: "y < length re'" "re' ! y = A" and iy: "y < length im'" "im' ! y = B"
  shows "fold (\<lambda>x. mask_cell w h r ty re' im' y x) [0..<k] (Inr t) =
     Inr (t\<lparr>f64 := (f64 t)[A := masked_row (\<lambda>x. pass_mask ty (centre_distance w h x y) r) k (f64 t ! A),
                            B := masked_row (\<lambda>x. pass_mask ty (centre_distance w h x y) r) k (f64 t ! B)]\<rparr>)"
proof (induction k)
  case 0
  then show ?case by simp
next
  case (Suc k)
  define P where "P = (\<lambda>x. pass_mask ty (centre_distance w h x y) r)"
  define ra where "ra = f64 t ! A"
  define rb where "rb = f64 t ! B"
  define tk where "tk = t\<lparr>f64 := (f64 t)[A := masked_row P k ra, B := masked_row P k rb]\<rparr>"
  have ftk: "f64 tk = (f64 t)[A := masked_row P k ra, B := masked_row P k rb]"
    by (simp add: tk_def)
  have ra': "f64 tk ! A = masked_row P k ra" unfolding ftk using A B AB by simp
  define s1 where "s1 = wrf A k (jmul (rdf tk A k) (P k)) tk"
  have f1: "f64 s1 = (f64 t)[A := masked_row P (Suc k) ra, B := masked_row P k rb]"
  proof -
    have "f64 s1 = (f64 tk)[A := (masked_row P k ra)
              [k := jmul (if k < length ra then masked_row P k ra ! k else NaN) (P k)]]"
      unfolding s1_def wrf_f64 ra' by simp
    also have "\<dots> = (f64 tk)[A := masked_row P (Suc k) ra]"
      by (simp only: masked_row_Suc[of P k ra])
    also have "\<dots> = (f64 t)[A := masked_row P (Suc k) ra, B := masked_row P k rb]"
      unfolding ftk using AB by (simp add: list_update_swap[of A B])
    finally show ?thesis .
  qed
  have rb1: "f64 s1 ! B = masked_row P k rb" unfolding f1 using B by simp
  define s2 where "s2 = wrf B k (jmul (rdf s1 B k) (P k)) s1"
  have f2: "f64 s2 = (f64 t)[A := masked_row P (Suc k) ra, B := masked_row P (Suc k) rb]"
  proof -
    have "f64 s2 = (f64 s1)[B := (masked_row P k rb)
              [k := jmul (if k < length rb then masked_row P k rb ! k else NaN) (P k)]]"
      unfolding s2_def wrf_f64 rb1 by simp
    also have "\<dots> = (f64 s1)[B := masked_row P (Suc k) rb]"
      by (simp only: masked_row_Suc[of P k rb])
    also have "\<dots> = (f64 t)[A := masked_row P (Suc k) ra, B := masked_row P (Suc k) rb]"
      unfolding f1 by simp
    finally show ?thesis .
  qed
  have e: "s2 = t\<lparr>f64 := (f64 t)[A := masked_row P (Suc k) ra, B := masked_row P (Suc k) rb]\<rparr>"
    by (rule store_eqI) (simp_all add: f2, simp_all add: s2_def s1_def tk_def wrf_def)
  have "fold (\<lambda>x. mask_cell w h r ty re' im' y x) [0..<Suc k] (Inr t)
      = mask_cell w h r ty re' im' y k (Inr tk)"
    using Suc.IH by (simp add: tk_def P_def ra_def rb_def)
  also have "\<dots> = Inr s2"
    using ry iy by (simp add: mask_cell_def Let_def s2_def s1_def P_def)
  finally show ?case unfolding e P_def ra_def rb_def .
qed

lemma mask_rows_loop:
  assumes len: "length (f64 t0) = L + 2 * h" and n: "n \<le> h"
  shows "\<exists>t. fold (\<lambda>y. fold (\<lambda>x. mask_cell w h r ty [L..<L + h] [L + h..<L + h + h] y x) [0..<w])
              [0..<n] (Inr t0) = Inr t \<and>
           u8 t = u8 t0 \<and> length (f64 t) = L + 2 * h \<and>
           (\<forall>a < L. f64 t ! a = f64 t0 ! a) \<and>
           (\<forall>y < h. f64 t ! (L + y) =
              (if y < n then masked_row (\<lambda>x. pass_mask ty (centre_distance w h x y) r) w (f64 t0 ! (L + y))
               else f64 t0 ! (L + y)) \<and>
              f64 t ! (L + h + y) =
              (if y < n then masked_row (\<lambda>x. pass_mask ty (centre_distance w h x y) r) w (f64 t0 ! (L + h + y))
               else f64 t0 ! (L + h + y)))"
  using n
proof (induction n)
  case 0
  then show ?case using len by simp
next
  case (Suc n)
  let ?P = "\<lambda>y x. pass_mask ty (centre_distance w h x y) r"
  from Suc obtain t where
    f: "fold (\<lambda>y. fold (\<lambda>x. mask_cell w h r ty [L..<L + h] [L + h..<L + h + h] y x) [0..<w])
              [0..<n] (Inr t0) = Inr t"
    and u: "u8 t = u8 t0" and l: "length (f64 t) = L + 2 * h"
    and low: "\<forall>a < L. f64 t ! a = f64 t0 ! a"
    and rows: "\<forall>y < h. f64 t ! (L + y) =
              (if y < n then masked_row (?P y) w (f64 t0 ! (L + y)) else f64 t0 ! (L + y)) \<and>
              f64 t ! (L + h + y) =
              (if y < n then masked_row (?P y) w (f64 t0 ! (L + h + y)) else f64 t0 ! (L + h + y))"
    by auto
  have nh: "n < h" using Suc.prems by simp
  define A where "A = L + n"
  define B where "B = L + h + n"
  have A: "A < length (f64 t)" and B: "B < length (f64 t)" and AB: "A \<noteq> B"
    using nh l by (simp_all add: A_def B_def)
  have ry: "n < length [L..<L + h]" "[L..<L + h] ! n = A"
    and iy: "n < length [L + h..<L + h + h]" "[L + h..<L + h + h] ! n = B"
    using nh by (simp_all add: A_def B_def)
  define t' where "t' = t\<lparr>f64 := (f64 t)[A := masked_row (?P n) w (f64 t ! A),
                                          B := masked_row (?P n) w (f64 t ! B)]\<rparr>"
  have step: "fold (\<lambda>x. mask_cell w h r ty [L..<L + h] [L + h..<L + h + h] n x) [0..<w] (Inr t) = Inr t'"
    unfolding t'_def by (rule mask_row_loop[OF A B AB ry iy])
  have tA: "f64 t ! A = f64 t0 ! A" and tB: "f64 t ! B = f64 t0 ! B"
    using rows nh by (simp_all add: A_def B_def)
  have ft': "f64 t' = (f64 t)[A := masked_row (?P n) w (f64 t0 ! A),
                              B := masked_row (?P n) w (f64 t0 ! B)]"
    by (simp add: t'_def tA tB)
  have "fold (\<lambda>y. fold (\<lambda>x. mask_cell w h r ty [L..<L + h] [L + h..<L + h + h] y x) [0..<w])
              [0..<Suc n] (Inr t0) = Inr t'"
    using f step by simp
  moreover have "u8 t' = u8 t0" using u by (simp add: t'_def)
  moreover have "length (f64 t') = L + 2 * h" using l by (simp add: ft')
  moreover have "\<forall>a < L. f64 t' ! a = f64 t0 ! a"
    using low by (simp add: ft' A_def B_def)
  moreover have "\<forall>y < h. f64 t' ! (L + y) =
              (if y < Suc n then masked_row (?P y) w (f64 t0 ! (L + y)) else f64 t0 ! (L + y)) \<and>
              f64 t' ! (L + h + y) =
              (if y < Suc n then masked_row (?P y) w (f64 t0 ! (L + h + y)) else f64 t0 ! (L + h + y))"
  proof (intro allI impI)
    fix y assume y: "y < h"
    have in1: "L + y < length (f64 t)" "L + h + y < length (f64 t)" using y l by simp_all
    show "f64 t' ! (L + y) =
              (if y < Suc n then masked_row (?P y) w (f64 t0 ! (L + y)) else f64 t0 ! (L + y)) \<and>
              f64 t' ! (L + h + y) =
              (if y < Suc n then masked_row (?P y) w (f64 t0 ! (L + h + y)) else f64 t0 ! (L + h + y))"
    proof (cases "y = n")
      case True
      show ?thesis unfolding ft' using in1 nh True AB A B
        by (simp add: A_def B_def)
    next
      case False
      then have "L + y \<noteq> A" "L + h + y \<noteq> B" "L + y \<noteq> B" "L + h + y \<noteq> A"
        using y nh by (simp_all add: A_def B_def)
      then have "f64 t' ! (L + y) = f64 t ! (L + y)" "f64 t' ! (L + h + y) = f64 t ! (L + h + y)"
        unfolding ft' by simp_all
      then show ?thesis using rows y False by auto
    qed
  qed
  ultimately show ?case by blast
qed

text \<open>The result of a mask, coefficient by coefficient.\<close>

lemma applyFrequencyFilter_result:
  assumes ok: "spec_ok s fft"
  shows "\<exists>t. applyFrequencyFilter fft r ty s =
           Inr (t, \<lparr>width = width fft, height = height fft,
                    re = [length (f64 s)..<length (f64 s) + height fft],
                    im = [length (f64 s) + height fft..<length (f64 s) + height fft + height fft],
                    originalWidth = originalWidth fft, originalHeight = originalHeight fft\<rparr>) \<and>
           u8 t = u8 s \<and> length (f64 t) = length (f64 s) + 2 * height fft \<and>
           take (length (f64 s)) (f64 t) = f64 s \<and>
           (\<forall>y < height fft.
              length (f64 t ! (length (f64 s) + y)) = width fft \<and>
              length (f64 t ! (length (f64 s) + height fft + y)) = width fft \<and>
              (\<forall>x < width fft.
                 f64 t ! (length (f64 s) + y) ! x =
                   jmul (f64 s ! (re fft ! y) ! x) (pass_mask ty (centre_distance (width fft) (height fft) x y) r) \<and>
                 f64 t ! (length (f64 s) + height fft + y) ! x =
                   jmul (f64 s ! (im fft ! y) ! x) (pass_mask ty (centre_distance (width fft) (height fft) x y) r)))"
proof -
  define L where "L = length (f64 s)"
  define h where "h = height fft"
  define w where "w = width fft"
  have lr: "length (re fft) = h" and li: "length (im fft) = h"
    using ok by (simp_all add: spec_ok_def h_def)
  have inr: "a < L" "length (f64 s ! a) = w" if "a \<in> set (re fft)" for a
    using ok that by (simp_all add: spec_ok_def L_def w_def)
  have ini: "a < L" "length (f64 s ! a) = w" if "a \<in> set (im fft)" for a
    using ok that by (simp_all add: spec_ok_def L_def w_def)
  define s1 where "s1 = s\<lparr>f64 := f64 s @ map (\<lambda>a. f64 s ! a) (re fft)\<rparr>"
  have c1: "copy_rows (re fft) s = (s1, [L..<L + h])"
    unfolding s1_def L_def using copy_rows_eq[of "re fft" s] inr(1) lr
    by (simp add: L_def)
  have l1: "length (f64 s1) = L + h" by (simp add: s1_def L_def lr)
  have in1: "a < length (f64 s1)" if "a \<in> set (im fft)" for a
    using ini(1)[OF that] l1 by simp
  have im1: "map (\<lambda>a. f64 s1 ! a) (im fft) = map (\<lambda>a. f64 s ! a) (im fft)"
    using ini(1) by (simp add: s1_def nth_append L_def)
  define s2 where "s2 = s\<lparr>f64 := f64 s @ map (\<lambda>a. f64 s ! a) (re fft) @ map (\<lambda>a. f64 s ! a) (im fft)\<rparr>"
  have c2: "copy_rows (im fft) s1 = (s2, [L + h..<L + h + h])"
    using copy_rows_eq[of "im fft" s1, OF in1] unfolding im1 l1 li
    by (simp add: s1_def s2_def)
  have l2: "length (f64 s2) = L + 2 * h" by (simp add: s2_def L_def lr li)
  have u2: "u8 s2 = u8 s" by (simp add: s2_def)
  have low2: "f64 s2 ! a = f64 s ! a" if "a < L" for a
    using that by (simp add: s2_def nth_append L_def)
  have re2: "f64 s2 ! (L + y) = f64 s ! (re fft ! y)" if "y < h" for y
    using that lr by (simp add: s2_def nth_append L_def)
  have im2: "f64 s2 ! (L + h + y) = f64 s ! (im fft ! y)" if "y < h" for y
  proof -
    have "f64 s2 ! (L + h + y) = (map (\<lambda>a. f64 s ! a) (re fft) @ map (\<lambda>a. f64 s ! a) (im fft)) ! (h + y)"
      by (simp add: s2_def nth_append L_def add.assoc)
    also have "\<dots> = f64 s ! (im fft ! y)" using that lr li by (simp add: nth_append)
    finally show ?thesis .
  qed
  let ?P = "\<lambda>y x. pass_mask ty (centre_distance w h x y) r"
  from mask_rows_loop[OF l2 order_refl, of w r ty] obtain t where
    f: "fold (\<lambda>y. fold (\<lambda>x. mask_cell w h r ty [L..<L + h] [L + h..<L + h + h] y x) [0..<w])
              [0..<h] (Inr s2) = Inr t"
    and u: "u8 t = u8 s2" and l: "length (f64 t) = L + 2 * h"
    and low: "\<forall>a < L. f64 t ! a = f64 s2 ! a"
    and rows: "\<forall>y < h. f64 t ! (L + y) =
              (if y < h then masked_row (?P y) w (f64 s2 ! (L + y)) else f64 s2 ! (L + y)) \<and>
              f64 t ! (L + h + y) =
              (if y < h then masked_row (?P y) w (f64 s2 ! (L + h + y)) else f64 s2 ! (L + h + y))"
    by blast
  have res: "applyFrequencyFilter fft r ty s =
           Inr (t, \<lparr>width = w, height = h, re = [L..<L + h], im = [L + h..<L + h + h],
                    originalWidth = originalWidth fft, originalHeight = originalHeight fft\<rparr>)"
    unfolding applyFrequencyFilter_def Let_def w_def[symmetric] h_def[symmetric] c1 prod.case c2 f
    by simp
  have tk: "take L (f64 t) = f64 s"
  proof (rule nth_equalityI)
    show "length (take L (f64 t)) = length (f64 s)" using l by (simp add: L_def)
  next
    fix i assume "i < length (take L (f64 t))"
    then have "i < L" by simp
    then show "take L (f64 t) ! i = f64 s ! i" using low low2 by simp
  qed
  have cells: "length (f64 t ! (L + y)) = w \<and> length (f64 t ! (L + h + y)) = w \<and>
      (\<forall>x < w. f64 t ! (L + y) ! x = jmul (f64 s ! (re fft ! y) ! x) (?P y x) \<and>
               f64 t ! (L + h + y) ! x = jmul (f64 s ! (im fft ! y) ! x) (?P y x))"
    if y: "y < h" for y
  proof -
    have a: "re fft ! y \<in> set (re fft)" "im fft ! y \<in> set (im fft)" using y lr li by simp_all
    have lw: "length (f64 s ! (re fft ! y)) = w" "length (f64 s ! (im fft ! y)) = w"
      using inr(2)[OF a(1)] ini(2)[OF a(2)] by simp_all
    have r1: "f64 t ! (L + y) = masked_row (?P y) w (f64 s ! (re fft ! y))"
      and r2: "f64 t ! (L + h + y) = masked_row (?P y) w (f64 s ! (im fft ! y))"
      using rows y re2[OF y] im2[OF y] by simp_all
    show ?thesis unfolding r1 r2 using lw by (simp add: masked_row_nth)
  qed
  have u': "u8 t = u8 s" using u u2 by simp
  have cells': "\<forall>y < h. length (f64 t ! (L + y)) = w \<and> length (f64 t ! (L + h + y)) = w \<and>
      (\<forall>x < w. f64 t ! (L + y) ! x = jmul (f64 s ! (re fft ! y) ! x) (?P y x) \<and>
               f64 t ! (L + h + y) ! x = jmul (f64 s ! (im fft ! y) ! x) (?P y x))"
    using cells by blast
  show ?thesis
    apply (rule exI[of _ t])
    using res u' l tk cells' unfolding L_def h_def w_def by (intro conjI)
qed

lemma rne_eqI:
  assumes "of_int m - 1 / 2 < x" "x < of_int m + 1 / 2"
  shows "rne x = m"
proof -
  have e: "\<bar>of_int (rne x) - x\<bar> \<le> 1 / 2" by (rule rne_error)
  have "\<bar>(of_int (rne x) :: real) - of_int m\<bar> < 1" using e assms by linarith
  then have "\<bar>of_int (rne x - m) :: real\<bar> < 1" by simp
  then have "\<bar>rne x - m\<bar> < 1" by linarith
  then show ?thesis by simp
qed

lemma Math_sqrt_2: "Math_sqrt 2 = 6369051672525773 / 2 ^ 52"
proof -
  have s1: "1 \<le> sqrt 2" by simp
  have s2: "sqrt 2 < 2" by (rule real_less_lsqrt) simp_all
  have "fl (sqrt 2) = of_int (rne (sqrt 2 / 2 powi (0 - 52))) * 2 powi (0 - 52)"
    by (rule fl_eval) (use s1 s2 in simp_all)
  moreover have "rne (sqrt 2 / 2 powi (0 - 52)) = 6369051672525773"
  proof (rule rne_eqI)
    have v: "sqrt 2 / 2 powi (0 - 52) = sqrt 2 * 2 ^ 52"
      by (simp add: power_int_minus_divide)
    have p: "(2::real) ^ 52 = sqrt ((2 ^ 52)\<^sup>2)" by simp
    have w: "sqrt 2 * 2 ^ 52 = sqrt (2 * (2 ^ 52)\<^sup>2)"
      by (subst real_sqrt_mult) simp
    show "of_int 6369051672525773 - 1 / 2 < sqrt 2 / 2 powi (0 - 52)"
      unfolding v w by (rule real_less_rsqrt) (simp add: power2_eq_square)
    show "sqrt 2 / 2 powi (0 - 52) < of_int 6369051672525773 + 1 / 2"
      unfolding v w by (rule real_less_lsqrt) (simp_all add: power2_eq_square)
  qed
  ultimately show ?thesis by (simp add: Math_sqrt_def power_int_minus_divide)
qed

lemma jfl_double: "fl x = x \<Longrightarrow> \<bar>x\<bar> < 2 ^ 1024 \<Longrightarrow> jfl x = Fin x"
  by (simp add: jfl_def)

lemma jmul_one: "double v \<Longrightarrow> jmul v (Fin 1) = v"
  by (cases v) (simp_all add: jfl_def)

lemma jle_or_jge: "r \<noteq> NaN \<Longrightarrow> jle d r \<or> jge d r"
  by (cases r) auto

lemma jle_and_jge: "jle d r \<and> jge d r \<longleftrightarrow> r = Fin d"
  by (cases r) auto

lemma applyFrequencyFilter_post:
  assumes ok: "spec_ok s fft"
  shows "\<exists>t out. applyFrequencyFilter fft r ty s = Inr (t, out) \<and> mask_post s fft t out \<and>
     (\<forall>y < height fft. \<forall>x < width fft.
        rdf t (re out ! y) x =
          jmul (rdf s (re fft ! y) x) (pass_mask ty (centre_distance (width fft) (height fft) x y) r) \<and>
        rdf t (im out ! y) x =
          jmul (rdf s (im fft ! y) x) (pass_mask ty (centre_distance (width fft) (height fft) x y) r))"
proof -
  define L where "L = length (f64 s)"
  define h where "h = height fft"
  define w where "w = width fft"
  define out where "out = \<lparr>width = w, height = h, re = [L..<L + h], im = [L + h..<L + h + h],
                    originalWidth = originalWidth fft, originalHeight = originalHeight fft\<rparr>"
  have lr: "length (re fft) = h" and li: "length (im fft) = h"
    using ok by (simp_all add: spec_ok_def h_def)
  have inr: "length (f64 s ! (re fft ! y)) = w" and ini: "length (f64 s ! (im fft ! y)) = w"
    if "y < h" for y
  proof -
    have "re fft ! y \<in> set (re fft)" "im fft ! y \<in> set (im fft)" using that lr li by simp_all
    then show "length (f64 s ! (re fft ! y)) = w" "length (f64 s ! (im fft ! y)) = w"
      using ok by (simp_all add: spec_ok_def w_def)
  qed
  from applyFrequencyFilter_result[OF ok, of r ty] obtain t where
    res: "applyFrequencyFilter fft r ty s = Inr (t, out)"
    and u: "u8 t = u8 s" and l: "length (f64 t) = L + 2 * h"
    and tk: "take L (f64 t) = f64 s"
    and cells: "\<forall>y < h.
              length (f64 t ! (L + y)) = w \<and> length (f64 t ! (L + h + y)) = w \<and>
              (\<forall>x < w.
                 f64 t ! (L + y) ! x =
                   jmul (f64 s ! (re fft ! y) ! x) (pass_mask ty (centre_distance w h x y) r) \<and>
                 f64 t ! (L + h + y) ! x =
                   jmul (f64 s ! (im fft ! y) ! x) (pass_mask ty (centre_distance w h x y) r))"
    unfolding L_def h_def w_def out_def by blast
  have d: "distinct (re out @ im out)" by (auto simp: out_def)
  have rows: "length (f64 s) \<le> a \<and> a < length (f64 t) \<and> length (f64 t ! a) = width fft"
    if "a \<in> set (re out @ im out)" for a
  proof -
    have mem: "L \<le> a" "a < L + h + h" using that by (auto simp: out_def)
    consider y where "y < h" "a = L + y" | y where "y < h" "a = L + h + y"
    proof (cases "a < L + h")
      case True
      then have "a - L < h" "a = L + (a - L)" using mem by simp_all
      then show ?thesis using \<open>\<And>y. y < h \<Longrightarrow> a = L + y \<Longrightarrow> thesis\<close> by blast
    next
      case False
      then have "a - (L + h) < h" "a = L + h + (a - (L + h))" using mem by simp_all
      then show ?thesis using \<open>\<And>y. y < h \<Longrightarrow> a = L + h + y \<Longrightarrow> thesis\<close> by blast
    qed
    then show ?thesis
    proof cases
      case 1
      then show ?thesis using cells l by (simp add: L_def w_def)
    next
      case 2
      then show ?thesis using cells l by (simp add: L_def w_def)
    qed
  qed
  have rows': "\<forall>a \<in> set (re out @ im out).
      length (f64 s) \<le> a \<and> a < length (f64 t) \<and> length (f64 t ! a) = width fft"
    using rows by blast
  have shape: "width out = width fft" "height out = height fft"
    "originalWidth out = originalWidth fft" "originalHeight out = originalHeight fft"
    "length (re out) = length (re fft)" "length (im out) = length (im fft)"
    by (simp_all add: out_def w_def lr li) (simp_all add: h_def)
  have post: "mask_post s fft t out"
    unfolding mask_post_def using d rows' u tk shape unfolding L_def by (intro conjI)
  have vals: "rdf t (re out ! y) x =
          jmul (rdf s (re fft ! y) x) (pass_mask ty (centre_distance w h x y) r) \<and>
        rdf t (im out ! y) x =
          jmul (rdf s (im fft ! y) x) (pass_mask ty (centre_distance w h x y) r)"
    if y: "y < h" and x: "x < w" for x y
  proof -
    have o: "re out ! y = L + y" "im out ! y = L + h + y" using y by (simp_all add: out_def)
    show ?thesis unfolding o rdf_def using cells y x inr[OF y] ini[OF y] by simp
  qed
  show ?thesis
    apply (rule exI[of _ t], rule exI[of _ out])
    using res post vals unfolding w_def h_def by (intro conjI allI impI) blast+
qed

text \<open>
  Claim C4. For every spectrum and every radius \<open>r\<close> that is a number, the low-pass and
  the high-pass mask at \<open>r\<close> both return a new spectrum of the shape of their input and
  leave their input as it was. With \<open>d\<close> the distance of a coordinate from the centre
  as the code computes it in doubles, the low-pass mask keeps the coefficient where
  \<open>d \<le> r\<close> and the high-pass mask where \<open>d \<ge> r\<close>, and each multiplies by 0 what it does
  not keep: every coordinate is kept by at least one of the two, and by both exactly
  where \<open>d = r\<close>.
\<close>

theorem frequency_masks_complementary:
  assumes "spec_ok s fft" and "r \<noteq> NaN"
  shows "\<exists>sl lo sh hi.
     applyFrequencyFilter fft r Low s = Inr (sl, lo) \<and> mask_post s fft sl lo \<and>
     applyFrequencyFilter fft r High s = Inr (sh, hi) \<and> mask_post s fft sh hi \<and>
     (\<forall>y < height fft. \<forall>x < width fft.
        let d = Math_sqrt (fadd
                  (fmul (fsub (real x) (fdiv (real (width fft)) 2))
                        (fsub (real x) (fdiv (real (width fft)) 2)))
                  (fmul (fsub (real y) (fdiv (real (height fft)) 2))
                        (fsub (real y) (fdiv (real (height fft)) 2))))
        in (jle d r \<or> jge d r) \<and> (jle d r \<and> jge d r \<longleftrightarrow> r = Fin d) \<and>
           rdf sl (re lo ! y) x =
             (if jle d r then rdf s (re fft ! y) x else jmul (rdf s (re fft ! y) x) (Fin 0)) \<and>
           rdf sl (im lo ! y) x =
             (if jle d r then rdf s (im fft ! y) x else jmul (rdf s (im fft ! y) x) (Fin 0)) \<and>
           rdf sh (re hi ! y) x =
             (if jge d r then rdf s (re fft ! y) x else jmul (rdf s (re fft ! y) x) (Fin 0)) \<and>
           rdf sh (im hi ! y) x =
             (if jge d r then rdf s (im fft ! y) x else jmul (rdf s (im fft ! y) x) (Fin 0)))"
proof -
  note ok = assms(1)
  let ?d = "\<lambda>x y. centre_distance (width fft) (height fft) x y"
  from applyFrequencyFilter_post[OF ok, of r Low] obtain sl lo where
    l1: "applyFrequencyFilter fft r Low s = Inr (sl, lo)" and l2: "mask_post s fft sl lo"
    and l3: "\<forall>y < height fft. \<forall>x < width fft.
        rdf sl (re lo ! y) x = jmul (rdf s (re fft ! y) x) (pass_mask Low (?d x y) r) \<and>
        rdf sl (im lo ! y) x = jmul (rdf s (im fft ! y) x) (pass_mask Low (?d x y) r)"
    by blast
  from applyFrequencyFilter_post[OF ok, of r High] obtain sh hi where
    h1: "applyFrequencyFilter fft r High s = Inr (sh, hi)" and h2: "mask_post s fft sh hi"
    and h3: "\<forall>y < height fft. \<forall>x < width fft.
        rdf sh (re hi ! y) x = jmul (rdf s (re fft ! y) x) (pass_mask High (?d x y) r) \<and>
        rdf sh (im hi ! y) x = jmul (rdf s (im fft ! y) x) (pass_mask High (?d x y) r)"
    by blast
  have dbl: "double (rdf s (re fft ! y) x)" "double (rdf s (im fft ! y) x)"
    if "y < height fft" "x < width fft" for x y
  proof -
    have a: "re fft ! y \<in> set (re fft)" "im fft ! y \<in> set (im fft)"
      using that ok by (simp_all add: spec_ok_def)
    have "length (f64 s ! (re fft ! y)) = width fft" "length (f64 s ! (im fft ! y)) = width fft"
      "\<forall>v \<in> set (f64 s ! (re fft ! y)). double v" "\<forall>v \<in> set (f64 s ! (im fft ! y)). double v"
      using a ok[unfolded spec_ok_def] by blast+
    then show "double (rdf s (re fft ! y) x)" "double (rdf s (im fft ! y) x)"
      using that by (simp_all add: rdf_def)
  qed
  have cell: "let d = Math_sqrt (fadd
                  (fmul (fsub (real x) (fdiv (real (width fft)) 2))
                        (fsub (real x) (fdiv (real (width fft)) 2)))
                  (fmul (fsub (real y) (fdiv (real (height fft)) 2))
                        (fsub (real y) (fdiv (real (height fft)) 2))))
        in (jle d r \<or> jge d r) \<and> (jle d r \<and> jge d r \<longleftrightarrow> r = Fin d) \<and>
           rdf sl (re lo ! y) x =
             (if jle d r then rdf s (re fft ! y) x else jmul (rdf s (re fft ! y) x) (Fin 0)) \<and>
           rdf sl (im lo ! y) x =
             (if jle d r then rdf s (im fft ! y) x else jmul (rdf s (im fft ! y) x) (Fin 0)) \<and>
           rdf sh (re hi ! y) x =
             (if jge d r then rdf s (re fft ! y) x else jmul (rdf s (re fft ! y) x) (Fin 0)) \<and>
           rdf sh (im hi ! y) x =
             (if jge d r then rdf s (im fft ! y) x else jmul (rdf s (im fft ! y) x) (Fin 0))"
    if y: "y < height fft" and x: "x < width fft" for x y
  proof -
    have d: "Math_sqrt (fadd
                  (fmul (fsub (real x) (fdiv (real (width fft)) 2))
                        (fsub (real x) (fdiv (real (width fft)) 2)))
                  (fmul (fsub (real y) (fdiv (real (height fft)) 2))
                        (fsub (real y) (fdiv (real (height fft)) 2)))) = ?d x y"
      by (simp add: centre_distance_def Let_def)
    have m: "jmul (rdf s (re fft ! y) x) (Fin 1) = rdf s (re fft ! y) x"
      "jmul (rdf s (im fft ! y) x) (Fin 1) = rdf s (im fft ! y) x"
      using dbl[OF y x] by (simp_all add: jmul_one)
    show ?thesis
      unfolding d Let_def
      using l3 h3 y x m jle_or_jge[OF assms(2), of "?d x y"] jle_and_jge[of "?d x y" r]
      by (simp add: pass_mask_def)
  qed
  show ?thesis
    apply (rule exI[of _ sl], rule exI[of _ lo], rule exI[of _ sh], rule exI[of _ hi])
    using l1 l2 h1 h2 cell by (intro conjI allI impI) blast+
qed

lemma upt_0_2: "[0..<2] = [0, Suc 0]"
  by (simp add: numeral_2_eq_2)

lemma centre_distance_2:
  "centre_distance 2 2 0 0 = 6369051672525773 / 2 ^ 52"
  "centre_distance 2 2 (Suc 0) 0 = 1"
  "centre_distance 2 2 0 (Suc 0) = 1"
  "centre_distance 2 2 (Suc 0) (Suc 0) = 0"
proof -
  have a: "fl (- 1) = - 1" using fl_minus[of 1] by simp
  have s: "Math_sqrt 1 = 1" "Math_sqrt 0 = 0" by (simp_all add: Math_sqrt_def)
  show "centre_distance 2 2 0 0 = 6369051672525773 / 2 ^ 52"
    using Math_sqrt_2 by (simp add: centre_distance_def fdiv_def fsub_def fmul_def fadd_def a)
  show "centre_distance 2 2 (Suc 0) 0 = 1" "centre_distance 2 2 0 (Suc 0) = 1"
    "centre_distance 2 2 (Suc 0) (Suc 0) = 0"
    by (simp_all add: centre_distance_def fdiv_def fsub_def fmul_def fadd_def a s)
qed

text \<open>The theorem at a spectrum of two rows and two columns and the radius 1: the
  coefficient at \<open>(1, 1)\<close>, the centre, is kept by the low-pass mask and zeroed by the
  high-pass mask.\<close>

theorem frequency_masks_complementary_witness:
  "spec_ok \<lparr>u8 = [], f64 = [[Fin 1, Fin 2], [Fin 3, Fin 4], [Fin 5, Fin 6], [Fin 7, Fin 8]]\<rparr>
      \<lparr>width = 2, height = 2, re = [0, 1], im = [2, 3], originalWidth = 2, originalHeight = 2\<rparr> \<and>
   Fin 1 \<noteq> NaN \<and>
   (\<exists>sl lo sh hi.
      applyFrequencyFilter
        \<lparr>width = 2, height = 2, re = [0, 1], im = [2, 3], originalWidth = 2, originalHeight = 2\<rparr>
        (Fin 1) Low
        \<lparr>u8 = [], f64 = [[Fin 1, Fin 2], [Fin 3, Fin 4], [Fin 5, Fin 6], [Fin 7, Fin 8]]\<rparr>
        = Inr (sl, lo) \<and>
      applyFrequencyFilter
        \<lparr>width = 2, height = 2, re = [0, 1], im = [2, 3], originalWidth = 2, originalHeight = 2\<rparr>
        (Fin 1) High
        \<lparr>u8 = [], f64 = [[Fin 1, Fin 2], [Fin 3, Fin 4], [Fin 5, Fin 6], [Fin 7, Fin 8]]\<rparr>
        = Inr (sh, hi) \<and>
      width lo = 2 \<and> height hi = 2 \<and>
      rdf sl (re lo ! 1) 1 = Fin 4 \<and> rdf sl (im lo ! 1) 1 = Fin 8 \<and>
      rdf sh (re hi ! 1) 1 = Fin 0 \<and> rdf sh (im hi ! 1) 1 = Fin 0)"
proof -
  let ?s = "\<lparr>u8 = [], f64 = [[Fin 1, Fin 2], [Fin 3, Fin 4], [Fin 5, Fin 6], [Fin 7, Fin 8]]\<rparr>"
  let ?f = "\<lparr>width = 2, height = 2, re = [0, 1], im = [2, 3],
             originalWidth = 2, originalHeight = 2\<rparr>"
  have h: "spec_ok ?s ?f" by (simp add: spec_ok_def)
  have r: "Fin 1 \<noteq> NaN" by simp
  have d: "Math_sqrt (fadd
                  (fmul (fsub (real (Suc 0)) (fdiv (real (width ?f)) 2))
                        (fsub (real (Suc 0)) (fdiv (real (width ?f)) 2)))
                  (fmul (fsub (real (Suc 0)) (fdiv (real (height ?f)) 2))
                        (fsub (real (Suc 0)) (fdiv (real (height ?f)) 2)))) = 0"
    by (simp add: fdiv_def fsub_def fmul_def fadd_def Math_sqrt_def)
  from frequency_masks_complementary[OF h r] obtain sl lo sh hi where
    l: "applyFrequencyFilter ?f (Fin 1) Low ?s = Inr (sl, lo)" "mask_post ?s ?f sl lo"
    and g: "applyFrequencyFilter ?f (Fin 1) High ?s = Inr (sh, hi)" "mask_post ?s ?f sh hi"
    and c: "\<forall>y < height ?f. \<forall>x < width ?f.
        let d = Math_sqrt (fadd
                  (fmul (fsub (real x) (fdiv (real (width ?f)) 2))
                        (fsub (real x) (fdiv (real (width ?f)) 2)))
                  (fmul (fsub (real y) (fdiv (real (height ?f)) 2))
                        (fsub (real y) (fdiv (real (height ?f)) 2))))
        in (jle d (Fin 1) \<or> jge d (Fin 1)) \<and> (jle d (Fin 1) \<and> jge d (Fin 1) \<longleftrightarrow> Fin 1 = Fin d) \<and>
           rdf sl (re lo ! y) x =
             (if jle d (Fin 1) then rdf ?s (re ?f ! y) x else jmul (rdf ?s (re ?f ! y) x) (Fin 0)) \<and>
           rdf sl (im lo ! y) x =
             (if jle d (Fin 1) then rdf ?s (im ?f ! y) x else jmul (rdf ?s (im ?f ! y) x) (Fin 0)) \<and>
           rdf sh (re hi ! y) x =
             (if jge d (Fin 1) then rdf ?s (re ?f ! y) x else jmul (rdf ?s (re ?f ! y) x) (Fin 0)) \<and>
           rdf sh (im hi ! y) x =
             (if jge d (Fin 1) then rdf ?s (im ?f ! y) x else jmul (rdf ?s (im ?f ! y) x) (Fin 0))"
    by blast
  have y1: "Suc 0 < height ?f" and x1: "Suc 0 < width ?f" by simp_all
  from c[rule_format, OF y1 x1]
  have v: "rdf sl (re lo ! 1) 1 = Fin 4" "rdf sl (im lo ! 1) 1 = Fin 8"
    "rdf sh (re hi ! 1) 1 = Fin 0" "rdf sh (im hi ! 1) 1 = Fin 0"
    unfolding Let_def d by (simp_all add: rdf_def jfl_def)
  have w: "width lo = 2" "height hi = 2" using l(2) g(2) by (simp_all add: mask_post_def)
  show ?thesis using h r l(1) g(1) v w by blast
qed

lemma mask_NaN:
  "applyFrequencyFilter \<lparr>width = 1, height = 1, re = [0], im = [1],
                          originalWidth = 1, originalHeight = 1\<rparr> NaN ty
       \<lparr>u8 = [], f64 = [[Fin 5], [Fin 7]]\<rparr> =
     Inr (\<lparr>u8 = [], f64 = [[Fin 5], [Fin 7], [Fin 0], [Fin 0]]\<rparr>,
          \<lparr>width = 1, height = 1, re = [2], im = [3], originalWidth = 1, originalHeight = 1\<rparr>)"
  by (cases ty)
     (simp_all add: applyFrequencyFilter_def copy_rows_def mask_cell_def wrf_def rdf_def
        pass_mask_def Let_def jfl_def)

lemma mask_2x2:
  "applyFrequencyFilter \<lparr>width = 2, height = 2, re = [0, 1], im = [2, 3],
                          originalWidth = 2, originalHeight = 2\<rparr>
       (Fin (6369051672525773 / 2 ^ 52)) Low
       \<lparr>u8 = [], f64 = [[Fin 1, Fin 2], [Fin 3, Fin 4], [Fin 5, Fin 6], [Fin 7, Fin 8]]\<rparr> =
     Inr (\<lparr>u8 = [], f64 = [[Fin 1, Fin 2], [Fin 3, Fin 4], [Fin 5, Fin 6], [Fin 7, Fin 8],
                            [Fin 1, Fin 2], [Fin 3, Fin 4], [Fin 5, Fin 6], [Fin 7, Fin 8]]\<rparr>,
          \<lparr>width = 2, height = 2, re = [4, 5], im = [6, 7],
           originalWidth = 2, originalHeight = 2\<rparr>)"
  "applyFrequencyFilter \<lparr>width = 2, height = 2, re = [0, 1], im = [2, 3],
                          originalWidth = 2, originalHeight = 2\<rparr>
       (Fin (6369051672525773 / 2 ^ 52)) High
       \<lparr>u8 = [], f64 = [[Fin 1, Fin 2], [Fin 3, Fin 4], [Fin 5, Fin 6], [Fin 7, Fin 8]]\<rparr> =
     Inr (\<lparr>u8 = [], f64 = [[Fin 1, Fin 2], [Fin 3, Fin 4], [Fin 5, Fin 6], [Fin 7, Fin 8],
                            [Fin 1, Fin 0], [Fin 0, Fin 0], [Fin 5, Fin 0], [Fin 0, Fin 0]]\<rparr>,
          \<lparr>width = 2, height = 2, re = [4, 5], im = [6, 7],
           originalWidth = 2, originalHeight = 2\<rparr>)"
  by (simp_all add: applyFrequencyFilter_def copy_rows_def mask_cell_def wrf_def rdf_def pass_mask_def
      Let_def upt_0_2 centre_distance_2 jfl_def)

text \<open>
  Two calls where the masks do not split the coordinates as the claim has it. With the
  radius \<^verbatim>\<open>NaN\<close>, both masks zero the one coefficient (5, 7) of a spectrum of one row and
  one column: it is kept by neither. With the radius \<open>6369051672525773 / 2\<^sup>5\<^sup>2\<close>, the
  double next to the square root of 2 and above it, both masks keep the coefficient (1, 5) at
  \<open>(0, 0)\<close> of a spectrum of two rows and two columns, whose distance from the centre
  \<open>(1, 1)\<close> is the square root of 2 and not that radius.
\<close>

theorem frequency_masks_counterexample:
  "applyFrequencyFilter \<lparr>width = 1, height = 1, re = [0], im = [1],
                          originalWidth = 1, originalHeight = 1\<rparr> NaN Low
       \<lparr>u8 = [], f64 = [[Fin 5], [Fin 7]]\<rparr> =
     Inr (\<lparr>u8 = [], f64 = [[Fin 5], [Fin 7], [Fin 0], [Fin 0]]\<rparr>,
          \<lparr>width = 1, height = 1, re = [2], im = [3], originalWidth = 1, originalHeight = 1\<rparr>) \<and>
   applyFrequencyFilter \<lparr>width = 1, height = 1, re = [0], im = [1],
                          originalWidth = 1, originalHeight = 1\<rparr> NaN High
       \<lparr>u8 = [], f64 = [[Fin 5], [Fin 7]]\<rparr> =
     Inr (\<lparr>u8 = [], f64 = [[Fin 5], [Fin 7], [Fin 0], [Fin 0]]\<rparr>,
          \<lparr>width = 1, height = 1, re = [2], im = [3], originalWidth = 1, originalHeight = 1\<rparr>) \<and>
   applyFrequencyFilter \<lparr>width = 2, height = 2, re = [0, 1], im = [2, 3],
                          originalWidth = 2, originalHeight = 2\<rparr>
       (Fin (6369051672525773 / 2 ^ 52)) Low
       \<lparr>u8 = [], f64 = [[Fin 1, Fin 2], [Fin 3, Fin 4], [Fin 5, Fin 6], [Fin 7, Fin 8]]\<rparr> =
     Inr (\<lparr>u8 = [], f64 = [[Fin 1, Fin 2], [Fin 3, Fin 4], [Fin 5, Fin 6], [Fin 7, Fin 8],
                            [Fin 1, Fin 2], [Fin 3, Fin 4], [Fin 5, Fin 6], [Fin 7, Fin 8]]\<rparr>,
          \<lparr>width = 2, height = 2, re = [4, 5], im = [6, 7],
           originalWidth = 2, originalHeight = 2\<rparr>) \<and>
   applyFrequencyFilter \<lparr>width = 2, height = 2, re = [0, 1], im = [2, 3],
                          originalWidth = 2, originalHeight = 2\<rparr>
       (Fin (6369051672525773 / 2 ^ 52)) High
       \<lparr>u8 = [], f64 = [[Fin 1, Fin 2], [Fin 3, Fin 4], [Fin 5, Fin 6], [Fin 7, Fin 8]]\<rparr> =
     Inr (\<lparr>u8 = [], f64 = [[Fin 1, Fin 2], [Fin 3, Fin 4], [Fin 5, Fin 6], [Fin 7, Fin 8],
                            [Fin 1, Fin 0], [Fin 0, Fin 0], [Fin 5, Fin 0], [Fin 0, Fin 0]]\<rparr>,
          \<lparr>width = 2, height = 2, re = [4, 5], im = [6, 7],
           originalWidth = 2, originalHeight = 2\<rparr>) \<and>
   (6369051672525773 / 2 ^ 52 :: real) \<noteq> sqrt ((0 - 2 / 2)\<^sup>2 + (0 - 2 / 2)\<^sup>2)"
proof -
  have "sqrt 2 < (6369051672525773 / 2 ^ 52 :: real)"
    by (rule real_less_lsqrt) (simp_all add: power2_eq_square)
  then have "(6369051672525773 / 2 ^ 52 :: real) \<noteq> sqrt ((0 - 2 / 2)\<^sup>2 + (0 - 2 / 2)\<^sup>2)"
    by simp
  then show ?thesis
    using mask_NaN[of Low] mask_NaN[of High] mask_2x2 by (intro conjI)
qed

end
